(* ===== verification/Prelude.thy ===== *)
theory Prelude
  imports Main "HOL-Library.Word" "HOL-Library.Multiset"
begin

text \<open>
  Shared vocabulary of the development: the machine integers of the i486 target
  (\<^verbatim>\<open>src/sys/types.h\<close>), the result type in which a failed assertion, a call of
  \<^verbatim>\<open>panic()\<close> or an access outside an object is a value, and the generic lemmas on lists
  and words that the component theories share.
\<close>

unbundle bit_operations_syntax

section \<open>Machine types\<close>

text \<open>
  \<^verbatim>\<open>size_t\<close>, \<^verbatim>\<open>uint32_t\<close>, \<^verbatim>\<open>uintptr_t\<close> and every pointer are 32 bits wide on the
  target. The null pointer is address 0.
\<close>

type_synonym u8 = "8 word"
type_synonym u16 = "16 word"
type_synonym u32 = "32 word"
type_synonym ptr = "32 word"

abbreviation (input) NULL :: ptr where "NULL \<equiv> 0"

abbreviation (input) UINT32_MAX :: u32 where "UINT32_MAX \<equiv> 4294967295"

section \<open>Results\<close>

text \<open>
  What stops a kernel function other than its return: a failed \<^verbatim>\<open>assert\<close> or an explicit
  \<^verbatim>\<open>panic\<close> (both halt the kernel; \<^verbatim>\<open>CONF_RELEASE\<close> is 0 in \<^verbatim>\<open>src/sys/config.h\<close>, so
  assertions are compiled in), a read or write outside the object a pointer points into, and
  a loop that exceeds the fuel its model was given.
\<close>

datatype fault = Assertion | KernelPanic | OutOfBounds | Diverges

type_synonym 'a result = "fault + 'a"

definition bind_res :: "'a result \<Rightarrow> ('a \<Rightarrow> 'b result) \<Rightarrow> 'b result" where
  "bind_res r f = (case r of Inl e \<Rightarrow> Inl e | Inr x \<Rightarrow> f x)"

text \<open>A guard that faults, and a checked read and write of an array cell.\<close>

definition check :: "fault \<Rightarrow> bool \<Rightarrow> unit result" where
  "check e b = (if b then Inr () else Inl e)"

definition read_cell :: "'a list \<Rightarrow> nat \<Rightarrow> 'a result" where
  "read_cell xs i = (if i < length xs then Inr (xs ! i) else Inl OutOfBounds)"

definition write_cell :: "'a list \<Rightarrow> nat \<Rightarrow> 'a \<Rightarrow> 'a list result" where
  "write_cell xs i x = (if i < length xs then Inr (xs[i := x]) else Inl OutOfBounds)"

named_theorems res_simps \<open>evaluation of results\<close>

lemma bind_res_simps [simp, res_simps]:
  "bind_res (Inl e) f = Inl e"
  "bind_res (Inr x) f = f x"
  by (simp_all add: bind_res_def)

lemma bind_res_Inr_iff:
  "bind_res r f = Inr y \<longleftrightarrow> (\<exists>x. r = Inr x \<and> f x = Inr y)"
  by (cases r) auto

lemma bind_res_assoc: "bind_res (bind_res r f) g = bind_res r (\<lambda>x. bind_res (f x) g)"
  by (cases r) auto

lemma bind_res_cong [fundef_cong]:
  "r = r' \<Longrightarrow> (\<And>x. r' = Inr x \<Longrightarrow> f x = f' x) \<Longrightarrow> bind_res r f = bind_res r' f'"
  by (cases r') auto

lemma check_simps [simp, res_simps]:
  "check e True = Inr ()"
  "check e False = Inl e"
  by (simp_all add: check_def)

lemma read_cell_in [simp, res_simps]: "i < length xs \<Longrightarrow> read_cell xs i = Inr (xs ! i)"
  by (simp add: read_cell_def)

lemma write_cell_in [simp, res_simps]: "i < length xs \<Longrightarrow> write_cell xs i x = Inr (xs[i := x])"
  by (simp add: write_cell_def)

section \<open>Words\<close>

lemma unat_u32_less: "unat (x :: u32) < 4294967296"
  using unsigned_less[of x, where ?'a = nat] by simp

lemma unat_add_no_wrap: "unat x + unat y < 4294967296 \<Longrightarrow> unat (x + y) = unat x + unat y" for x y :: u32
  by (simp add: unat_word_ariths)

lemma unat_Suc_no_wrap: "(x :: 'a::len word) < y \<Longrightarrow> unat (x + 1) = Suc (unat x)"
  by unat_arith

lemma unat_pred_pos: "0 < unat (x :: 'a::len word) \<Longrightarrow> unat (x - 1) = unat x - 1"
  by (metis unat_minus_one unat_0 less_irrefl_nat)

lemma unat_half_less: "x div 2 \<noteq> 0 \<Longrightarrow> unat x div 2 < unat x" for x :: u32
  by (cases "x = 0") (auto simp: unat_gt_0)

text \<open>One fallible step per element of a list.\<close>

primrec fold_res :: "('s \<Rightarrow> 'a \<Rightarrow> 's result) \<Rightarrow> 's \<Rightarrow> 'a list \<Rightarrow> 's result" where
  "fold_res f s [] = Inr s"
| "fold_res f s (x # xs) = bind_res (f s x) (\<lambda>s. fold_res f s xs)"

section \<open>Spinlocks\<close>

text \<open>
  \<^verbatim>\<open>src/sys/system/lock.S\<close>: a byte that is compared with 0 and set to 1. Taking a lock that is held
  spins; within one run of an operation nobody else releases it, so this is divergence.
\<close>

type_synonym spinlock = u8

definition SPINLOCK_INIT :: spinlock where "SPINLOCK_INIT = 0"

definition spinlock_lock :: "spinlock \<Rightarrow> spinlock result" where
  "spinlock_lock lck = (if lck = 0 then Inr 1 else Inl Diverges)"

definition spinlock_tryLock :: "spinlock \<Rightarrow> bool \<times> spinlock" where
  "spinlock_tryLock lck = (if lck = 0 then (True, 1) else (False, lck))"

definition spinlock_unlock :: "spinlock \<Rightarrow> spinlock" where
  "spinlock_unlock lck = 0"

lemma spinlock_simps [simp]:
  "spinlock_lock 0 = Inr 1" "spinlock_lock 1 = Inl Diverges" "spinlock_unlock lck = 0" "SPINLOCK_INIT = 0"
  by (simp_all add: spinlock_lock_def spinlock_unlock_def SPINLOCK_INIT_def)

section \<open>Lists\<close>

text \<open>The last \<open>n\<close> elements: what a bounded log keeps.\<close>

definition last_n :: "nat \<Rightarrow> 'a list \<Rightarrow> 'a list" where
  "last_n n xs = drop (length xs - n) xs"

lemma last_n_short: "length xs \<le> n \<Longrightarrow> last_n n xs = xs"
  by (simp add: last_n_def)

lemma length_last_n: "length (last_n n xs) = min n (length xs)"
  by (simp add: last_n_def)

lemma last_n_append_last_n: "last_n n (last_n n xs @ ys) = last_n n (xs @ ys)"
proof (cases "length xs \<le> n")
  case False
  then show ?thesis by (simp add: last_n_def add.commute)
qed (simp add: last_n_short)

text \<open>A list cut into pieces of \<open>n\<close> elements, the last one possibly shorter.\<close>

function chunks :: "nat \<Rightarrow> 'a list \<Rightarrow> 'a list list" where
  "chunks n xs = (if xs = [] \<or> n = 0 then [] else take n xs # chunks n (drop n xs))"
  by pat_completeness auto
termination
  by (relation "measure (\<lambda>(n, xs). length xs)") auto

declare chunks.simps [simp del]

lemma chunks_Nil [simp]: "chunks n [] = []"
  by (simp add: chunks.simps)

lemma chunks_step: "xs \<noteq> [] \<Longrightarrow> 0 < n \<Longrightarrow> chunks n xs = take n xs # chunks n (drop n xs)"
  by (simp add: chunks.simps)

end
