(* ===== verification/Interfaces.thy ===== *)
theory Interfaces
  imports Prelude
begin

text \<open>
  The contracts between components, as locales: what a client may rely on, stated over an
  abstraction of the provider's state, and the client lemmas that follow from it. Each is
  interpreted in the theory of the component that provides it.
\<close>

section \<open>A bounded log\<close>

text \<open>
  A byte queue with a capacity: writing never fails and keeps the newest \<open>cap\<close> elements,
  reading takes the oldest ones. The provider is the ring buffer, the client the system log.
\<close>

locale bounded_log =
  fixes wr :: "'s \<Rightarrow> 'b list \<Rightarrow> 's result"
    and rd :: "'s \<Rightarrow> nat \<Rightarrow> ('s \<times> 'b list) result"
    and inv :: "'s \<Rightarrow> bool"
    and contents :: "'s \<Rightarrow> 'b list"
    and cap :: "'s \<Rightarrow> nat"
  assumes write_law: "inv s \<Longrightarrow> \<exists>s'. wr s bs = Inr s' \<and> inv s' \<and> cap s' = cap s \<and>
                        contents s' = last_n (cap s) (contents s @ bs)"
    and read_law: "inv s \<Longrightarrow> \<exists>s'. rd s n = Inr (s', take n (contents s)) \<and> inv s' \<and>
                        cap s' = cap s \<and> contents s' = drop n (contents s)"
    and cap_law: "inv s \<Longrightarrow> length (contents s) \<le> cap s"
begin

lemma write_Inr: "inv s \<Longrightarrow> \<exists>s'. wr s bs = Inr s'"
  using write_law by blast

lemma write_contents:
  "inv s \<Longrightarrow> wr s bs = Inr s' \<Longrightarrow> contents s' = last_n (cap s) (contents s @ bs)"
  using write_law[of s bs] by auto

lemma write_inv: "inv s \<Longrightarrow> wr s bs = Inr s' \<Longrightarrow> inv s' \<and> cap s' = cap s"
  using write_law[of s bs] by auto

text \<open>Two writes keep what one write of both pieces keeps.\<close>

lemma write_write:
  assumes "inv s"
  shows "\<exists>s'. bind_res (wr s as) (\<lambda>s1. wr s1 bs) = Inr s' \<and> inv s' \<and> cap s' = cap s \<and>
              contents s' = last_n (cap s) (contents s @ as @ bs)"
proof -
  obtain s1 where s1: "wr s as = Inr s1" "inv s1" "cap s1 = cap s"
    "contents s1 = last_n (cap s) (contents s @ as)"
    using write_law[OF assms] by blast
  obtain s2 where "wr s1 bs = Inr s2" "inv s2" "cap s2 = cap s1"
    "contents s2 = last_n (cap s1) (contents s1 @ bs)"
    using write_law[OF s1(2)] by blast
  with s1 show ?thesis by (simp add: last_n_append_last_n)
qed

text \<open>What fits and is written into an empty log is read back unchanged.\<close>

lemma write_read:
  assumes "inv s" "contents s = []" "length bs \<le> cap s"
  shows "\<exists>s1 s2. wr s bs = Inr s1 \<and> rd s1 (length bs) = Inr (s2, bs) \<and> contents s2 = []"
proof -
  obtain s1 where "wr s bs = Inr s1" "inv s1" "contents s1 = bs"
    using write_law[OF assms(1), of bs] assms(2,3) by (auto simp: last_n_short)
  moreover obtain s2 where "rd s1 (length bs) = Inr (s2, bs)" "contents s2 = []"
    using read_law[OF \<open>inv s1\<close>, of "length bs"] \<open>contents s1 = bs\<close> by auto
  ultimately show ?thesis by blast
qed

end

section \<open>A page allocator\<close>

text \<open>
  An allocator of ranges of 4 KiB frames: a successful allocation returns the address of a range
  of frames that were free and takes exactly these, a failed one (address 0) changes nothing, and
  releasing a range makes exactly its frames free.
\<close>

definition frames :: "u32 \<Rightarrow> nat \<Rightarrow> nat set" where
  "frames page n = {unat page div 4096 ..< unat page div 4096 + n}"

locale page_allocator =
  fixes alloc :: "'h \<Rightarrow> u32 \<Rightarrow> u32 \<times> 'h"
    and release :: "'h \<Rightarrow> u32 \<Rightarrow> u32 \<Rightarrow> 'h"
    and is_free :: "'h \<Rightarrow> nat \<Rightarrow> bool"
  assumes alloc_law: "alloc h n = (p, h') \<Longrightarrow> p \<noteq> 0 \<Longrightarrow>
      (\<forall>k \<in> frames p (unat n). k < 1048576 \<and> is_free h k) \<and>
      (\<forall>k. is_free h' k \<longleftrightarrow> is_free h k \<and> k \<notin> frames p (unat n))"
    and fail_law: "alloc h n = (0, h') \<Longrightarrow> h' = h"
    and release_law: "\<forall>k \<in> frames p (unat n). k < 1048576 \<Longrightarrow>
      is_free (release h p n) k \<longleftrightarrow> is_free h k \<or> k \<in> frames p (unat n)"
begin

text \<open>Two allocations that are both live share no frame.\<close>

lemma alloc_disjoint:
  assumes "alloc h n = (p, h1)" "alloc h1 m = (q, h2)" "p \<noteq> 0" "q \<noteq> 0"
  shows "frames p (unat n) \<inter> frames q (unat m) = {}"
  using alloc_law[OF assms(1,3)] alloc_law[OF assms(2,4)] by blast

text \<open>Releasing what was just allocated makes the same frames free as before.\<close>

lemma alloc_release:
  assumes "alloc h n = (p, h')" "p \<noteq> 0"
  shows "is_free (release h' p n) k \<longleftrightarrow> is_free h k"
  using alloc_law[OF assms] release_law[of p n h' k] by blast

text \<open>Releasing one range leaves a second live range allocated.\<close>

lemma release_keeps_other:
  assumes "alloc h n = (p, h1)" "alloc h1 m = (q, h2)" "p \<noteq> 0" "q \<noteq> 0" "k \<in> frames q (unat m)"
  shows "\<not> is_free (release h2 p n) k"
  using alloc_law[OF assms(1,3)] alloc_law[OF assms(2,4)] release_law[of p n h2 k] assms(5) by blast

end

section \<open>A growing sequence\<close>

text \<open>
  A container that represents a sequence and appends to it: the kernel list and the dynamic array.
  \<open>ok xs a\<close> says when \<open>a\<close> may be appended to \<open>xs\<close>.
\<close>

locale growing_sequence =
  fixes add :: "'s \<Rightarrow> 'a \<Rightarrow> 's result"
    and rep :: "'s \<Rightarrow> 'a list \<Rightarrow> bool"
    and ok :: "'a list \<Rightarrow> 'a \<Rightarrow> bool"
  assumes add_law: "rep s xs \<Longrightarrow> ok xs a \<Longrightarrow> \<exists>s'. add s a = Inr s' \<and> rep s' (xs @ [a])"
begin

text \<open>Appending the elements of a list one by one appends the list.\<close>

lemma add_all:
  assumes "rep s xs" "\<And>as a bs. ys = as @ a # bs \<Longrightarrow> ok (xs @ as) a"
  shows "\<exists>s'. fold_res add s ys = Inr s' \<and> rep s' (xs @ ys)"
  using assms
proof (induction ys arbitrary: s xs)
  case (Cons y ys)
  obtain s1 where s1: "add s y = Inr s1" "rep s1 (xs @ [y])"
    using add_law[OF Cons.prems(1), of y] Cons.prems(2)[of "[]" y ys] by auto
  have "ok ((xs @ [y]) @ as) a" if "ys = as @ a # bs" for as a bs
    using Cons.prems(2)[of "y # as" a bs] that by simp
  from Cons.IH[OF s1(2) this] s1(1) show ?case by simp
qed simp

end

section \<open>A map from keys to objects\<close>

text \<open>
  A map that never overwrites: putting an object under a key that is already mapped keeps the old
  object. \<open>none\<close> is the object of an unmapped key, \<open>room s a\<close> says that the memory \<open>a\<close> offered for
  a new entry can be used. The provider is the hash set.
\<close>

locale object_map =
  fixes get :: "'s \<Rightarrow> 'k \<Rightarrow> 'v result"
    and put :: "'a \<Rightarrow> 's \<Rightarrow> 'v \<Rightarrow> 'k \<Rightarrow> 's result"
    and del :: "'s \<Rightarrow> 'k \<Rightarrow> 's result"
    and inv :: "'s \<Rightarrow> bool"
    and same :: "'s \<Rightarrow> 'k \<Rightarrow> 'k \<Rightarrow> bool"
    and key :: "'k \<Rightarrow> bool"
    and room :: "'s \<Rightarrow> 'a \<Rightarrow> bool"
    and none :: 'v
  assumes put_law: "inv s \<Longrightarrow> key k \<Longrightarrow> v \<noteq> none \<Longrightarrow> room s a \<Longrightarrow>
      \<exists>s'. put a s v k = Inr s' \<and> inv s' \<and> same s' = same s \<and>
        (\<forall>j. key j \<longrightarrow> get s' j = (if same s k j \<and> get s k = Inr none then Inr v else get s j))"
    and del_law: "inv s \<Longrightarrow> key k \<Longrightarrow>
      \<exists>s'. del s k = Inr s' \<and> inv s' \<and> same s' = same s \<and>
        (\<forall>j. key j \<longrightarrow> get s' j = (if same s k j then Inr none else get s j))"
    and same_refl: "inv s \<Longrightarrow> key k \<Longrightarrow> same s k k"
    and same_get: "inv s \<Longrightarrow> key k \<Longrightarrow> key j \<Longrightarrow> same s k j \<Longrightarrow> get s j = get s k"
begin

text \<open>Putting under a free key and deleting the key again is the identity on all lookups.\<close>

lemma put_del:
  assumes "inv s" "key k" "v \<noteq> none" "room s a" "get s k = Inr none"
  shows "\<exists>s'. bind_res (put a s v k) (\<lambda>s. del s k) = Inr s' \<and> inv s' \<and> (\<forall>j. key j \<longrightarrow> get s' j = get s j)"
proof -
  obtain s1 where s1: "put a s v k = Inr s1" "inv s1" "same s1 = same s"
    "\<forall>j. key j \<longrightarrow> get s1 j = (if same s k j \<and> get s k = Inr none then Inr v else get s j)"
    using put_law[OF assms(1-4)] by blast
  obtain s2 where s2: "del s1 k = Inr s2" "inv s2"
    "\<forall>j. key j \<longrightarrow> get s2 j = (if same s k j then Inr none else get s1 j)"
    using del_law[OF s1(2) assms(2)] s1(3) by auto
  have "get s2 j = get s j" if "key j" for j
    using s1(4) s2(3) that same_get[OF assms(1,2) that] assms(5) by simp
  then show ?thesis using s1(1) s2(1,2) by auto
qed

text \<open>Deleting first makes a put overwrite.\<close>

lemma del_put_get:
  assumes "inv s" "key k" "v \<noteq> none" "\<And>s'. del s k = Inr s' \<Longrightarrow> room s' a"
  shows "\<exists>s'. bind_res (del s k) (\<lambda>s. put a s v k) = Inr s' \<and> inv s' \<and>
           (\<forall>j. key j \<longrightarrow> get s' j = (if same s k j then Inr v else get s j))"
proof -
  obtain s1 where s1: "del s k = Inr s1" "inv s1" "same s1 = same s"
    "\<forall>j. key j \<longrightarrow> get s1 j = (if same s k j then Inr none else get s j)"
    using del_law[OF assms(1,2)] by blast
  have "get s1 k = Inr none" using s1(4) assms(2) same_refl[OF assms(1,2)] by simp
  then obtain s2 where "put a s1 v k = Inr s2" "inv s2"
    "\<forall>j. key j \<longrightarrow> get s2 j = (if same s k j then Inr v else get s1 j)"
    using put_law[OF s1(2) assms(2,3) assms(4)[OF s1(1)]] s1(3) by auto
  with s1 show ?thesis by auto
qed

end

end
