(* ===== verification/Ringbuffer.thy ===== *)
theory Ringbuffer
  imports Prelude Interfaces
begin

text \<open>
  \<^verbatim>\<open>src/sys/container/ringbuffer.c\<close>: the byte ring that backs the kernel log. The pointers
  \<^verbatim>\<open>begin\<close>, \<^verbatim>\<open>end\<close> and \<^verbatim>\<open>bufferLimit\<close> are offsets from \<^verbatim>\<open>buffer\<close>; the block that
  \<^verbatim>\<open>buffer\<close> points to is the list \<open>rb_mem\<close>. The theory shows that the ring is a queue that
  keeps the newest \<^verbatim>\<open>size\<close> bytes.
\<close>

section \<open>Model\<close>

record ringbuffer =
  rb_mem :: "u8 list"
  rb_bufferLimit :: nat
  rb_begin :: nat
  rb_end :: nat
  rb_size :: u32
  rb_count :: u32

text \<open>
  The two allocations are arguments: \<open>ok\<close> says whether \<^verbatim>\<open>halloc\<close> returned a header,
  \<open>blk\<close> is the fresh block for the bytes, if there was one.
\<close>

definition ringbuffer_create :: "bool \<Rightarrow> u8 list option \<Rightarrow> u32 \<Rightarrow> ringbuffer option" where
  "ringbuffer_create ok blk sz =
     (case blk of
        None \<Rightarrow> None
      | Some buffer \<Rightarrow>
          if \<not> ok then None
          else Some \<lparr>rb_mem = buffer, rb_bufferLimit = unat sz, rb_begin = 0, rb_end = 0,
                     rb_size = sz, rb_count = 0\<rparr>)"

definition ringbuffer_cycle :: "nat \<Rightarrow> nat \<Rightarrow> nat \<Rightarrow> nat" where
  "ringbuffer_cycle val lower upper =
     (if val \<le> lower then upper else if val \<ge> upper then lower else val)"

text \<open>One turn of the loop of \<^verbatim>\<open>ringbuffer_write\<close>.\<close>

definition ringbuffer_put :: "ringbuffer \<Rightarrow> u8 \<Rightarrow> ringbuffer result" where
  "ringbuffer_put rb d =
     bind_res (write_cell (rb_mem rb) (rb_end rb) d) (\<lambda>mem.
       let end = ringbuffer_cycle (Suc (rb_end rb)) 0 (rb_bufferLimit rb);
           count = (if rb_count rb + 1 < rb_size rb then rb_count rb + 1 else rb_size rb);
           rb' = rb\<lparr>rb_mem := mem, rb_end := end, rb_count := count\<rparr>
       in Inr (if count = rb_size rb then rb'\<lparr>rb_begin := end\<rparr> else rb'))"

fun ringbuffer_write :: "ringbuffer \<Rightarrow> u8 list \<Rightarrow> ringbuffer result" where
  "ringbuffer_write rb [] = Inr rb"
| "ringbuffer_write rb (d # ds) = bind_res (ringbuffer_put rb d) (\<lambda>rb'. ringbuffer_write rb' ds)"

text \<open>
  The loop of \<^verbatim>\<open>ringbuffer_read\<close>; \<open>n\<close> is \<^verbatim>\<open>size - read\<close>, the bytes still wanted. The
  result is the new state and the bytes stored to the caller's buffer.
\<close>

fun ringbuffer_read :: "ringbuffer \<Rightarrow> nat \<Rightarrow> (ringbuffer \<times> u8 list) result" where
  "ringbuffer_read rb 0 = Inr (rb, [])"
| "ringbuffer_read rb (Suc n) =
     (if rb_count rb > 0 then
        bind_res (read_cell (rb_mem rb) (rb_begin rb)) (\<lambda>b.
        bind_res (ringbuffer_read
          (rb\<lparr>rb_begin := ringbuffer_cycle (Suc (rb_begin rb)) 0 (rb_bufferLimit rb),
              rb_count := rb_count rb - 1\<rparr>) n) (\<lambda>(rb', bs).
        Inr (rb', b # bs)))
      else Inr (rb, []))"

definition ringbuffer_length :: "ringbuffer \<Rightarrow> u32" where
  "ringbuffer_length rb = rb_count rb"

section \<open>Invariant and contents\<close>

definition rb_inv :: "ringbuffer \<Rightarrow> bool" where
  "rb_inv rb \<longleftrightarrow>
     0 < unat (rb_size rb) \<and> unat (rb_size rb) < 2 ^ 32 - 1 \<and>
     length (rb_mem rb) = unat (rb_size rb) \<and>
     rb_bufferLimit rb = unat (rb_size rb) \<and>
     rb_begin rb < unat (rb_size rb) \<and>
     unat (rb_count rb) \<le> unat (rb_size rb) \<and>
     rb_end rb = (rb_begin rb + unat (rb_count rb)) mod unat (rb_size rb)"

text \<open>The bytes a reader would see, oldest first.\<close>

definition rb_contents :: "ringbuffer \<Rightarrow> u8 list" where
  "rb_contents rb =
     map (\<lambda>i. rb_mem rb ! ((rb_begin rb + i) mod unat (rb_size rb))) [0..<unat (rb_count rb)]"

lemma length_rb_contents [simp]: "length (rb_contents rb) = unat (rb_count rb)"
  by (simp add: rb_contents_def)

lemma nth_rb_contents:
  "i < unat (rb_count rb) \<Longrightarrow>
     rb_contents rb ! i = rb_mem rb ! ((rb_begin rb + i) mod unat (rb_size rb))"
  by (simp add: rb_contents_def)

lemma ringbuffer_cycle_Suc:
  "p < s \<Longrightarrow> ringbuffer_cycle (Suc p) 0 s = Suc p mod s"
  by (cases "Suc p = s") (auto simp: ringbuffer_cycle_def)

lemma mod_offset_inj_le:
  fixes b i j s :: nat
  assumes "i \<le> j" and "j < s" and "(b + i) mod s = (b + j) mod s"
  shows "i = j"
proof -
  have "s dvd (b + j) - (b + i)"
    using assms(1,3) by (metis add_le_cancel_left mod_eq_dvd_iff_nat)
  then show ?thesis using assms(1,2) by (auto dest: dvd_imp_le)
qed

lemma mod_offset_inj:
  fixes b i j s :: nat
  assumes "i < s" and "j < s" and "(b + i) mod s = (b + j) mod s"
  shows "i = j"
  using assms mod_offset_inj_le[of i j s b] mod_offset_inj_le[of j i s b]
  by (cases "i \<le> j") auto

section \<open>One byte\<close>

lemma ringbuffer_put_room:
  assumes "rb_inv rb" and "rb_count rb < rb_size rb"
  shows "\<exists>rb'. ringbuffer_put rb d = Inr rb' \<and> rb_inv rb' \<and> rb_size rb' = rb_size rb \<and>
               rb_contents rb' = rb_contents rb @ [d]"
proof -
  let ?s = "unat (rb_size rb)" and ?c = "unat (rb_count rb)" and ?b = "rb_begin rb"
  have c: "?c < ?s" using assms(2) by (simp add: word_less_nat_alt)
  have e: "rb_end rb = (?b + ?c) mod ?s" and l: "length (rb_mem rb) = ?s"
    and lim: "rb_bufferLimit rb = ?s" and b: "?b < ?s" and "?s < 2 ^ 32 - 1"
    using assms(1) by (auto simp: rb_inv_def)
  have e_in: "rb_end rb < ?s" using e c by simp
  have suc: "unat (rb_count rb + 1) = Suc ?c"
    using assms(2) by (rule unat_Suc_no_wrap)
  let ?n = "if rb_count rb + 1 < rb_size rb then rb_count rb + 1 else rb_size rb"
  have n: "unat ?n = Suc ?c"
    using suc c by (auto simp: word_less_nat_alt)
  have end': "ringbuffer_cycle (Suc (rb_end rb)) 0 ?s = (?b + Suc ?c) mod ?s"
    using e e_in by (simp add: ringbuffer_cycle_Suc mod_Suc_eq)
  have full: "ringbuffer_cycle (Suc (rb_end rb)) 0 ?s = ?b" if "?n = rb_size rb"
  proof -
    have "Suc ?c = ?s" using that n by simp
    then show ?thesis using end' b by simp
  qed
  let ?rb = "rb\<lparr>rb_mem := (rb_mem rb)[rb_end rb := d],
                rb_end := ringbuffer_cycle (Suc (rb_end rb)) 0 ?s, rb_count := ?n\<rparr>"
  have put: "ringbuffer_put rb d = Inr ?rb"
    using e_in l lim full by (auto simp: ringbuffer_put_def Let_def)
  have inv: "rb_inv ?rb"
    using assms(1) n c end' by (auto simp: rb_inv_def)
  have "rb_contents ?rb = rb_contents rb @ [d]"
  proof (rule nth_equalityI)
    show "length (rb_contents ?rb) = length (rb_contents rb @ [d])" using n by simp
  next
    fix i assume "i < length (rb_contents ?rb)"
    then have i: "i < Suc ?c" using n by simp
    have "rb_contents ?rb ! i = (rb_mem rb)[rb_end rb := d] ! ((?b + i) mod ?s)"
      using i n by (subst nth_rb_contents) auto
    also have "\<dots> = (rb_contents rb @ [d]) ! i"
    proof (cases "i = ?c")
      case True
      then show ?thesis using e e_in l by (simp add: nth_append)
    next
      case False
      with i have "i < ?c" by simp
      then have "(?b + i) mod ?s \<noteq> rb_end rb"
        using mod_offset_inj[of i ?s ?c ?b] c e by auto
      then show ?thesis using \<open>i < ?c\<close> by (simp add: nth_append nth_rb_contents)
    qed
    finally show "rb_contents ?rb ! i = (rb_contents rb @ [d]) ! i" .
  qed
  with put inv show ?thesis by auto
qed

lemma ringbuffer_put_full:
  assumes "rb_inv rb" and "\<not> rb_count rb < rb_size rb"
  shows "\<exists>rb'. ringbuffer_put rb d = Inr rb' \<and> rb_inv rb' \<and> rb_size rb' = rb_size rb \<and>
               rb_contents rb' = tl (rb_contents rb) @ [d]"
proof -
  let ?s = "unat (rb_size rb)" and ?b = "rb_begin rb"
  have l: "length (rb_mem rb) = ?s" and lim: "rb_bufferLimit rb = ?s" and b: "?b < ?s"
    and pos: "0 < ?s" and big: "?s < 2 ^ 32 - 1" and ec: "rb_end rb = (?b + unat (rb_count rb)) mod ?s"
    and "unat (rb_count rb) \<le> ?s"
    using assms(1) by (auto simp: rb_inv_def)
  then have c: "rb_count rb = rb_size rb"
    using assms(2) by (simp add: word_less_nat_alt word_unat_eq_iff)
  have e: "rb_end rb = ?b" using ec c b by simp
  have no: "\<not> rb_size rb + 1 < rb_size rb"
  proof -
    have "unat (rb_size rb + 1) = Suc ?s"
      using big by (subst unat_add_lem[THEN iffD1]) auto
    then show ?thesis by (simp add: word_less_nat_alt)
  qed
  let ?e = "Suc ?b mod ?s"
  let ?rb = "rb\<lparr>rb_mem := (rb_mem rb)[?b := d], rb_end := ?e, rb_count := rb_size rb,
                rb_begin := ?e\<rparr>"
  have put: "ringbuffer_put rb d = Inr ?rb"
    using b l lim no e c by (simp add: ringbuffer_put_def Let_def ringbuffer_cycle_Suc)
  have inv: "rb_inv ?rb"
    using assms(1) pos by (auto simp: rb_inv_def)
  have "rb_contents ?rb = tl (rb_contents rb) @ [d]"
  proof (rule nth_equalityI)
    show "length (rb_contents ?rb) = length (tl (rb_contents rb) @ [d])" using c pos by simp
  next
    fix i assume "i < length (rb_contents ?rb)"
    then have i: "i < ?s" by simp
    have "rb_contents ?rb ! i = (rb_mem rb)[?b := d] ! ((?b + Suc i) mod ?s)"
      using i by (subst nth_rb_contents) (auto simp: mod_add_left_eq)
    also have "\<dots> = (tl (rb_contents rb) @ [d]) ! i"
    proof (cases "Suc i = ?s")
      case True
      then have "\<not> i < ?s - 1" and "i - (?s - 1) = 0" by auto
      with True show ?thesis using b l c by (simp add: nth_append)
    next
      case False
      with i have "Suc i < ?s" by simp
      then have "(?b + Suc i) mod ?s \<noteq> ?b"
        using mod_offset_inj[of "Suc i" ?s 0 ?b] b by auto
      then show ?thesis
        using \<open>Suc i < ?s\<close> c by (simp add: nth_append nth_tl nth_rb_contents less_diff_conv)
    qed
    finally show "rb_contents ?rb ! i = (tl (rb_contents rb) @ [d]) ! i" .
  qed
  with put inv show ?thesis by auto
qed

lemma ringbuffer_put_spec:
  assumes "rb_inv rb"
  shows "\<exists>rb'. ringbuffer_put rb d = Inr rb' \<and> rb_inv rb' \<and> rb_size rb' = rb_size rb \<and>
               rb_contents rb' = last_n (unat (rb_size rb)) (rb_contents rb @ [d])"
proof (cases "rb_count rb < rb_size rb")
  case True
  then have "Suc (unat (rb_count rb)) \<le> unat (rb_size rb)" by (simp add: word_less_nat_alt)
  with ringbuffer_put_room[OF assms True, of d] show ?thesis by (simp add: last_n_short)
next
  case False
  then have "unat (rb_count rb) = unat (rb_size rb)" "0 < unat (rb_size rb)"
    using assms by (auto simp: rb_inv_def word_less_nat_alt)
  then have "last_n (unat (rb_size rb)) (rb_contents rb @ [d]) = tl (rb_contents rb) @ [d]"
    by (cases "rb_contents rb") (auto simp: last_n_def simp flip: length_rb_contents)
  with ringbuffer_put_full[OF assms False, of d] show ?thesis by simp
qed

section \<open>Whole writes and reads\<close>

lemma ringbuffer_write_spec:
  assumes "rb_inv rb"
  shows "\<exists>rb'. ringbuffer_write rb ds = Inr rb' \<and> rb_inv rb' \<and> rb_size rb' = rb_size rb \<and>
               rb_contents rb' = last_n (unat (rb_size rb)) (rb_contents rb @ ds)"
  using assms
proof (induction ds arbitrary: rb)
  case Nil
  then show ?case by (auto simp: last_n_short rb_inv_def)
next
  case (Cons d ds)
  obtain rb1 where rb1: "ringbuffer_put rb d = Inr rb1" "rb_inv rb1" "rb_size rb1 = rb_size rb"
    "rb_contents rb1 = last_n (unat (rb_size rb)) (rb_contents rb @ [d])"
    using ringbuffer_put_spec[OF Cons.prems] by blast
  from Cons.IH[OF rb1(2)] rb1 show ?case
    by (auto simp: last_n_append_last_n)
qed

lemma ringbuffer_read_spec:
  assumes "rb_inv rb"
  shows "\<exists>rb'. ringbuffer_read rb n = Inr (rb', take n (rb_contents rb)) \<and> rb_inv rb' \<and>
               rb_size rb' = rb_size rb \<and> rb_contents rb' = drop n (rb_contents rb)"
  using assms
proof (induction n arbitrary: rb)
  case 0
  then show ?case by simp
next
  case (Suc n)
  let ?s = "unat (rb_size rb)" and ?b = "rb_begin rb" and ?c = "unat (rb_count rb)"
  show ?case
  proof (cases "rb_count rb > 0")
    case False
    then have "rb_count rb = 0" by (simp add: word_gt_0)
    then have "rb_contents rb = []" by (simp add: rb_contents_def)
    with False Suc.prems show ?thesis by simp
  next
    case True
    then obtain k where c: "?c = Suc k" by (metis gr0_implies_Suc unat_gt_0 word_gt_0)
    let ?rb = "rb\<lparr>rb_begin := Suc ?b mod ?s, rb_count := rb_count rb - 1\<rparr>"
    have c': "unat (rb_count rb - 1) = k" using unat_pred_pos[of "rb_count rb"] c by simp
    have b: "?b < ?s" "length (rb_mem rb) = ?s" "rb_bufferLimit rb = ?s"
      using Suc.prems by (auto simp: rb_inv_def)
    have inv: "rb_inv ?rb"
      using Suc.prems c c' by (auto simp: rb_inv_def mod_add_left_eq)
    have cont: "rb_contents rb = rb_mem rb ! ?b # rb_contents ?rb"
    proof (rule nth_equalityI)
      show "length (rb_contents rb) = length (rb_mem rb ! ?b # rb_contents ?rb)" using c c' by simp
    next
      fix i assume "i < length (rb_contents rb)"
      then show "rb_contents rb ! i = (rb_mem rb ! ?b # rb_contents ?rb) ! i"
        using b c c' by (cases i) (auto simp: nth_rb_contents mod_add_left_eq)
    qed
    from Suc.IH[OF inv] show ?thesis
      using True b by (auto simp: ringbuffer_cycle_Suc cont)
  qed
qed

lemma ringbuffer_create_spec:
  assumes "ringbuffer_create ok blk sz = Some rb" and "0 < sz" and "sz < UINT32_MAX"
    and "\<And>buffer. blk = Some buffer \<Longrightarrow> length buffer = unat sz"
  shows "rb_inv rb \<and> rb_contents rb = [] \<and> rb_size rb = sz"
proof -
  have "unat sz < 4294967295" using assms(3) by (simp add: word_less_nat_alt)
  with assms show ?thesis
    by (auto simp: ringbuffer_create_def rb_inv_def rb_contents_def unat_gt_0
        split: option.splits if_splits)
qed

section \<open>The ring buffer is a bounded log\<close>

interpretation rb: bounded_log ringbuffer_write ringbuffer_read rb_inv rb_contents
  "\<lambda>rb. unat (rb_size rb)"
proof unfold_locales
  show "\<exists>s'. ringbuffer_write s bs = Inr s' \<and> rb_inv s' \<and> unat (rb_size s') = unat (rb_size s) \<and>
          rb_contents s' = last_n (unat (rb_size s)) (rb_contents s @ bs)" if "rb_inv s" for s bs
    using ringbuffer_write_spec[OF that, of bs] by auto
  show "\<exists>s'. ringbuffer_read s n = Inr (s', take n (rb_contents s)) \<and> rb_inv s' \<and>
          unat (rb_size s') = unat (rb_size s) \<and> rb_contents s' = drop n (rb_contents s)"
    if "rb_inv s" for s n
    using ringbuffer_read_spec[OF that, of n] by auto
  show "length (rb_contents s) \<le> unat (rb_size s)" if "rb_inv s" for s
    using that by (simp add: rb_inv_def)
qed

section \<open>Properties\<close>

text \<open>
  C36. A write to a well-formed ring buffer never leaves the buffer: it returns, keeps the
  invariant, and afterwards the ring holds exactly the newest \<^verbatim>\<open>size\<close> bytes of what it held
  followed by what was written.
\<close>

theorem ringbuffer_write_keeps_newest:
  assumes "rb_inv rb"
  shows "\<exists>rb'. ringbuffer_write rb ds = Inr rb' \<and> rb_inv rb' \<and> rb_size rb' = rb_size rb \<and>
               rb_contents rb' = last_n (unat (rb_size rb)) (rb_contents rb @ ds)"
  using assms by (rule ringbuffer_write_spec)

definition rb_example :: ringbuffer where
  "rb_example = \<lparr>rb_mem = [1, 2, 3], rb_bufferLimit = 3, rb_begin = 1, rb_end = 0,
                 rb_size = 3, rb_count = 2\<rparr>"

lemma rb_example_inv: "rb_inv rb_example"
  by (simp add: rb_inv_def rb_example_def)

theorem ringbuffer_write_keeps_newest_witness:
  "rb_inv rb_example \<and> rb_contents rb_example = [2, 3] \<and>
   (\<exists>rb'. ringbuffer_write rb_example [7, 8] = Inr rb' \<and> rb_contents rb' = [3, 7, 8])"
proof -
  have c: "rb_contents rb_example = [2, 3]"
    by (simp add: rb_contents_def rb_example_def upt_rec)
  have s: "unat (rb_size rb_example) = 3" by (simp add: rb_example_def)
  show ?thesis
    using ringbuffer_write_keeps_newest[OF rb_example_inv, of "[7, 8]"] rb_example_inv c s
    by (auto simp: last_n_def)
qed

text \<open>
  C37. A read returns the oldest bytes in order, as many as were asked for and are there, and
  removes exactly those.
\<close>

theorem ringbuffer_read_takes_oldest:
  assumes "rb_inv rb"
  shows "\<exists>rb'. ringbuffer_read rb n = Inr (rb', take n (rb_contents rb)) \<and> rb_inv rb' \<and>
               rb_contents rb' = drop n (rb_contents rb) \<and>
               unat (ringbuffer_length rb') = unat (ringbuffer_length rb) - n"
  using rb.read_law[OF assms, of n]
  by (auto simp: ringbuffer_length_def simp flip: length_rb_contents)

theorem ringbuffer_read_takes_oldest_witness:
  "\<exists>rb'. ringbuffer_read rb_example 1 = Inr (rb', [2]) \<and> rb_contents rb' = [3]"
proof -
  have "rb_contents rb_example = [2, 3]"
    by (simp add: rb_contents_def rb_example_def upt_rec)
  then show ?thesis
    using ringbuffer_read_takes_oldest[OF rb_example_inv, of 1]
    by (auto simp del: ringbuffer_read.simps)
qed

end
