(* ===== verification/Video.thy ===== *)
theory Video
  imports Prelude
begin

text \<open>
  \<^verbatim>\<open>src/sys/system/video.c\<close>: the 80x25 text console at 0xB8000. The video memory is the list
  \<open>vd_mem\<close>; the cursor position sent to the CRT controller through \<^verbatim>\<open>outb\<close> is the log
  \<open>vd_ports\<close>. The theory shows which strings the console can print and that printing keeps
  the cursor on the screen and every access inside the video memory.
\<close>

section \<open>Model\<close>

type_synonym vd_color = u8

record video =
  vd_mem :: "u8 list"
  vd_cursorX :: u32
  vd_cursorY :: u32
  vd_foreground :: vd_color
  vd_background :: vd_color
  vd_ports :: "(u16 \<times> u8) list"

definition vd_width :: u32 where "vd_width = 80"

definition vd_height :: u32 where "vd_height = 25"

definition vd_color_lightGray :: vd_color where "vd_color_lightGray = 7"

definition vd_translateColor :: "vd_color \<Rightarrow> u8" where
  "vd_translateColor color = color + 16"

definition vd_setColorAt :: "video \<Rightarrow> u32 \<Rightarrow> u32 \<Rightarrow> bool \<Rightarrow> vd_color \<Rightarrow> video result" where
  "vd_setColorAt vd x y foreground color =
     (let index = (y * vd_width + x) * 2 in
      bind_res (read_cell (vd_mem vd) (unat (index + 1))) (\<lambda>c.
        let otherColor = (if foreground then drop_bit 4 c else c AND 0x0F);
            res = (if foreground then push_bit 4 otherColor OR (color AND 0x0F)
                   else push_bit 4 color OR (otherColor AND 0x0F))
        in bind_res (write_cell (vd_mem vd) (unat (index + 1)) res) (\<lambda>mem.
           Inr (vd\<lparr>vd_mem := mem\<rparr>))))"

definition vd_setCharacterAt :: "video \<Rightarrow> u32 \<Rightarrow> u32 \<Rightarrow> u8 \<Rightarrow> video result" where
  "vd_setCharacterAt vd x y character =
     (let index = (y * vd_width + x) * 2 in
      bind_res (write_cell (vd_mem vd) (unat index) character) (\<lambda>mem. Inr (vd\<lparr>vd_mem := mem\<rparr>)))"

definition vd_setCursor :: "video \<Rightarrow> u32 \<Rightarrow> u32 \<Rightarrow> video result" where
  "vd_setCursor vd x y =
     (let pos = ucast (y * vd_width + x) :: u16;
          ports = vd_ports vd @ [(0x3D4, 0x0F), (0x3D5, ucast (pos AND 0xFF)),
                                 (0x3D4, 0x0E), (0x3D5, ucast (drop_bit 8 pos AND 0xFF))]
      in vd_setColorAt (vd\<lparr>vd_cursorX := x, vd_cursorY := y, vd_ports := ports\<rparr>) x y True
           vd_color_lightGray)"

text \<open>
  \<^verbatim>\<open>__vd_scrollLine\<close> copies each line over the one above it, top to bottom, and blanks the
  last one. The line copies are disjoint, so the \<^verbatim>\<open>memcpy\<close> of a line is a splice.
\<close>

definition copy_line :: "u8 list \<Rightarrow> nat \<Rightarrow> u8 list" where
  "copy_line mem i =
     take (i * 160) mem @ take 160 (drop (Suc i * 160) mem) @ drop (Suc i * 160) mem"

definition vd_scrollLine :: "video \<Rightarrow> video result" where
  "vd_scrollLine vd =
     bind_res (check OutOfBounds (unat (vd_height * vd_width * 2) \<le> length (vd_mem vd))) (\<lambda>_.
       let mem = foldl copy_line (vd_mem vd) [0..<unat (vd_height - 1)];
           l = unat ((vd_height - 1) * vd_width * 2);
           mem' = take l mem @ replicate (unat (vd_width * 2)) 0 @ drop (l + unat (vd_width * 2)) mem
       in Inr (vd\<lparr>vd_mem := mem', vd_cursorY := vd_cursorY vd - 1\<rparr>))"

definition vd_clear :: "video \<Rightarrow> video result" where
  "vd_clear vd =
     (let n = unat (vd_width * vd_height * 2) in
      bind_res (check OutOfBounds (n \<le> length (vd_mem vd))) (\<lambda>_.
        vd_setCursor (vd\<lparr>vd_cursorX := 0, vd_cursorY := 0,
                         vd_mem := replicate n 0 @ drop n (vd_mem vd)\<rparr>) 0 0))"

primrec vd_scrollTimes :: "nat \<Rightarrow> video \<Rightarrow> video result" where
  "vd_scrollTimes 0 vd = Inr vd"
| "vd_scrollTimes (Suc n) vd = bind_res (vd_scrollLine vd) (vd_scrollTimes n)"

definition vd_scrollLines :: "video \<Rightarrow> u32 \<Rightarrow> video result" where
  "vd_scrollLines vd lines =
     bind_res (vd_scrollTimes (unat lines) vd) (\<lambda>vd'.
       vd_setCursor vd' (vd_cursorX vd') (vd_cursorY vd'))"

definition vd_setColor :: "video \<Rightarrow> vd_color \<Rightarrow> bool \<Rightarrow> video" where
  "vd_setColor vd color foreground =
     (if foreground then vd\<lparr>vd_foreground := color\<rparr> else vd\<lparr>vd_background := color\<rparr>)"

text \<open>The branch for a line feed, and the one for a printable character.\<close>

definition vd_newline :: "video \<Rightarrow> video result" where
  "vd_newline vd =
     (let vd' = vd\<lparr>vd_cursorX := 0, vd_cursorY := vd_cursorY vd + 1\<rparr> in
      if vd_cursorY vd' \<ge> vd_height then vd_scrollLine vd' else Inr vd')"

definition vd_putCharacter :: "video \<Rightarrow> u8 \<Rightarrow> video result" where
  "vd_putCharacter vd character =
     bind_res (vd_setCharacterAt vd (vd_cursorX vd) (vd_cursorY vd) character) (\<lambda>vd.
     bind_res (vd_setColorAt vd (vd_cursorX vd) (vd_cursorY vd) True (vd_foreground vd)) (\<lambda>vd.
     bind_res (vd_setColorAt vd (vd_cursorX vd) (vd_cursorY vd) False (vd_background vd)) (\<lambda>vd.
       let vd = vd\<lparr>vd_cursorX := vd_cursorX vd + 1\<rparr> in
       if vd_cursorX vd \<ge> vd_width then vd_newline vd else Inr vd)))"

text \<open>
  \<^verbatim>\<open>vd_writeString\<close>: the list is the memory from the string pointer on, and running off its
  end is a read out of bounds. \<^verbatim>\<open>char\<close> is signed, so \<^verbatim>\<open>character <= 31\<close> also holds for the
  bytes from 128 on. An escape (14 or 15) takes the next byte as its argument without looking
  whether that byte is the terminator.
\<close>

definition vd_applyEscape :: "video \<Rightarrow> bool \<Rightarrow> u8 \<Rightarrow> video" where
  "vd_applyEscape vd foreground character =
     (if sint character \<ge> 16 \<and> sint character \<le> 31 then vd_setColor vd (character - 16) foreground
      else vd)"

fun vd_writeString :: "video \<Rightarrow> u8 list \<Rightarrow> video result" where
  "vd_writeString vd [] = Inl OutOfBounds"
| "vd_writeString vd (c # cs) =
     (if c = 0 then vd_setCursor vd (vd_cursorX vd) (vd_cursorY vd)
      else if c = 10 then bind_res (vd_newline vd) (\<lambda>vd'. vd_writeString vd' cs)
      else if sint c \<le> 31 then
        (if c = 14 \<or> c = 15 then
           (case cs of [] \<Rightarrow> Inl OutOfBounds
            | d # ds \<Rightarrow> vd_writeString (vd_applyEscape vd (c = 14) d) ds)
         else vd_writeString vd cs)
      else bind_res (vd_putCharacter vd c) (\<lambda>vd'. vd_writeString vd' cs))"

section \<open>The cursor stays on the screen\<close>

definition vd_inv :: "video \<Rightarrow> bool" where
  "vd_inv vd \<longleftrightarrow> length (vd_mem vd) = 4000 \<and> vd_cursorX vd < 80 \<and> vd_cursorY vd < 25"

lemma cell_index:
  assumes "x < (80 :: u32)" and "y < (25 :: u32)"
  shows "unat ((y * vd_width + x) * 2) = (unat y * 80 + unat x) * 2"
    and "unat ((y * vd_width + x) * 2 + 1) = (unat y * 80 + unat x) * 2 + 1"
    and "(unat y * 80 + unat x) * 2 + 1 < 4000"
  using assms by (simp_all add: vd_width_def unat_word_ariths word_less_nat_alt)

lemma new_mem:
  "length m = 4000 \<Longrightarrow> \<exists>mem. vd\<lparr>vd_mem := m\<rparr> = vd\<lparr>vd_mem := mem\<rparr> \<and> length mem = 4000"
  by blast

lemma vd_setColorAt_ok:
  assumes "length (vd_mem vd) = 4000" "x < 80" "y < 25"
  shows "\<exists>mem. vd_setColorAt vd x y fg color = Inr (vd\<lparr>vd_mem := mem\<rparr>) \<and> length mem = 4000"
  using assms cell_index[OF assms(2,3)]
  by (cases fg) (simp add: vd_setColorAt_def Let_def, rule new_mem, simp)+

lemma vd_setCharacterAt_ok:
  assumes "length (vd_mem vd) = 4000" "x < 80" "y < 25"
  shows "\<exists>mem. vd_setCharacterAt vd x y c = Inr (vd\<lparr>vd_mem := mem\<rparr>) \<and> length mem = 4000"
  using assms cell_index[OF assms(2,3)]
  by (simp add: vd_setCharacterAt_def Let_def, intro new_mem) simp

lemma vd_setCursor_ok:
  assumes "length (vd_mem vd) = 4000" "x < 80" "y < 25"
  shows "\<exists>vd'. vd_setCursor vd x y = Inr vd' \<and> vd_inv vd'"
proof -
  obtain p where "vd_setCursor vd x y =
      vd_setColorAt (vd\<lparr>vd_cursorX := x, vd_cursorY := y, vd_ports := p\<rparr>) x y True vd_color_lightGray"
    by (simp add: vd_setCursor_def Let_def)
  then show ?thesis
    using vd_setColorAt_ok[of "vd\<lparr>vd_cursorX := x, vd_cursorY := y, vd_ports := p\<rparr>", OF _ assms(2,3)]
      assms by (fastforce simp: vd_inv_def)
qed

text \<open>Scrolling drops the first line and appends a blank one.\<close>

lemma foldl_copy_line:
  assumes "Suc n * 160 \<le> length mem"
  shows "foldl copy_line mem [0..<n] = take (n * 160) (drop 160 mem) @ drop (n * 160) mem"
  using assms
proof (induction n)
  case 0
  then show ?case by simp
next
  case (Suc n)
  let ?m = "take (n * 160) (drop 160 mem) @ drop (n * 160) mem"
  have ih: "foldl copy_line mem [0..<n] = ?m" using Suc by simp
  have l: "length (take (n * 160) (drop 160 mem)) = n * 160" using Suc.prems by simp
  have "foldl copy_line mem [0..<Suc n] = copy_line ?m n" using ih by simp
  also have "\<dots> = (take (n * 160) (drop 160 mem) @ take 160 (drop (160 + n * 160) mem)) @
                   drop (160 + n * 160) mem"
    using l by (simp add: copy_line_def add.commute)
  also have "take (n * 160) (drop 160 mem) @ take 160 (drop (160 + n * 160) mem) =
             take (n * 160 + 160) (drop 160 mem)"
    by (simp add: take_add add.commute[of 160])
  finally show ?case by (simp add: add.commute)
qed

lemma vd_scrollLine_ok:
  assumes "length (vd_mem vd) = 4000"
  shows "vd_scrollLine vd = Inr (vd\<lparr>vd_mem := drop 160 (vd_mem vd) @ replicate 160 0,
                                  vd_cursorY := vd_cursorY vd - 1\<rparr>)"
proof -
  have "foldl copy_line (vd_mem vd) [0..<24] = drop 160 (vd_mem vd) @ drop 3840 (vd_mem vd)"
    using foldl_copy_line[of 24 "vd_mem vd"] assms by simp
  then show ?thesis
    using assms by (simp add: vd_scrollLine_def vd_height_def vd_width_def Let_def)
qed

lemma vd_newline_ok:
  assumes "length (vd_mem vd) = 4000" "vd_cursorY vd < 25"
  shows "\<exists>vd'. vd_newline vd = Inr vd' \<and> vd_inv vd'"
proof -
  have "unat (vd_cursorY vd + 1) = Suc (unat (vd_cursorY vd))"
    using assms(2) by (rule unat_Suc_no_wrap)
  then have "vd_cursorY vd + 1 - 1 < 25" "vd_cursorY vd + 1 \<ge> 25 \<or> vd_cursorY vd + 1 < 25"
    using assms(2) by auto
  then show ?thesis
    using assms by (auto simp: vd_newline_def vd_scrollLine_ok vd_height_def vd_inv_def Let_def)
qed

lemma vd_putCharacter_ok:
  assumes "vd_inv vd"
  shows "\<exists>vd'. vd_putCharacter vd c = Inr vd' \<and> vd_inv vd'"
proof -
  have xy: "vd_cursorX vd < 80" "vd_cursorY vd < 25" and l: "length (vd_mem vd) = 4000"
    using assms by (auto simp: vd_inv_def)
  obtain m1 where m1: "vd_setCharacterAt vd (vd_cursorX vd) (vd_cursorY vd) c = Inr (vd\<lparr>vd_mem := m1\<rparr>)"
    "length m1 = 4000" using vd_setCharacterAt_ok[OF l xy] by blast
  obtain m2 where m2: "vd_setColorAt (vd\<lparr>vd_mem := m1\<rparr>) (vd_cursorX vd) (vd_cursorY vd) True
    (vd_foreground vd) = Inr (vd\<lparr>vd_mem := m2\<rparr>)" "length m2 = 4000"
    using vd_setColorAt_ok[of "vd\<lparr>vd_mem := m1\<rparr>", OF _ xy] m1(2) by auto
  obtain m3 where m3: "vd_setColorAt (vd\<lparr>vd_mem := m2\<rparr>) (vd_cursorX vd) (vd_cursorY vd) False
    (vd_background vd) = Inr (vd\<lparr>vd_mem := m3\<rparr>)" "length m3 = 4000"
    using vd_setColorAt_ok[of "vd\<lparr>vd_mem := m2\<rparr>", OF _ xy] m2(2) by auto
  let ?vd = "vd\<lparr>vd_mem := m3, vd_cursorX := vd_cursorX vd + 1\<rparr>"
  have "vd_putCharacter vd c = (if vd_cursorX vd + 1 \<ge> 80 then vd_newline ?vd else Inr ?vd)"
    using m1 m2 m3 by (simp add: vd_putCharacter_def Let_def vd_width_def)
  then show ?thesis
    using vd_newline_ok[of ?vd] m3(2) xy by (auto simp: vd_inv_def)
qed

section \<open>Which strings can be printed\<close>

text \<open>
  The terminator is reached: no escape takes it as its argument.
\<close>

fun terminated :: "u8 list \<Rightarrow> bool" where
  "terminated [] = False"
| "terminated (c # cs) =
     (c = 0 \<or> (if c = 14 \<or> c = 15 then (case cs of [] \<Rightarrow> False | _ # ds \<Rightarrow> terminated ds)
               else terminated cs))"

lemma vd_applyEscape_inv [simp]: "vd_inv (vd_applyEscape vd fg c) = vd_inv vd"
  by (simp add: vd_applyEscape_def vd_setColor_def vd_inv_def)

lemma vd_writeString_spec:
  assumes "vd_inv vd"
  shows "if terminated s then \<exists>vd'. vd_writeString vd s = Inr vd' \<and> vd_inv vd'
         else vd_writeString vd s = Inl OutOfBounds"
  using assms
proof (induction vd s rule: vd_writeString.induct)
  case (1 vd)
  then show ?case by simp
next
  case (2 vd c cs)
  consider "c = 0" | "c = 10" | (esc) "c = 14 \<or> c = 15"
    | (low) "c \<noteq> 0" "c \<noteq> 10" "c \<noteq> 14" "c \<noteq> 15" "sint c \<le> 31"
    | (char) "c \<noteq> 0" "c \<noteq> 10" "c \<noteq> 14" "c \<noteq> 15" "\<not> sint c \<le> 31"
    by blast
  then show ?case
  proof cases
    case 1
    then show ?thesis using vd_setCursor_ok[of vd] "2.prems" by (auto simp: vd_inv_def)
  next
    case c: 2
    obtain vd' where "vd_newline vd = Inr vd'" "vd_inv vd'"
      using vd_newline_ok[of vd] "2.prems" by (auto simp: vd_inv_def)
    with "2.IH"(1)[of vd'] c show ?thesis by auto
  next
    case esc
    show ?thesis
    proof (cases cs)
      case Nil
      with esc show ?thesis by auto
    next
      case (Cons d ds)
      with "2.IH"(2)[of d ds] esc "2.prems" show ?thesis by auto
    qed
  next
    case low
    with "2.IH"(3) "2.prems" show ?thesis by simp
  next
    case char
    obtain vd' where "vd_putCharacter vd c = Inr vd'" "vd_inv vd'"
      using vd_putCharacter_ok[OF "2.prems"] by blast
    with "2.IH"(4)[of vd'] char show ?thesis by simp
  qed
qed

lemma terminated_plain:
  "(\<And>c. c \<in> set cs \<Longrightarrow> c \<noteq> 0 \<and> c \<noteq> 14 \<and> c \<noteq> 15) \<Longrightarrow> terminated (cs @ ds) = terminated ds"
  by (induction cs) auto

text \<open>
  C38. From a cursor on the screen, \<^verbatim>\<open>vd_writeString\<close> succeeds exactly on the strings whose
  terminator is not taken as an escape's argument: then every access is inside the video
  memory and the cursor stays on the screen; otherwise it reads past the end of the string.
\<close>

theorem vd_writeString_in_bounds:
  assumes "vd_inv vd"
  shows "(terminated s \<longrightarrow> (\<exists>vd'. vd_writeString vd s = Inr vd' \<and> vd_inv vd')) \<and>
         (\<not> terminated s \<longrightarrow> vd_writeString vd s = Inl OutOfBounds)"
  using vd_writeString_spec[OF assms, of s] by (simp split: if_splits)

definition vd_blank :: video where
  "vd_blank = \<lparr>vd_mem = replicate 4000 0, vd_cursorX = 79, vd_cursorY = 24,
               vd_foreground = 15, vd_background = 0, vd_ports = []\<rparr>"

theorem vd_writeString_in_bounds_witness:
  "(\<exists>vd'. vd_writeString vd_blank [65, 10, 14, 20, 66, 0] = Inr vd' \<and> vd_inv vd') \<and>
   vd_writeString vd_blank [65, 14, 0] = Inl OutOfBounds"
proof -
  have i: "vd_inv vd_blank" by (simp add: vd_inv_def vd_blank_def)
  have "terminated [65, 10, 14, 20, 66, 0]" "\<not> terminated [65, 14, 0]" by simp_all
  then show ?thesis
    using vd_writeString_in_bounds[OF i] by blast
qed

end
