(* ===== verification/Syslogd.thy ===== *)
theory Syslogd
  imports Ringbuffer Video
begin

text \<open>
  \<^verbatim>\<open>src/sys/kerneld/syslogd.c\<close>: the kernel's log daemon, the client of the ring buffer and
  of the console. Messages are queued in the ring with a colour escape in front and printed in
  chunks of at most 255 bytes. The theory shows what is queued, that flushing empties the ring
  and prints its bytes, that the forced flush cannot deadlock, and that a chunk boundary inside
  a colour escape makes the console read past the chunk.
\<close>

section \<open>Log levels\<close>

datatype syslog_level = LOG_ALERT | LOG_CRITICAL | LOG_ERROR | LOG_WARNING | LOG_INFO | LOG_DEBUG

fun level_num :: "syslog_level \<Rightarrow> nat" where
  "level_num LOG_ALERT = 0"
| "level_num LOG_CRITICAL = 1"
| "level_num LOG_ERROR = 2"
| "level_num LOG_WARNING = 3"
| "level_num LOG_INFO = 4"
| "level_num LOG_DEBUG = 5"

lemma level_num_inject: "level_num a = level_num b \<longleftrightarrow> a = b"
  by (cases a; cases b) simp_all

instantiation syslog_level :: linorder
begin

definition less_eq_syslog_level :: "syslog_level \<Rightarrow> syslog_level \<Rightarrow> bool" where
  "less_eq_syslog_level a b \<longleftrightarrow> level_num a \<le> level_num b"

definition less_syslog_level :: "syslog_level \<Rightarrow> syslog_level \<Rightarrow> bool" where
  "less_syslog_level a b \<longleftrightarrow> level_num a < level_num b"

instance
  by standard
    (auto simp: less_eq_syslog_level_def less_syslog_level_def simp flip: level_num_inject)

end

fun syslog_color :: "syslog_level \<Rightarrow> vd_color" where
  "syslog_color LOG_ALERT = 0x4"
| "syslog_color LOG_CRITICAL = 0xC"
| "syslog_color LOG_ERROR = 0x6"
| "syslog_color LOG_WARNING = 0xE"
| "syslog_color LOG_INFO = 0x7"
| "syslog_color LOG_DEBUG = 0x9"

section \<open>Model\<close>

text \<open>
  The static variables of the file and the console it prints to. \<open>sl_lock\<close> is the spinlock:
  taking it while it is held never returns, as there is no one to release it while the caller
  spins. A message is the bytes before its terminator.
\<close>

record syslogd =
  sl_lock :: bool
  sl_buffer :: ringbuffer
  sl_running :: bool
  sl_level :: syslog_level
  sl_video :: video

definition syslogd_acquire :: "syslogd \<Rightarrow> syslogd result" where
  "syslogd_acquire sl = (if sl_lock sl then Inl Diverges else Inr (sl\<lparr>sl_lock := True\<rparr>))"

definition syslogd_release :: "syslogd \<Rightarrow> syslogd" where
  "syslogd_release sl = sl\<lparr>sl_lock := False\<rparr>"

definition syslogd_queueMessage :: "syslogd \<Rightarrow> syslog_level \<Rightarrow> u8 list \<Rightarrow> syslogd result" where
  "syslogd_queueMessage sl level message =
     (if level > sl_level sl then Inr sl
      else bind_res (syslogd_acquire sl) (\<lambda>sl.
        if \<not> sl_running sl then
          bind_res (vd_writeString (vd_setColor (sl_video sl) (syslog_color level) True)
                      (message @ [0])) (\<lambda>vd.
          Inr (syslogd_release (sl\<lparr>sl_video := vd\<rparr>)))
        else
          bind_res (ringbuffer_write (sl_buffer sl)
                      [14, vd_translateColor (syslog_color level)]) (\<lambda>rb.
          bind_res (ringbuffer_write rb message) (\<lambda>rb.
          Inr (syslogd_release (sl\<lparr>sl_buffer := rb\<rparr>))))))"

definition syslogd_setLogLevel :: "syslogd \<Rightarrow> syslog_level \<Rightarrow> syslogd" where
  "syslogd_setLogLevel sl level = sl\<lparr>sl_level := level\<rparr>"

lemma ringbuffer_read_count:
  "ringbuffer_read rb n = Inr (rb', bs) \<Longrightarrow> unat (rb_count rb') = unat (rb_count rb) - n"
proof (induction n arbitrary: rb rb' bs)
  case (Suc n)
  show ?case
  proof (cases "rb_count rb > 0")
    case True
    then have "unat (rb_count rb - 1) = unat (rb_count rb) - 1"
      by (metis unat_pred_pos unat_gt_0 word_gt_0)
    with True Suc.prems show ?thesis
      by (auto simp: bind_res_Inr_iff dest!: Suc.IH)
  next
    case False
    then have "rb_count rb = 0" by (simp add: word_gt_0)
    with Suc.prems show ?thesis by auto
  qed
qed simp

text \<open>
  The loop of \<^verbatim>\<open>__syslogd_flush\<close>: a chunk of at most 255 bytes, a terminator after it, and
  a call of the console. The bytes of the local array behind the terminator are indeterminate,
  so reading them is a fault. Each turn takes a byte from the ring, so the loop ends.
\<close>

function syslogd_flushLoop :: "ringbuffer \<Rightarrow> video \<Rightarrow> (ringbuffer \<times> video) result" where
  "syslogd_flushLoop rb vd =
     (if ringbuffer_length rb > 0 then
        (case ringbuffer_read rb 255 of
           Inl e \<Rightarrow> Inl e
         | Inr (rb', bs) \<Rightarrow>
             (case vd_writeString vd (bs @ [0]) of
                Inl e \<Rightarrow> Inl e
              | Inr vd' \<Rightarrow> syslogd_flushLoop rb' vd'))
      else Inr (rb, vd))"
  by pat_completeness auto
termination
  by (relation "measure (\<lambda>(rb, vd). unat (rb_count rb))")
    (auto dest!: ringbuffer_read_count simp: ringbuffer_length_def word_gt_0 unat_gt_0)

declare syslogd_flushLoop.simps [simp del]

definition syslogd_flush :: "syslogd \<Rightarrow> syslogd result" where
  "syslogd_flush sl =
     (if \<not> sl_running sl then Inr sl
      else bind_res (syslogd_acquire sl) (\<lambda>sl.
           bind_res (syslogd_flushLoop (sl_buffer sl) (sl_video sl)) (\<lambda>(rb, vd).
           Inr (syslogd_release (sl\<lparr>sl_buffer := rb, sl_video := vd\<rparr>)))))"

definition syslogd_forceFlush :: "syslogd \<Rightarrow> syslogd result" where
  "syslogd_forceFlush sl =
     (if \<not> sl_running sl then Inr sl
      else bind_res (syslogd_flush (syslogd_release sl)) (\<lambda>sl. Inr (sl\<lparr>sl_running := False\<rparr>)))"

text \<open>
  The daemon's start: \<open>ok\<close> and \<open>blk\<close> are the allocations of \<^verbatim>\<open>ringbuffer_create\<close>. Its
  loop then calls \<^const>\<open>syslogd_flush\<close> between yields.
\<close>

definition syslogd_start :: "bool \<Rightarrow> u8 list option \<Rightarrow> syslogd \<Rightarrow> syslogd result" where
  "syslogd_start ok blk sl =
     (case ringbuffer_create ok blk (80 * 25) of
        None \<Rightarrow> Inl KernelPanic
      | Some rb \<Rightarrow>
          bind_res (syslogd_acquire (sl\<lparr>sl_buffer := rb\<rparr>)) (\<lambda>sl.
          Inr (syslogd_release (sl\<lparr>sl_running := True\<rparr>))))"

section \<open>Queueing and flushing\<close>

definition sl_inv :: "syslogd \<Rightarrow> bool" where
  "sl_inv sl \<longleftrightarrow> rb_inv (sl_buffer sl) \<and> vd_inv (sl_video sl)"

abbreviation (input) sl_contents :: "syslogd \<Rightarrow> u8 list" where
  "sl_contents sl \<equiv> rb_contents (sl_buffer sl)"

definition sl_printable :: "u8 list \<Rightarrow> bool" where
  "sl_printable bs \<longleftrightarrow> list_all (\<lambda>c. terminated (c @ [0])) (chunks 255 bs)"

lemma ringbuffer_length_pos: "ringbuffer_length rb > 0 \<longleftrightarrow> rb_contents rb \<noteq> []"
  by (metis length_0_conv length_rb_contents ringbuffer_length_def unat_eq_0 word_gt_0)

lemma syslogd_flushLoop_spec:
  assumes "rb_inv rb" "vd_inv vd"
  shows "if sl_printable (rb_contents rb)
         then \<exists>rb' vd'. syslogd_flushLoop rb vd = Inr (rb', vd') \<and> rb_inv rb' \<and> vd_inv vd' \<and>
                rb_size rb' = rb_size rb \<and> rb_contents rb' = []
         else syslogd_flushLoop rb vd = Inl OutOfBounds"
  using assms
proof (induction rb vd rule: syslogd_flushLoop.induct)
  case (1 rb vd)
  show ?case
  proof (cases "ringbuffer_length rb > 0")
    case False
    then show ?thesis
      using "1.prems" by (simp add: ringbuffer_length_pos sl_printable_def syslogd_flushLoop.simps)
  next
    case True
    obtain rb1 where rb1: "ringbuffer_read rb 255 = Inr (rb1, take 255 (rb_contents rb))"
      "rb_inv rb1" "rb_size rb1 = rb_size rb" "rb_contents rb1 = drop 255 (rb_contents rb)"
      using ringbuffer_read_spec[OF "1.prems"(1)] by blast
    let ?c = "take 255 (rb_contents rb) @ [0]"
    have pr: "sl_printable (rb_contents rb) \<longleftrightarrow> terminated ?c \<and> sl_printable (rb_contents rb1)"
      using True rb1(4) by (simp add: sl_printable_def ringbuffer_length_pos chunks_step)
    show ?thesis
    proof (cases "terminated ?c")
      case False
      then have "vd_writeString vd ?c = Inl OutOfBounds"
        using vd_writeString_spec[OF "1.prems"(2), of ?c] by simp
      with True rb1 pr False show ?thesis by (simp add: syslogd_flushLoop.simps[of rb vd])
    next
      case t: True
      then obtain vd1 where vd1: "vd_writeString vd ?c = Inr vd1" "vd_inv vd1"
        using vd_writeString_spec[OF "1.prems"(2), of ?c] by auto
      have "syslogd_flushLoop rb vd = syslogd_flushLoop rb1 vd1"
        using True rb1(1) vd1(1) by (simp add: syslogd_flushLoop.simps[of rb vd])
      with "1.IH"[OF True rb1(1) refl vd1(1) rb1(2) vd1(2)] pr t rb1(3) show ?thesis
        by (auto split: if_splits)
    qed
  qed
qed

lemma syslogd_queueMessage_running:
  assumes "sl_inv sl" "\<not> sl_lock sl" "sl_running sl" "level \<le> sl_level sl"
  shows "\<exists>sl'. syslogd_queueMessage sl level message = Inr sl' \<and> sl_inv sl' \<and> \<not> sl_lock sl' \<and>
           sl_running sl' \<and> sl_level sl' = sl_level sl \<and> sl_video sl' = sl_video sl \<and>
           rb_size (sl_buffer sl') = rb_size (sl_buffer sl) \<and>
           sl_contents sl' = last_n (unat (rb_size (sl_buffer sl)))
             (sl_contents sl @ [14, vd_translateColor (syslog_color level)] @ message)"
proof -
  have "rb_inv (sl_buffer sl)" using assms(1) by (simp add: sl_inv_def)
  from rb.write_write[OF this, of "[14, vd_translateColor (syslog_color level)]" message]
  obtain rb where w: "bind_res (ringbuffer_write (sl_buffer sl)
        [14, vd_translateColor (syslog_color level)]) (\<lambda>rb. ringbuffer_write rb message) = Inr rb"
    "rb_inv rb" "rb_size rb = rb_size (sl_buffer sl)"
    "rb_contents rb = last_n (unat (rb_size (sl_buffer sl)))
       (sl_contents sl @ [14, vd_translateColor (syslog_color level)] @ message)"
    by (auto simp: word_unat_eq_iff[symmetric] simp del: ringbuffer_write.simps)
  let ?sl = "sl\<lparr>sl_buffer := rb, sl_lock := False\<rparr>"
  have "syslogd_queueMessage sl level message = Inr ?sl"
    using assms w(1)
    by (auto simp: syslogd_queueMessage_def syslogd_acquire_def syslogd_release_def bind_res_Inr_iff
        simp del: ringbuffer_write.simps)
  with w assms show ?thesis by (auto simp: sl_inv_def)
qed

lemma syslogd_flush_spec:
  assumes "sl_inv sl" "\<not> sl_lock sl" "sl_running sl"
  shows "if sl_printable (sl_contents sl)
         then \<exists>sl'. syslogd_flush sl = Inr sl' \<and> sl_inv sl' \<and> \<not> sl_lock sl' \<and> sl_running sl' \<and>
                sl_level sl' = sl_level sl \<and> sl_contents sl' = []
         else syslogd_flush sl = Inl OutOfBounds"
  using syslogd_flushLoop_spec[of "sl_buffer sl" "sl_video sl"] assms
  by (auto simp: sl_inv_def syslogd_flush_def syslogd_acquire_def syslogd_release_def
      split: if_splits)

section \<open>Properties\<close>

text \<open>
  Once the daemon runs, queueing a message at or above the log level always succeeds,
  appends the colour escape and the message to the log, of which the newest bytes that fit are
  kept, prints nothing and leaves the lock free; a message below the level changes nothing.
\<close>

theorem syslogd_queueMessage_appends:
  assumes "sl_inv sl" "\<not> sl_lock sl" "sl_running sl"
  shows "(level > sl_level sl \<longrightarrow> syslogd_queueMessage sl level message = Inr sl) \<and>
         (level \<le> sl_level sl \<longrightarrow>
            (\<exists>sl'. syslogd_queueMessage sl level message = Inr sl' \<and> sl_inv sl' \<and> \<not> sl_lock sl' \<and>
               sl_video sl' = sl_video sl \<and>
               sl_contents sl' = last_n (unat (rb_size (sl_buffer sl)))
                 (sl_contents sl @ [14, vd_translateColor (syslog_color level)] @ message)))"
proof (cases "level \<le> sl_level sl")
  case True
  then show ?thesis using syslogd_queueMessage_running[OF assms True, of message] by auto
next
  case False
  then show ?thesis by (simp add: syslogd_queueMessage_def)
qed

definition sl_example :: syslogd where
  "sl_example = \<lparr>sl_lock = False,
     sl_buffer = \<lparr>rb_mem = replicate 2000 0, rb_bufferLimit = 2000, rb_begin = 0, rb_end = 0,
                  rb_size = 2000, rb_count = 0\<rparr>,
     sl_running = True, sl_level = LOG_WARNING,
     sl_video = \<lparr>vd_mem = replicate 4000 0, vd_cursorX = 0, vd_cursorY = 0,
                 vd_foreground = 15, vd_background = 0, vd_ports = []\<rparr>\<rparr>"

lemma sl_example_facts:
  "sl_inv sl_example" "\<not> sl_lock sl_example" "sl_running sl_example"
  "sl_level sl_example = LOG_WARNING" "sl_contents sl_example = []"
  "rb_size (sl_buffer sl_example) = 2000"
  by (simp_all add: sl_example_def sl_inv_def rb_inv_def vd_inv_def rb_contents_def)

theorem syslogd_queueMessage_appends_witness:
  "\<exists>sl'. syslogd_queueMessage sl_example LOG_ERROR [72, 105] = Inr sl' \<and>
         sl_contents sl' = [14, 22, 72, 105]"
proof -
  have "LOG_ERROR \<le> sl_level sl_example"
    by (simp add: sl_example_facts less_eq_syslog_level_def)
  then show ?thesis
    using syslogd_queueMessage_appends[OF sl_example_facts(1-3), of LOG_ERROR "[72, 105]"]
    by (auto simp: sl_example_facts last_n_def vd_translateColor_def)
qed

text \<open>
  C39. Flushing a running daemon's log empties it and leaves the lock free if no chunk of 255
  bytes ends inside a colour escape, and reads past the chunk buffer otherwise.
\<close>

theorem syslogd_flush_empties:
  assumes "sl_inv sl" "\<not> sl_lock sl" "sl_running sl"
  shows "(sl_printable (sl_contents sl) \<longrightarrow>
            (\<exists>sl'. syslogd_flush sl = Inr sl' \<and> sl_inv sl' \<and> \<not> sl_lock sl' \<and> sl_contents sl' = [])) \<and>
         (\<not> sl_printable (sl_contents sl) \<longrightarrow> syslogd_flush sl = Inl OutOfBounds)"
  using syslogd_flush_spec[OF assms] by (auto split: if_splits)

theorem syslogd_flush_empties_witness:
  "\<exists>sl'. syslogd_flush sl_example = Inr sl' \<and> sl_contents sl' = []"
proof -
  have "sl_printable (sl_contents sl_example)"
    by (simp add: sl_example_facts sl_printable_def)
  then show ?thesis using syslogd_flush_empties[OF sl_example_facts(1-3)] by blast
qed

text \<open>
  A message of 252 plain bytes followed by any other message puts the second colour escape
  across the chunk boundary: flushing the two then reads past the chunk buffer.
\<close>

theorem syslogd_flush_split_escape:
  assumes "sl_inv sl" "\<not> sl_lock sl" "sl_running sl" "sl_contents sl = []"
    and "level \<le> sl_level sl" "unat (rb_size (sl_buffer sl)) \<ge> 256 + length m2"
    and "length m1 = 252" "\<forall>c \<in> set m1. c \<noteq> 0 \<and> c \<noteq> 14 \<and> c \<noteq> 15"
  shows "bind_res (syslogd_queueMessage sl level m1) (\<lambda>sl.
         bind_res (syslogd_queueMessage sl level m2) syslogd_flush) = Inl OutOfBounds"
proof -
  let ?esc = "[14, vd_translateColor (syslog_color level)]"
  obtain sl1 where sl1: "syslogd_queueMessage sl level m1 = Inr sl1" "sl_inv sl1" "\<not> sl_lock sl1"
    "sl_running sl1" "sl_level sl1 = sl_level sl" "sl_contents sl1 = ?esc @ m1"
    "rb_size (sl_buffer sl1) = rb_size (sl_buffer sl)"
    using syslogd_queueMessage_running[OF assms(1-3,5), of m1] assms(4,6,7)
    by (auto simp: last_n_short)
  obtain sl2 where sl2: "syslogd_queueMessage sl1 level m2 = Inr sl2" "sl_inv sl2" "\<not> sl_lock sl2"
    "sl_running sl2" "sl_contents sl2 = (?esc @ m1 @ [14]) @ tl ?esc @ m2"
    using syslogd_queueMessage_running[OF sl1(2-4), of level m2] sl1(5-7) assms(5-7)
    by (auto simp: last_n_short)
  have "\<not> terminated ((?esc @ m1 @ [14]) @ [0])"
    using assms(8) by (simp add: terminated_plain)
  moreover have "take 255 (sl_contents sl2) = ?esc @ m1 @ [14]"
    using sl2(5) assms(7) by simp
  ultimately have "\<not> sl_printable (sl_contents sl2)"
    using sl2(5) by (simp add: sl_printable_def chunks_step)
  then show ?thesis
    using syslogd_flush_spec[OF sl2(2-4)] sl1(1) sl2(1) by simp
qed

theorem syslogd_flush_split_escape_witness:
  "bind_res (syslogd_queueMessage sl_example LOG_ERROR (replicate 252 65)) (\<lambda>sl.
   bind_res (syslogd_queueMessage sl LOG_ERROR [66]) syslogd_flush) = Inl OutOfBounds"
proof -
  have "LOG_ERROR \<le> sl_level sl_example"
    by (simp add: sl_example_facts less_eq_syslog_level_def)
  then show ?thesis
    using syslogd_flush_split_escape[OF sl_example_facts(1-3,5), of LOG_ERROR "[66]" "replicate 252 65"]
    by (simp add: sl_example_facts)
qed

text \<open>
  The forced flush of the panic path does not need the lock: whether or not an interrupted
  owner holds it, a printable log is printed and emptied, and the daemon counts as stopped.
\<close>

theorem syslogd_forceFlush_ignores_lock:
  assumes "sl_inv sl" "sl_running sl" "sl_printable (sl_contents sl)"
  shows "\<exists>sl'. syslogd_forceFlush sl = Inr sl' \<and> \<not> sl_running sl' \<and> \<not> sl_lock sl' \<and>
               sl_contents sl' = []"
  using syslogd_flush_spec[of "syslogd_release sl"] assms
  by (auto simp: syslogd_forceFlush_def syslogd_release_def sl_inv_def)

theorem syslogd_forceFlush_ignores_lock_witness:
  "\<exists>sl'. syslogd_forceFlush (sl_example\<lparr>sl_lock := True\<rparr>) = Inr sl' \<and> sl_contents sl' = []"
proof -
  have "sl_inv (sl_example\<lparr>sl_lock := True\<rparr>)" "sl_running (sl_example\<lparr>sl_lock := True\<rparr>)"
    "sl_printable (sl_contents (sl_example\<lparr>sl_lock := True\<rparr>))"
    using sl_example_facts by (simp_all add: sl_inv_def sl_printable_def)
  then show ?thesis using syslogd_forceFlush_ignores_lock by blast
qed

end
