(* ===== verification/PMemory.thy ===== *)
theory PMemory
  imports Prelude Interfaces
begin

text \<open>
  \<^verbatim>\<open>src/sys/memory/pmemory.c\<close>: the physical page allocator, a bitmap with one bit per 4 KiB
  frame of the 32-bit physical address space (bit set: frame free). The theory shows that the
  word-wise search of the bitmap is a first-fit search over single frames, that allocation and
  release change exactly the frames of the range, and what booting leaves reserved.
\<close>

section \<open>Model\<close>

text \<open>
  The static array \<^verbatim>\<open>__pm_heap\<close> of \<^verbatim>\<open>PM_HEAPSIZE\<close> words. Its index is always a frame
  number divided by 32, and a 32-bit address has fewer than \<open>32 * 32768\<close> frames, so no access
  leaves the array (\<open>pm_index_bound\<close> below).
\<close>

type_synonym pm_bitmap = "nat \<Rightarrow> u32"

definition PM_HEAPSIZE :: u32 where "PM_HEAPSIZE = 32768"

definition PM_PAGE_SIZE :: u32 where "PM_PAGE_SIZE = 0x1000"

definition VM_PAGE_ALIGN_DOWN :: "u32 \<Rightarrow> u32" where
  "VM_PAGE_ALIGN_DOWN x = x AND NOT 0xFFF"

definition VM_PAGE_ALIGN_UP :: "u32 \<Rightarrow> u32" where
  "VM_PAGE_ALIGN_UP x = VM_PAGE_ALIGN_DOWN (x + 0xFFF)"

definition VM_PAGE_COUNT :: "u32 \<Rightarrow> u32" where
  "VM_PAGE_COUNT x = ((x + 0xFFF) AND NOT 0xFFF) div 0x1000"

text \<open>The flags of page table entries, from \<^verbatim>\<open>src/sys/memory/vmemory.h\<close>.\<close>

definition VM_PAGETABLEFLAG_PRESENT :: u32 where "VM_PAGETABLEFLAG_PRESENT = 1"

definition VM_PAGETABLEFLAG_WRITEABLE :: u32 where "VM_PAGETABLEFLAG_WRITEABLE = 2"

definition VM_PAGETABLEFLAG_USERSPACE :: u32 where "VM_PAGETABLEFLAG_USERSPACE = 4"

definition VM_FLAGS_KERNEL :: u32 where
  "VM_FLAGS_KERNEL = VM_PAGETABLEFLAG_PRESENT OR VM_PAGETABLEFLAG_WRITEABLE"

definition VM_FLAGS_USERLAND :: u32 where
  "VM_FLAGS_USERLAND = VM_PAGETABLEFLAG_PRESENT OR VM_PAGETABLEFLAG_WRITEABLE OR VM_PAGETABLEFLAG_USERSPACE"

definition pm_markUsed :: "pm_bitmap \<Rightarrow> u32 \<Rightarrow> pm_bitmap" where
  "pm_markUsed heap page =
     (let index = page div PM_PAGE_SIZE; w = unat (index div 32)
      in heap(w := heap w AND NOT (push_bit (unat (index AND 31)) 1)))"

definition pm_markFree :: "pm_bitmap \<Rightarrow> u32 \<Rightarrow> pm_bitmap" where
  "pm_markFree heap page =
     (let index = page div PM_PAGE_SIZE; w = unat (index div 32)
      in heap(w := heap w OR push_bit (unat (index AND 31)) 1))"

text \<open>
  The inner loop of \<^verbatim>\<open>__pm_findFreePages\<close> over the bits \<open>js\<close> of word \<open>i\<close>: \<open>Inl\<close> is its
  \<^verbatim>\<open>return\<close>, \<open>Inr\<close> the values of \<^verbatim>\<open>found\<close> and \<^verbatim>\<open>page\<close> after it.
\<close>

fun pm_scanBits :: "u32 \<Rightarrow> u32 \<Rightarrow> u32 \<Rightarrow> nat list \<Rightarrow> u32 \<Rightarrow> u32 \<Rightarrow> u32 + (u32 \<times> u32)" where
  "pm_scanBits word i pages [] found page = Inr (found, page)"
| "pm_scanBits word i pages (j # js) found page =
     (if word AND push_bit j 1 \<noteq> 0 then
        (let page = (if found = 0 then (i * 32 + of_nat j) * PM_PAGE_SIZE else page);
             found = found + 1
         in if found > pages then Inl page else pm_scanBits word i pages js found page)
      else pm_scanBits word i pages js 0 page)"

function pm_findLoop :: "pm_bitmap \<Rightarrow> u32 \<Rightarrow> u32 \<Rightarrow> u32 \<Rightarrow> u32 \<Rightarrow> u32" where
  "pm_findLoop heap pages i found page =
     (if i < PM_HEAPSIZE then
        (let word = heap (unat i) in
         if word = 0 then pm_findLoop heap pages (i + 1) 0 page
         else if word = 0xFFFFFFFF then
           (let page = (if found = 0 then i * 32 * PM_PAGE_SIZE else page);
                found = found + 32
            in if found > pages then page else pm_findLoop heap pages (i + 1) found page)
         else
           (case pm_scanBits word i pages [0..<32] found page of
              Inl page \<Rightarrow> page
            | Inr (found, page) \<Rightarrow>
                if found > pages then page else pm_findLoop heap pages (i + 1) found page))
      else 0)"
  by pat_completeness auto
termination
  by (relation "measure (\<lambda>(heap, pages, i, found, page). unat PM_HEAPSIZE - unat i)")
    (auto simp: unat_Suc_no_wrap word_less_nat_alt diff_less_mono2)

declare pm_findLoop.simps [simp del]

definition pm_findFreePages :: "pm_bitmap \<Rightarrow> u32 \<Rightarrow> u32 \<Rightarrow> u32" where
  "pm_findFreePages heap lowerLimit pages =
     pm_findLoop heap pages (lowerLimit div PM_PAGE_SIZE div 32) 0 0"

text \<open>The loops that mark the \<open>n\<close> frames from \<open>page\<close> on.\<close>

primrec pm_markRange :: "(pm_bitmap \<Rightarrow> u32 \<Rightarrow> pm_bitmap) \<Rightarrow> nat \<Rightarrow> pm_bitmap \<Rightarrow> u32 \<Rightarrow> pm_bitmap" where
  "pm_markRange mark 0 heap page = heap"
| "pm_markRange mark (Suc n) heap page = pm_markRange mark n (mark heap page) (page + PM_PAGE_SIZE)"

definition pm_allocLimit :: "pm_bitmap \<Rightarrow> u32 \<Rightarrow> u32 \<Rightarrow> u32 \<times> pm_bitmap" where
  "pm_allocLimit heap lowerLimit pages =
     (let page = pm_findFreePages heap lowerLimit pages
      in (page, if page \<noteq> 0 then pm_markRange pm_markUsed (unat pages) heap page else heap))"

definition pm_alloc :: "pm_bitmap \<Rightarrow> u32 \<Rightarrow> u32 \<times> pm_bitmap" where
  "pm_alloc heap pages =
     (let page = pm_findFreePages heap 0 pages
      in (page, if page \<noteq> 0 then pm_markRange pm_markUsed (unat pages) heap page else heap))"

definition pm_free :: "pm_bitmap \<Rightarrow> u32 \<Rightarrow> u32 \<Rightarrow> pm_bitmap" where
  "pm_free heap page pages = pm_markRange pm_markFree (unat pages) heap page"

section \<open>The bitmap as a set of free frames\<close>

definition frame_free :: "pm_bitmap \<Rightarrow> nat \<Rightarrow> bool" where
  "frame_free heap k \<longleftrightarrow> bit (heap (k div 32)) (k mod 32)"

definition frame_of :: "u32 \<Rightarrow> nat" where
  "frame_of page = unat page div 4096"

lemma pm_index_bound: "unat (page div PM_PAGE_SIZE div 32) < unat PM_HEAPSIZE"
  using unat_u32_less[of page] by (simp add: PM_PAGE_SIZE_def PM_HEAPSIZE_def unat_div)

lemma and_31_mod_32: "unat ((x :: u32) AND 31) = unat x mod 32"
proof -
  have "x AND 31 = take_bit 5 x" by (simp add: take_bit_eq_mask mask_eq_exp_minus_1)
  then show ?thesis by (simp add: take_bit_eq_mod unat_mod)
qed

lemma page_word: "unat (page div PM_PAGE_SIZE div 32) = frame_of page div 32"
  by (simp add: PM_PAGE_SIZE_def unat_div frame_of_def)

lemma page_bit: "unat (page div PM_PAGE_SIZE AND 31) = frame_of page mod 32"
  by (simp add: PM_PAGE_SIZE_def unat_div frame_of_def and_31_mod_32)

lemma frame_eq_iff: "k div 32 = k' div 32 \<and> k mod 32 = k' mod 32 \<longleftrightarrow> k = (k' :: nat)"
  by (metis div_mult_mod_eq)

lemma bit_exp_u32: "bit (2 ^ n :: u32) m \<longleftrightarrow> m = n \<and> n < 32"
  by (auto simp: bit_exp_iff)

lemma frame_free_markUsed:
  "frame_free (pm_markUsed heap page) k \<longleftrightarrow> frame_free heap k \<and> k \<noteq> frame_of page"
  using frame_eq_iff[of k "frame_of page"]
  by (auto simp: frame_free_def pm_markUsed_def Let_def page_word page_bit bit_and_iff bit_not_iff
      bit_exp_u32)

lemma frame_free_markFree:
  "frame_free (pm_markFree heap page) k \<longleftrightarrow> frame_free heap k \<or> k = frame_of page"
  using frame_eq_iff[of k "frame_of page"]
  by (auto simp: frame_free_def pm_markFree_def Let_def page_word page_bit bit_or_iff bit_exp_u32)

section \<open>The search is first fit\<close>

text \<open>
  The reference: look at one frame after the other, count the free ones since the last used
  one, and stop when there are more than \<open>pages\<close>. \<open>Inl\<close> is the first frame of the run,
  \<open>Inr\<close> the length of the run at the end of the range.
\<close>

fun scan_frames :: "(nat \<Rightarrow> bool) \<Rightarrow> nat \<Rightarrow> nat \<Rightarrow> nat \<Rightarrow> nat \<Rightarrow> nat + nat" where
  "scan_frames free pages found k 0 = Inr found"
| "scan_frames free pages found k (Suc n) =
     (if free k then
        (if Suc found > pages then Inl (k - found)
         else scan_frames free pages (Suc found) (Suc k) n)
      else scan_frames free pages 0 (Suc k) n)"

definition sum_bind :: "'a + 'b \<Rightarrow> ('b \<Rightarrow> 'a + 'c) \<Rightarrow> 'a + 'c" where
  "sum_bind r f = (case r of Inl a \<Rightarrow> Inl a | Inr b \<Rightarrow> f b)"

lemma sum_bind_simps [simp]: "sum_bind (Inl a) f = Inl a" "sum_bind (Inr b) f = f b"
  by (simp_all add: sum_bind_def)

lemma scan_frames_add:
  "scan_frames free pages found k (n + m) =
     sum_bind (scan_frames free pages found k n) (\<lambda>f. scan_frames free pages f (k + n) m)"
  by (induction free pages found k n rule: scan_frames.induct) auto

lemma scan_frames_used:
  "(\<And>j. j < n \<Longrightarrow> \<not> free (k + j)) \<Longrightarrow> 0 < n \<Longrightarrow> scan_frames free pages found k n = Inr 0"
proof (induction n arbitrary: k found)
  case (Suc n)
  have "\<not> free k" using Suc.prems(1)[of 0] by simp
  moreover have "\<not> free (Suc k + j)" if "j < n" for j
    using Suc.prems(1)[of "Suc j"] that by simp
  ultimately show ?case using Suc.IH[of "Suc k"] by (cases n) auto
qed simp

lemma scan_frames_free:
  assumes "\<And>j. j < n \<Longrightarrow> free (k + j)" "found \<le> pages" "found \<le> k"
  shows "scan_frames free pages found k n =
           (if found + n > pages then Inl (k - found) else Inr (found + n))"
  using assms
proof (induction n arbitrary: k found)
  case (Suc n)
  have "free k" using Suc.prems(1)[of 0] by simp
  moreover have "free (Suc k + j)" if "j < n" for j
    using Suc.prems(1)[of "Suc j"] that by simp
  ultimately show ?case using Suc.IH[of "Suc k" "Suc found"] Suc.prems by auto
qed simp

text \<open>What the reference finds: the least run of more than \<open>pages\<close> free frames.\<close>

definition free_run :: "(nat \<Rightarrow> bool) \<Rightarrow> nat \<Rightarrow> nat \<Rightarrow> bool" where
  "free_run free a n \<longleftrightarrow> (\<forall>j < n. free (a + j))"

lemma free_run_Suc: "free_run free a (Suc n) \<longleftrightarrow> free_run free a n \<and> free (a + n)"
  by (auto simp: free_run_def less_Suc_eq)

lemma scan_frames_first_fit:
  assumes "found \<le> pages" "start + found \<le> k" "free_run free (k - found) found"
    and "k - found = start \<or> \<not> free (k - found - 1)"
    and "\<And>a. start \<le> a \<Longrightarrow> a + pages < k \<Longrightarrow> \<not> free_run free a (Suc pages)"
  shows "case scan_frames free pages found k n of
           Inl a \<Rightarrow> start \<le> a \<and> a + pages < k + n \<and> free_run free a (Suc pages) \<and>
                    (\<forall>b. start \<le> b \<longrightarrow> b < a \<longrightarrow> \<not> free_run free b (Suc pages))
         | Inr f \<Rightarrow> \<forall>a. start \<le> a \<longrightarrow> a + pages < k + n \<longrightarrow> \<not> free_run free a (Suc pages)"
  using assms
proof (induction n arbitrary: k found)
  case 0
  then show ?case by simp
next
  case (Suc n)
  note prems = Suc.prems
  show ?case
  proof (cases "free k")
    case free: True
    have run: "free_run free (k - found) (Suc found)"
      using prems free by (simp add: free_run_Suc)
    have before: "b + pages < k" if "b < k - found" "free_run free b (Suc pages)" "start \<le> b" for b
    proof (rule ccontr)
      assume "\<not> b + pages < k"
      then have "k - found - 1 - b < Suc pages" "b + (k - found - 1 - b) = k - found - 1"
        using that(1) by auto
      with that(2) have "free (k - found - 1)" unfolding free_run_def by metis
      with prems(4) that(1,3) show False by auto
    qed
    show ?thesis
    proof (cases "Suc found > pages")
      case True
      then have f: "found = pages" using prems(1) by simp
      have "\<not> free_run free b (Suc pages)" if "start \<le> b" "b < k - pages" for b
        using before[of b] prems(5)[of b] that f by blast
      then show ?thesis using free f run prems(2) by simp
    next
      case False
      have "\<not> free_run free a (Suc pages)" if "start \<le> a" "a + pages < Suc k" for a
      proof
        assume r: "free_run free a (Suc pages)"
        show False
        proof (cases "a < k - found")
          case True
          then show False using before[OF True r that(1)] prems(5) that(1) r by blast
        next
          case f: False
          then have "a + pages < k" using False that(2) prems(2) by simp
          then show False using prems(5) that(1) r by blast
        qed
      qed
      then show ?thesis
        using Suc.IH[of "Suc found" "Suc k"] free False run prems
        by (simp add: less_Suc_eq split: sum.splits)
    qed
  next
    case False
    have "\<not> free_run free a (Suc pages)" if "start \<le> a" "a + pages < Suc k" for a
    proof
      assume r: "free_run free a (Suc pages)"
      show False
      proof (cases "a + pages = k")
        case True
        then show False using r False unfolding free_run_def by auto
      next
        case n: False
        then show False using that r prems(5) by simp
      qed
    qed
    then show ?thesis
      using Suc.IH[of 0 "Suc k"] False prems
      by (simp add: free_run_def split: sum.splits)
  qed
qed

text \<open>The variables \<^verbatim>\<open>found\<close> and \<^verbatim>\<open>page\<close> before frame \<open>k\<close>.\<close>

definition run_inv :: "u32 \<Rightarrow> nat \<Rightarrow> u32 \<Rightarrow> u32 \<Rightarrow> bool" where
  "run_inv pages k found page \<longleftrightarrow> unat found \<le> unat pages \<and> unat found \<le> k \<and>
     (found \<noteq> 0 \<longrightarrow> page = of_nat ((k - unat found) * 4096))"

lemma run_inv_0: "run_inv pages k 0 page"
  by (simp add: run_inv_def)

lemma word_page: "(i * 32 + of_nat j) * PM_PAGE_SIZE = of_nat ((32 * unat i + j) * 4096)"
  by (simp add: PM_PAGE_SIZE_def algebra_simps)

lemma word_bit_test: "word AND push_bit j 1 \<noteq> 0 \<longleftrightarrow> bit word j" for word :: u32
  using and_exp_eq_0_iff_not_bit[of word j] by simp

lemma found_Suc: "unat found \<le> k \<Longrightarrow> k < 1048576 \<Longrightarrow> unat (found + 1) = Suc (unat found)" for found :: u32
  by (rule unat_Suc_no_wrap[where y = "0xFFFFFFFF"]) (simp add: word_less_nat_alt)

definition scan_agrees :: "u32 \<Rightarrow> nat \<Rightarrow> u32 + (u32 \<times> u32) \<Rightarrow> nat + nat \<Rightarrow> bool" where
  "scan_agrees pages k r s \<longleftrightarrow>
     (case r of
        Inl p \<Rightarrow> \<exists>a. s = Inl a \<and> p = of_nat (a * 4096)
      | Inr (f, p) \<Rightarrow> s = Inr (unat f) \<and> run_inv pages k f p)"

lemma pm_scanBits_frames:
  assumes "j \<le> 32" "unat i < 32768" "run_inv pages (32 * unat i + j) found page"
  shows "scan_agrees pages (32 * unat i + 32)
           (pm_scanBits (heap (unat i)) i pages [j..<32] found page)
           (scan_frames (frame_free heap) (unat pages) (unat found) (32 * unat i + j) (32 - j))"
  using assms
proof (induction "32 - j" arbitrary: j found page)
  case 0
  then show ?case by (simp add: scan_agrees_def)
next
  case (Suc n)
  then have upt: "[j..<32] = j # [Suc j..<32]" and n: "32 - j = Suc (32 - Suc j)"
    by (simp_all add: upt_conv_Cons)
  have ff: "frame_free heap (32 * unat i + j) = bit (heap (unat i)) j"
    using Suc.hyps(2) by (simp add: frame_free_def)
  let ?page = "if found = 0 then (i * 32 + of_nat j) * PM_PAGE_SIZE else page"
  have page: "?page = of_nat ((32 * unat i + j - unat found) * 4096)"
    using Suc.prems(3) by (auto simp: word_page run_inv_def)
  have f1: "unat (found + 1) = Suc (unat found)"
    using Suc.prems Suc.hyps(2) by (intro found_Suc[of _ "32 * unat i + j"]) (auto simp: run_inv_def)
  show ?case
  proof (cases "bit (heap (unat i)) j")
    case True
    show ?thesis
    proof (cases "found + 1 > pages")
      case gt: True
      then show ?thesis
        unfolding upt n using True ff f1 page
        by (auto simp: word_bit_test[simplified] word_less_nat_alt Let_def scan_agrees_def)
    next
      case False
      have "run_inv pages (32 * unat i + Suc j) (found + 1) ?page"
        using False f1 page Suc.prems(3) by (auto simp: run_inv_def word_less_nat_alt)
      moreover have "pm_scanBits (heap (unat i)) i pages [j..<32] found page =
          pm_scanBits (heap (unat i)) i pages [Suc j..<32] (found + 1) ?page"
        unfolding upt using True False
        by (simp add: word_bit_test[simplified] Let_def)
      moreover have "scan_frames (frame_free heap) (unat pages) (unat found) (32 * unat i + j) (32 - j) =
          scan_frames (frame_free heap) (unat pages) (unat (found + 1)) (32 * unat i + Suc j) (32 - Suc j)"
        unfolding n using True ff f1 False by (simp add: word_less_nat_alt)
      ultimately show ?thesis
        using Suc.hyps(1)[of "Suc j" "found + 1" ?page, OF _ _ Suc.prems(2)] n Suc.hyps(2)
        by (metis Suc_inject Suc_leI less_imp_diff_less nat.simps(3) not_le_imp_less diff_is_0_eq)
    qed
  next
    case False
    then have "pm_scanBits (heap (unat i)) i pages [j..<32] found page =
          pm_scanBits (heap (unat i)) i pages [Suc j..<32] 0 page"
      unfolding upt by (simp add: word_bit_test[simplified])
    moreover have "scan_frames (frame_free heap) (unat pages) (unat found) (32 * unat i + j) (32 - j) =
        scan_frames (frame_free heap) (unat pages) (unat (0 :: u32)) (32 * unat i + Suc j) (32 - Suc j)"
      unfolding n using False ff by simp
    ultimately show ?thesis
      using Suc.hyps(1)[of "Suc j" 0 page] Suc.hyps(2) Suc.prems(2) by (simp add: run_inv_0)
  qed
qed

text \<open>The whole loop: the two shortcuts for full and empty words agree with the frame scan.\<close>

lemma frame_free_word: "heap (unat i) = 0xFFFFFFFF \<Longrightarrow> j < 32 \<Longrightarrow> frame_free heap (32 * unat i + j)"
proof -
  assume "heap (unat i) = 0xFFFFFFFF" "j < 32"
  moreover have "(0xFFFFFFFF :: u32) = -1" by simp
  ultimately show ?thesis by (simp only: frame_free_def) simp
qed

lemma frame_used_word: "heap (unat i) = 0 \<Longrightarrow> j < 32 \<Longrightarrow> \<not> frame_free heap (32 * unat i + j)"
  by (simp add: frame_free_def)

definition found_page :: "nat + nat \<Rightarrow> u32" where
  "found_page r = (case r of Inl a \<Rightarrow> of_nat (a * 4096) | Inr _ \<Rightarrow> 0)"

lemma found_page_simps [simp]: "found_page (Inl a) = of_nat (a * 4096)" "found_page (Inr f) = 0"
  by (simp_all add: found_page_def)

lemma scan_word:
  assumes "unat i < 32768"
  shows "found_page (scan_frames free pages found (32 * unat i) (1048576 - 32 * unat i)) =
         found_page (sum_bind (scan_frames free pages found (32 * unat i) 32)
           (\<lambda>f. scan_frames free pages f (32 * unat i + 32) (1048576 - (32 * unat i + 32))))"
proof -
  have "1048576 - 32 * unat i = 32 + (1048576 - (32 * unat i + 32))" using assms by simp
  then show ?thesis by (simp only: scan_frames_add)
qed

lemma pm_findLoop_frames:
  assumes "run_inv pages (32 * unat i) found page"
  shows "pm_findLoop heap pages i found page =
    found_page (scan_frames (frame_free heap) (unat pages) (unat found) (32 * unat i) (1048576 - 32 * unat i))"
  using assms
proof (induction heap pages i found page rule: pm_findLoop.induct)
  case (1 heap pages i found page)
  note prems = 1(4)
  show ?case
  proof (cases "i < PM_HEAPSIZE")
    case False
    then show ?thesis
      by (subst pm_findLoop.simps) (simp add: PM_HEAPSIZE_def word_less_nat_alt)
  next
    case i: True
    then have ui: "unat i < 32768" and i1: "32 * unat (i + 1) = 32 * unat i + 32"
      by (simp_all add: PM_HEAPSIZE_def word_less_nat_alt unat_Suc_no_wrap[OF i])
    note IH = 1(1-3)[OF i refl, unfolded i1]
    consider "heap (unat i) = 0" | "heap (unat i) = 0xFFFFFFFF"
      | "heap (unat i) \<noteq> 0" "heap (unat i) \<noteq> 0xFFFFFFFF" by blast
    then show ?thesis
    proof cases
      case 1
      have "scan_frames (frame_free heap) (unat pages) (unat found) (32 * unat i) 32 = Inr 0"
        using frame_used_word[of heap i, OF 1] by (intro scan_frames_used) auto
      then show ?thesis
        using IH(1)[OF 1 run_inv_0] i 1
        by (subst pm_findLoop.simps) (simp add: scan_word[OF ui])
    next
      case 2
      let ?page = "if found = 0 then i * 32 * PM_PAGE_SIZE else page"
      have w: "heap (unat i) \<noteq> 0" using 2 by simp
      have scan: "scan_frames (frame_free heap) (unat pages) (unat found) (32 * unat i) 32 =
          (if unat found + 32 > unat pages then Inl (32 * unat i - unat found) else Inr (unat found + 32))"
        using frame_free_word[of heap i, OF 2] prems by (intro scan_frames_free) (auto simp: run_inv_def)
      have page: "?page = of_nat ((32 * unat i - unat found) * 4096)"
        using prems word_page[of i 0] by (auto simp: run_inv_def)
      have f32: "unat (found + 32) = unat found + 32"
        using unat_add_no_wrap[of found 32] prems ui by (simp add: run_inv_def)
      show ?thesis
      proof (cases "found + 32 > pages")
        case True
        then show ?thesis
          using i 2 w scan page f32
          by (subst pm_findLoop.simps) (simp add: scan_word[OF ui] word_less_nat_alt Let_def)
      next
        case False
        then have "run_inv pages (32 * unat i + 32) (found + 32) ?page"
          using page f32 prems by (auto simp: run_inv_def word_less_nat_alt)
        from IH(2)[OF w 2 refl refl False this] show ?thesis
          using i 2 w scan f32 False
          by (subst pm_findLoop.simps) (simp add: scan_word[OF ui] word_less_nat_alt Let_def)
      qed
    next
      case 3
      let ?r = "pm_scanBits (heap (unat i)) i pages [0..<32] found page"
      have ag: "scan_agrees pages (32 * unat i + 32) ?r
          (scan_frames (frame_free heap) (unat pages) (unat found) (32 * unat i) 32)"
        using pm_scanBits_frames[of 0 i pages found page heap] ui prems by simp
      show ?thesis
      proof (cases ?r)
        case (Inl p)
        then show ?thesis
          using i 3 ag by (subst pm_findLoop.simps) (auto simp: scan_word[OF ui] scan_agrees_def)
      next
        case (Inr fp)
        obtain f p where fp: "fp = (f, p)" by fastforce
        have inv: "run_inv pages (32 * unat i + 32) f p" using ag Inr fp by (simp add: scan_agrees_def)
        then have le: "\<not> f > pages" by (simp add: run_inv_def word_less_nat_alt)
        show ?thesis
          using IH(3)[OF 3 Inr fp[symmetric] le inv] i 3 ag Inr fp le
          by (subst pm_findLoop.simps) (simp add: scan_word[OF ui] scan_agrees_def)
      qed
    qed
  qed
qed

lemma pm_findFreePages_frames:
  "pm_findFreePages heap lowerLimit pages =
     found_page (scan_frames (frame_free heap) (unat pages) 0
       (32 * (frame_of lowerLimit div 32)) (1048576 - 32 * (frame_of lowerLimit div 32)))"
  unfolding pm_findFreePages_def by (subst pm_findLoop_frames) (simp_all add: run_inv_0 page_word)

lemma frame_of_bound: "frame_of page < 1048576"
  using unat_u32_less[of page] by (simp add: frame_of_def)

lemma frame_of_of_nat: "a < 1048576 \<Longrightarrow> frame_of (of_nat (a * 4096)) = a"
  by (simp add: frame_of_def unat_of_nat del: of_nat_mult)

lemma of_nat_frame_0: "a < 1048576 \<Longrightarrow> (of_nat (a * 4096) :: u32) = 0 \<longleftrightarrow> a = 0"
proof -
  assume "a < 1048576"
  then have "unat (of_nat (a * 4096) :: u32) = a * 4096" by (simp add: unat_of_nat del: of_nat_mult)
  then show ?thesis by (metis mult_eq_0_iff numeral_neq_zero of_nat_0 unsigned_0)
qed

text \<open>
  The contract of the search: the result is the least run of \<open>pages + 1\<close> free frames at or
  after the word that holds the limit's frame.
\<close>

definition first_run :: "pm_bitmap \<Rightarrow> nat \<Rightarrow> nat \<Rightarrow> nat \<Rightarrow> bool" where
  "first_run heap start n a \<longleftrightarrow> start \<le> a \<and> a + n \<le> 1048576 \<and> free_run (frame_free heap) a n \<and>
     (\<forall>b. start \<le> b \<longrightarrow> b < a \<longrightarrow> \<not> free_run (frame_free heap) b n)"

lemma pm_findFreePages_cases:
  fixes heap lowerLimit pages
  defines "start \<equiv> 32 * (frame_of lowerLimit div 32)"
  defines "page \<equiv> pm_findFreePages heap lowerLimit pages"
  shows "(\<exists>a. page = of_nat (a * 4096) \<and> first_run heap start (Suc (unat pages)) a) \<or>
         page = 0 \<and> (\<forall>a. start \<le> a \<longrightarrow> a + unat pages < 1048576 \<longrightarrow>
                       \<not> free_run (frame_free heap) a (Suc (unat pages)))"
proof -
  have le: "start \<le> 1048576" using frame_of_bound[of lowerLimit] by (simp add: start_def)
  let ?s = "scan_frames (frame_free heap) (unat pages) 0 start (1048576 - start)"
  have "case ?s of
      Inl a \<Rightarrow> start \<le> a \<and> a + unat pages < start + (1048576 - start) \<and>
        free_run (frame_free heap) a (Suc (unat pages)) \<and>
        (\<forall>b. start \<le> b \<longrightarrow> b < a \<longrightarrow> \<not> free_run (frame_free heap) b (Suc (unat pages)))
    | Inr f \<Rightarrow> \<forall>a. start \<le> a \<longrightarrow> a + unat pages < start + (1048576 - start) \<longrightarrow>
        \<not> free_run (frame_free heap) a (Suc (unat pages))"
    by (rule scan_frames_first_fit) (auto simp: free_run_def)
  moreover have "page = found_page ?s"
    by (simp add: page_def start_def pm_findFreePages_frames)
  ultimately show ?thesis
    using le by (cases ?s) (auto simp: first_run_def)
qed

lemma first_run_frame:
  "first_run heap start (Suc n) a \<Longrightarrow> page = of_nat (a * 4096) \<Longrightarrow> frame_of page = a \<and> (page = 0 \<longleftrightarrow> a = 0)"
  using frame_of_of_nat[of a] of_nat_frame_0[of a] by (auto simp: first_run_def)

section \<open>Allocation and release\<close>

lemma frame_of_next: "frame_of page + 1 < 1048576 \<Longrightarrow> frame_of (page + PM_PAGE_SIZE) = Suc (frame_of page)"
  using unat_add_no_wrap[of page PM_PAGE_SIZE] by (simp add: frame_of_def PM_PAGE_SIZE_def)

lemma frame_free_markRange_used:
  "frame_of page + n \<le> 1048576 \<Longrightarrow>
   frame_free (pm_markRange pm_markUsed n heap page) k \<longleftrightarrow>
     frame_free heap k \<and> k \<notin> {frame_of page ..< frame_of page + n}"
proof (induction n arbitrary: heap page)
  case (Suc n)
  show ?case
  proof (cases "n = 0")
    case True
    then show ?thesis by (auto simp: frame_free_markUsed)
  next
    case False
    then have "frame_of (page + PM_PAGE_SIZE) = Suc (frame_of page)"
      using Suc.prems by (simp add: frame_of_next)
    then show ?thesis
      using Suc.IH[of "page + PM_PAGE_SIZE" "pm_markUsed heap page"] Suc.prems
      by (auto simp: frame_free_markUsed)
  qed
qed simp

lemma frame_free_markRange_free:
  "frame_of page + n \<le> 1048576 \<Longrightarrow>
   frame_free (pm_markRange pm_markFree n heap page) k \<longleftrightarrow>
     frame_free heap k \<or> k \<in> {frame_of page ..< frame_of page + n}"
proof (induction n arbitrary: heap page)
  case (Suc n)
  show ?case
  proof (cases "n = 0")
    case True
    then show ?thesis by (auto simp: frame_free_markFree)
  next
    case False
    then have "frame_of (page + PM_PAGE_SIZE) = Suc (frame_of page)"
      using Suc.prems by (simp add: frame_of_next)
    then show ?thesis
      using Suc.IH[of "page + PM_PAGE_SIZE" "pm_markFree heap page"] Suc.prems
      by (auto simp: frame_free_markFree)
  qed
qed simp

lemma frame_free_inject: "frame_free heap = frame_free heap' \<longleftrightarrow> heap = heap'"
proof
  assume eq: "frame_free heap = frame_free heap'"
  have "heap w = heap' w" for w
  proof (rule bit_word_eqI)
    fix n assume "n < LENGTH(32)"
    then show "bit (heap w) n \<longleftrightarrow> bit (heap' w) n"
      using fun_cong[OF eq, of "32 * w + n"] by (simp add: frame_free_def)
  qed
  then show "heap = heap'" by blast
qed simp

lemma pm_alloc_is_allocLimit: "pm_alloc heap = pm_allocLimit heap 0"
  by (simp add: fun_eq_iff pm_alloc_def pm_allocLimit_def)

lemma pm_allocLimit_Some:
  assumes "pm_allocLimit heap lowerLimit pages = (page, heap')" "page \<noteq> 0"
  shows "page = of_nat (frame_of page * 4096)"
    and "first_run heap (32 * (frame_of lowerLimit div 32)) (Suc (unat pages)) (frame_of page)"
    and "frame_free heap' k \<longleftrightarrow> frame_free heap k \<and> k \<notin> frames page (unat pages)"
proof -
  have page: "page = pm_findFreePages heap lowerLimit pages"
    and heap': "heap' = pm_markRange pm_markUsed (unat pages) heap page"
    using assms by (auto simp: pm_allocLimit_def Let_def split: if_splits)
  obtain a where a: "page = of_nat (a * 4096)"
    "first_run heap (32 * (frame_of lowerLimit div 32)) (Suc (unat pages)) a"
    using pm_findFreePages_cases[of heap lowerLimit pages] page assms(2) by blast
  with first_run_frame have fr: "frame_of page = a" by blast
  then show "page = of_nat (frame_of page * 4096)"
    and "first_run heap (32 * (frame_of lowerLimit div 32)) (Suc (unat pages)) (frame_of page)"
    using a by simp_all
  have "frame_of page + unat pages \<le> 1048576" using a(2) fr by (simp add: first_run_def)
  then show "frame_free heap' k \<longleftrightarrow> frame_free heap k \<and> k \<notin> frames page (unat pages)"
    by (simp add: heap' frame_free_markRange_used frames_def frame_of_def)
qed

lemma pm_allocLimit_None:
  assumes "pm_allocLimit heap lowerLimit pages = (0, heap')"
  shows "heap' = heap"
    and "\<not> frame_free heap 0 \<Longrightarrow> 32 * (frame_of lowerLimit div 32) \<le> a \<Longrightarrow>
           a + unat pages < 1048576 \<Longrightarrow> \<not> free_run (frame_free heap) a (Suc (unat pages))"
proof -
  show "heap' = heap" using assms by (simp add: pm_allocLimit_def Let_def split: if_splits)
  have page: "pm_findFreePages heap lowerLimit pages = 0"
    using assms by (simp add: pm_allocLimit_def Let_def)
  assume used: "\<not> frame_free heap 0"
  have "a' \<noteq> 0" if "first_run heap start (Suc n) a'" for start n a'
  proof
    assume "a' = 0"
    then have "frame_free heap (0 + 0)"
      using that zero_less_Suc unfolding first_run_def free_run_def by blast
    with used show False by simp
  qed
  then have "\<forall>a. 32 * (frame_of lowerLimit div 32) \<le> a \<longrightarrow> a + unat pages < 1048576 \<longrightarrow>
      \<not> free_run (frame_free heap) a (Suc (unat pages))"
    using pm_findFreePages_cases[of heap lowerLimit pages] page first_run_frame by metis
  then show "32 * (frame_of lowerLimit div 32) \<le> a \<Longrightarrow>
           a + unat pages < 1048576 \<Longrightarrow> \<not> free_run (frame_free heap) a (Suc (unat pages))"
    by blast
qed

lemma first_run_frames:
  "first_run heap start (Suc n) (frame_of page) \<Longrightarrow> k \<in> frames page n \<Longrightarrow>
     k < 1048576 \<and> frame_free heap k"
proof -
  assume fr: "first_run heap start (Suc n) (frame_of page)" and k: "k \<in> frames page n"
  then obtain j where "k = frame_of page + j" "j < n"
    by (auto simp: frames_def frame_of_def dest: le_Suc_ex)
  then show ?thesis using fr by (auto simp: first_run_def free_run_def)
qed

lemma pm_allocLimit_alloc_law:
  assumes "pm_allocLimit heap lowerLimit n = (p, heap')" "p \<noteq> 0"
  shows "(\<forall>k \<in> frames p (unat n). k < 1048576 \<and> frame_free heap k) \<and>
         (\<forall>k. frame_free heap' k \<longleftrightarrow> frame_free heap k \<and> k \<notin> frames p (unat n))"
  using pm_allocLimit_Some[OF assms] first_run_frames by blast

lemma pm_free_frames:
  assumes "\<forall>k \<in> frames p (unat n). k < 1048576"
  shows "frame_free (pm_free heap p n) k \<longleftrightarrow> frame_free heap k \<or> k \<in> frames p (unat n)"
proof (cases "unat n")
  case 0
  then show ?thesis by (simp add: pm_free_def frames_def)
next
  case (Suc m)
  then have "frame_of p + unat n \<le> 1048576"
    using bspec[OF assms, of "frame_of p + m"] by (simp add: frames_def frame_of_def)
  then show ?thesis
    by (simp add: pm_free_def frame_free_markRange_free) (simp add: frames_def frame_of_def)
qed

interpretation pm_limit: page_allocator "\<lambda>heap. pm_allocLimit heap lowerLimit" pm_free frame_free for lowerLimit
  by unfold_locales (use pm_allocLimit_alloc_law pm_allocLimit_None pm_free_frames in blast)+

interpretation pm: page_allocator pm_alloc pm_free frame_free
  by unfold_locales
    (use pm_allocLimit_alloc_law[where lowerLimit = 0] pm_allocLimit_None[where lowerLimit = 0]
      pm_free_frames in \<open>unfold pm_alloc_is_allocLimit, blast\<close>)+

lemma first_run_at:
  assumes "\<not> frame_free heap 0" "free_run (frame_free heap) a (Suc n)"
    "\<forall>b. 0 < b \<longrightarrow> b < a \<longrightarrow> \<not> frame_free heap b" "0 < a" "a + n < 1048576"
  shows "first_run heap 0 (Suc n) a"
proof -
  have "\<not> free_run (frame_free heap) b (Suc n)" if "b < a" for b
  proof
    assume "free_run (frame_free heap) b (Suc n)"
    then have "frame_free heap (b + 0)" unfolding free_run_def by blast
    then show False using assms(1,3) that by (cases b) auto
  qed
  then show ?thesis using assms by (auto simp: first_run_def)
qed

lemma first_run_unique: "first_run heap start n a \<Longrightarrow> first_run heap start n b \<Longrightarrow> a = b"
  unfolding first_run_def by (cases a b rule: linorder_cases) blast+

lemma pm_allocLimit_at:
  assumes "\<not> frame_free heap 0" "frame_of lowerLimit < 32" "0 < a" "a < 1048576"
  shows "fst (pm_allocLimit heap lowerLimit pages) = of_nat (a * 4096) \<longleftrightarrow>
           first_run heap 0 (Suc (unat pages)) a"
proof -
  let ?page = "fst (pm_allocLimit heap lowerLimit pages)"
  have "(\<exists>a. ?page = of_nat (a * 4096) \<and> first_run heap 0 (Suc (unat pages)) a) \<or>
        ?page = 0 \<and> (\<forall>a. \<not> first_run heap 0 (Suc (unat pages)) a)"
    using pm_findFreePages_cases[of heap lowerLimit pages] assms(2)
    by (auto simp: pm_allocLimit_def Let_def first_run_def)
  then consider b where "?page = of_nat (b * 4096)" "first_run heap 0 (Suc (unat pages)) b"
    | "?page = 0" "\<forall>a. \<not> first_run heap 0 (Suc (unat pages)) a" by blast
  then show ?thesis
  proof cases
    case (1 b)
    have "frame_of ?page = b" using first_run_frame[OF 1(2,1)] by blast
    then show ?thesis using 1 first_run_unique[OF 1(2)] frame_of_of_nat[OF assms(4)] by metis
  next
    case 2
    moreover have "(of_nat (a * 4096) :: u32) \<noteq> 0" using of_nat_frame_0[OF assms(4)] assms(3) by blast
    ultimately show ?thesis by presburger
  qed
qed

section \<open>Properties\<close>

lemma single_word_free:
  "frame_free ((\<lambda>_. 0)(0 := w)) k \<longleftrightarrow> k < 32 \<and> bit w k"
  by (auto simp: frame_free_def dest: bit_imp_le_length)

lemma bits_from_4: "bit (0xF0 :: int) k \<longleftrightarrow> 4 \<le> k \<and> k < 8"
proof -
  have "(0xF0 :: int) = push_bit 4 (mask 4)" by (simp add: mask_eq_exp_minus_1)
  then show ?thesis by (simp only: bit_push_bit_iff bit_mask_iff) auto
qed

lemma example_alloc:
  assumes "frame_of lowerLimit < 32" "unat pages = n" "n < 4"
  shows "\<exists>heap'. pm_allocLimit ((\<lambda>_. 0)(0 := 0xF0)) lowerLimit pages = (0x4000, heap')"
proof -
  have "first_run ((\<lambda>_. 0)(0 := 0xF0)) 0 (Suc (unat pages)) 4"
    using assms by (intro first_run_at) (auto simp: free_run_def single_word_free bits_from_4)
  then have "fst (pm_allocLimit ((\<lambda>_. 0)(0 := 0xF0)) lowerLimit pages) = of_nat (4 * 4096)"
    using pm_allocLimit_at[of "(\<lambda>_. 0)(0 := 0xF0)" lowerLimit 4 pages] assms
    by (simp add: single_word_free bits_from_4)
  then show ?thesis by (cases "pm_allocLimit ((\<lambda>_. 0)(0 := 0xF0)) lowerLimit pages") simp
qed



text \<open>
  C34. Two allocations of physical pages that are both live never overlap, and releasing one of them
  keeps every frame of the other one used.
\<close>

theorem pm_alloc_no_overlap:
  assumes "pm_alloc heap n = (p, heap1)" "pm_alloc heap1 m = (q, heap2)" "p \<noteq> 0" "q \<noteq> 0"
  shows "frames p (unat n) \<inter> frames q (unat m) = {} \<and>
         (\<forall>k \<in> frames q (unat m). \<not> frame_free (pm_free heap2 p n) k)"
  using pm.alloc_disjoint[OF assms] pm.release_keeps_other[OF assms] by blast

theorem pm_alloc_no_overlap_witness:
  "let heap = (\<lambda>_. 0)(0 := 0xF0); (p, heap1) = pm_alloc heap 1; (q, heap2) = pm_alloc heap1 1
   in p = 0x4000 \<and> q = 0x5000 \<and> frames p 1 \<inter> frames q 1 = {} \<and> \<not> frame_free (pm_free heap2 p 1) 5"
proof -
  let ?heap = "(\<lambda>_. 0)(0 := 0xF0 :: u32)"
  obtain heap1 where h1: "pm_alloc ?heap 1 = (0x4000, heap1)"
    using example_alloc[of 0 1 1] by (auto simp: frame_of_def pm_alloc_is_allocLimit)
  have f1: "frame_free heap1 k \<longleftrightarrow> 5 \<le> k \<and> k < 8" for k
    using pm_allocLimit_Some(3)[OF h1[unfolded pm_alloc_is_allocLimit], of k]
    by (auto simp: single_word_free bits_from_4 frames_def)
  have "first_run heap1 0 (Suc (unat (1 :: u32))) 5"
    by (rule first_run_at) (auto simp: f1 free_run_def)
  then have "fst (pm_alloc heap1 1) = 0x5000"
    using pm_allocLimit_at[of heap1 0 5 1] f1 by (simp add: frame_of_def pm_alloc_is_allocLimit)
  then obtain heap2 where h2: "pm_alloc heap1 1 = (0x5000, heap2)" by (cases "pm_alloc heap1 1") simp
  show ?thesis
    using pm_alloc_no_overlap[OF h1 h2] h1 h2 by (simp add: frames_def)
qed

text \<open>
  Releasing the pages of a successful allocation restores the bitmap bit for bit.
\<close>

theorem pm_free_pm_alloc:
  assumes "pm_allocLimit heap lowerLimit pages = (page, heap')" "page \<noteq> 0"
  shows "pm_free heap' page pages = heap"
  using pm_limit.alloc_release[OF assms] by (simp add: frame_free_inject[symmetric] fun_eq_iff)

theorem pm_free_pm_alloc_witness:
  "let (page, heap') = pm_allocLimit ((\<lambda>_. 0)(0 := 0xF0)) 0 3
   in page = 0x4000 \<and> pm_free heap' page 3 = (\<lambda>_. 0)(0 := 0xF0)"
proof -
  obtain heap' where "pm_allocLimit ((\<lambda>_. 0)(0 := 0xF0)) 0 3 = (0x4000, heap')"
    using example_alloc[of 0 3 3] by (auto simp: frame_of_def)
  with pm_free_pm_alloc[OF this] show ?thesis by simp
qed

text \<open>
  An allocation that exactly fits is refused: when the only free frames are a single run of
  \<open>pages\<close> frames, \<^verbatim>\<open>pm_alloc\<close> returns 0 although the pages are there.
\<close>

theorem pm_alloc_refuses_exact_fit:
  assumes "\<And>k. frame_free heap k \<longleftrightarrow> a \<le> k \<and> k < a + unat pages" "0 < a"
  shows "pm_alloc heap pages = (0, heap)"
proof -
  have no_run: "\<not> free_run (frame_free heap) b (Suc (unat pages))" for b
  proof
    assume run: "free_run (frame_free heap) b (Suc (unat pages))"
    have "frame_free heap (b + 0)" using run zero_less_Suc unfolding free_run_def by blast
    moreover have "frame_free heap (b + unat pages)" using run unfolding free_run_def by blast
    ultimately show False using assms(1) by simp
  qed
  obtain page heap' where r: "pm_allocLimit heap 0 pages = (page, heap')" by fastforce
  have "page = 0" using pm_allocLimit_Some(2)[OF r] no_run by (auto simp: first_run_def)
  with r pm_allocLimit_None(1)[of heap 0 pages heap'] show ?thesis by (simp add: pm_alloc_is_allocLimit)
qed

theorem pm_alloc_refuses_exact_fit_witness:
  "pm_alloc ((\<lambda>_. 0)(0 := 0xF0)) 4 = (0, (\<lambda>_. 0)(0 := 0xF0))"
  by (rule pm_alloc_refuses_exact_fit[of _ 4]) (auto simp: single_word_free bits_from_4)

text \<open>
  The lower limit is not respected within its group of 32 frames: with frames 4 to 7 free, a
  request for one page not below \<open>0x6000\<close> is answered with address \<open>0x4000\<close>.
\<close>

theorem pm_allocLimit_below_limit:
  "fst (pm_allocLimit ((\<lambda>_. 0)(0 := 0xF0)) 0x6000 1) = 0x4000"
  using example_alloc[of "0x6000" 1 1] by (auto simp: frame_of_def)

end
