(* ===== verification/PMBoot.thy ===== *)
theory PMBoot
  imports PMemory "HOL-Library.Monad_Syntax"
begin

text \<open>
  The second half of \<^verbatim>\<open>src/sys/memory/pmemory.c\<close>: how \<^verbatim>\<open>pm_init\<close> fills the frame bitmap from
  the boot loader's memory map and which frames it keeps from the allocator. The loops compare
  32-bit addresses and may run for ever; they are partial functions whose value is \<open>None\<close> then.
\<close>

section \<open>Boot information\<close>

record multiboot_s =
  flags :: u32
  mem_lower :: u32
  mem_upper :: u32
  bootdevice :: u32
  cmdline :: ptr
  mods_count :: u32
  mods_addr :: ptr
  syms :: "u32 list"
  mmap_length :: u32
  mmap_addr :: ptr
  drives_length :: u32
  drives_addr :: ptr
  config_table :: ptr
  boot_loader_name :: ptr
  apm_table :: ptr

record multiboot_module_s =
  mod_start :: ptr
  mod_end :: ptr
  mod_name :: ptr

record multiboot_mmap_s =
  mmap_size :: u32
  mmap_base :: "64 word"
  mmap_len :: "64 word"
  mmap_type :: u32

text \<open>
  What lies in memory behind the pointers of the boot information: the structures at an address,
  the size field of the drive structure there, and the length of the string there.
\<close>

record boot_memory =
  module_at :: "ptr \<Rightarrow> multiboot_module_s"
  mmap_at :: "ptr \<Rightarrow> multiboot_mmap_s"
  drive_size_at :: "ptr \<Rightarrow> u32"
  strlen_at :: "ptr \<Rightarrow> u32"

definition kMultibootFlagCommandLine :: u32 where "kMultibootFlagCommandLine = 0x4"
definition kMultibootFlagModules :: u32 where "kMultibootFlagModules = 0x8"
definition kMultibootFlagMmap :: u32 where "kMultibootFlagMmap = 0x40"
definition kMultibootFlagDrives :: u32 where "kMultibootFlagDrives = 0x80"
definition kMultibootFlagBootLoader :: u32 where "kMultibootFlagBootLoader = 0x200"

definition VM_KERNEL_DIRECTORY_ADDRESS :: u32 where "VM_KERNEL_DIRECTORY_ADDRESS = 0x1000"
definition IR_TRAMPOLINE_PHYSICAL :: u32 where "IR_TRAMPOLINE_PHYSICAL = 0x2000"
definition IR_TRAMPOLINE_PAGES :: u32 where "IR_TRAMPOLINE_PAGES = 2"

text \<open>The addresses the linker defines.\<close>

record linker_symbols =
  kernelBegin :: ptr
  kernelEnd :: ptr
  stack_bottom :: ptr
  stack_top :: ptr

section \<open>Model\<close>

definition pm_markMultibootModule ::
  "boot_memory \<Rightarrow> pm_bitmap \<Rightarrow> multiboot_module_s \<Rightarrow> pm_bitmap" where
  "pm_markMultibootModule mem heap module =
     (let start = VM_PAGE_ALIGN_DOWN (mod_start module);
          end = VM_PAGE_ALIGN_UP (mod_end module);
          pages = VM_PAGE_COUNT (end - start);
          heap = pm_markRange pm_markUsed (unat pages) heap start;
          start = VM_PAGE_ALIGN_DOWN (mod_name module);
          pages = VM_PAGE_COUNT (strlen_at mem start)
      in pm_markRange pm_markUsed (unat pages) heap start)"

primrec pm_markModules :: "boot_memory \<Rightarrow> nat \<Rightarrow> pm_bitmap \<Rightarrow> ptr \<Rightarrow> pm_bitmap" where
  "pm_markModules mem 0 heap module = heap"
| "pm_markModules mem (Suc n) heap module =
     pm_markModules mem n (pm_markMultibootModule mem heap (module_at mem module)) (module + 16)"

partial_function (option) pm_markDrives ::
  "boot_memory \<Rightarrow> pm_bitmap \<Rightarrow> ptr \<Rightarrow> ptr \<Rightarrow> pm_bitmap option" where
  "pm_markDrives mem heap drivesPtr drivesEnd =
     (if drivesPtr < drivesEnd then
        pm_markDrives mem
          (pm_markRange pm_markUsed (unat (VM_PAGE_COUNT (drive_size_at mem drivesPtr))) heap drivesPtr)
          (drivesPtr + drive_size_at mem drivesPtr) drivesEnd
      else Some heap)"

definition pm_markMultiboot ::
  "boot_memory \<Rightarrow> pm_bitmap \<Rightarrow> ptr \<Rightarrow> multiboot_s \<Rightarrow> pm_bitmap option" where
  "pm_markMultiboot mem heap infoPtr info =
     (let heap = pm_markUsed heap (VM_PAGE_ALIGN_DOWN infoPtr);
          heap = (if flags info AND kMultibootFlagCommandLine \<noteq> 0
                  then pm_markUsed heap (VM_PAGE_ALIGN_DOWN (cmdline info)) else heap);
          heap = (if flags info AND kMultibootFlagModules \<noteq> 0
                  then pm_markModules mem (unat (mods_count info)) heap (mods_addr info) else heap)
      in do {
        heap \<leftarrow> (if flags info AND kMultibootFlagDrives \<noteq> 0
                then pm_markDrives mem heap (drives_addr info) (drives_addr info + drives_length info)
                else Some heap);
        Some (if flags info AND kMultibootFlagBootLoader \<noteq> 0
              then pm_markUsed heap (VM_PAGE_ALIGN_DOWN (boot_loader_name info)) else heap)
      })"

text \<open>The loop that frees an available range, with the running \<^verbatim>\<open>memoryTotal\<close>.\<close>

partial_function (option) pm_freeUntil ::
  "pm_bitmap \<Rightarrow> u32 \<Rightarrow> u32 \<Rightarrow> u32 \<Rightarrow> (pm_bitmap \<times> u32) option" where
  "pm_freeUntil heap memoryTotal address addressEnd =
     (if address < addressEnd then
        pm_freeUntil (pm_markFree heap address) (memoryTotal + PM_PAGE_SIZE)
          (address + PM_PAGE_SIZE) addressEnd
      else Some (heap, memoryTotal))"

partial_function (option) pm_usedUntil :: "pm_bitmap \<Rightarrow> u32 \<Rightarrow> u32 \<Rightarrow> pm_bitmap option" where
  "pm_usedUntil heap address addressEnd =
     (if address < addressEnd then
        pm_usedUntil (pm_markUsed heap address) (address + PM_PAGE_SIZE) addressEnd
      else Some heap)"

text \<open>One entry of the memory map; base and length are 64-bit and are cut to 32 bits.\<close>

definition pm_freeEntry ::
  "pm_bitmap \<Rightarrow> u32 \<Rightarrow> multiboot_mmap_s \<Rightarrow> (pm_bitmap \<times> u32) option" where
  "pm_freeEntry heap memoryTotal mmap =
     (if mmap_type mmap = 1 then
        (let address = ucast (mmap_base mmap);
             addressEnd = ucast (ucast address + mmap_len mmap)
         in pm_freeUntil heap memoryTotal address addressEnd)
      else Some (heap, memoryTotal))"

partial_function (option) pm_readMmap ::
  "boot_memory \<Rightarrow> pm_bitmap \<Rightarrow> u32 \<Rightarrow> ptr \<Rightarrow> ptr \<Rightarrow> (pm_bitmap \<times> u32) option" where
  "pm_readMmap mem heap memoryTotal mmapPtr mmapEnd =
     (if mmapPtr < mmapEnd then do {
        (heap, memoryTotal) \<leftarrow> pm_freeEntry heap memoryTotal (mmap_at mem mmapPtr);
        pm_readMmap mem heap memoryTotal (mmapPtr + (mmap_size (mmap_at mem mmapPtr) + 4)) mmapEnd
      }
      else Some (heap, memoryTotal))"

text \<open>The two reservations at the end of \<^verbatim>\<open>pm_init\<close>.\<close>

definition pm_reserve :: "pm_bitmap \<Rightarrow> bool \<times> pm_bitmap" where
  "pm_reserve heap =
     (let (directory, heap) = pm_allocLimit heap VM_KERNEL_DIRECTORY_ADDRESS 1
      in if directory \<noteq> VM_KERNEL_DIRECTORY_ADDRESS then (False, heap)
         else
           (let (trampolines, heap) = pm_allocLimit heap IR_TRAMPOLINE_PHYSICAL IR_TRAMPOLINE_PAGES
            in if trampolines \<noteq> IR_TRAMPOLINE_PHYSICAL then (False, heap) else (True, heap)))"

definition pm_init ::
  "linker_symbols \<Rightarrow> boot_memory \<Rightarrow> pm_bitmap \<Rightarrow> ptr \<Rightarrow> multiboot_s \<Rightarrow>
    ((bool \<times> pm_bitmap) result) option" where
  "pm_init ld mem heap data info =
     (if data = NULL then Some (Inl Assertion)
      else if flags info AND kMultibootFlagMmap = 0 then Some (Inl KernelPanic)
      else do {
        (heap, memoryTotal) \<leftarrow>
          pm_readMmap mem heap 0 (mmap_addr info) (mmap_addr info + mmap_length info);
        heap \<leftarrow> pm_usedUntil heap (kernelBegin ld) (kernelEnd ld);
        heap \<leftarrow> pm_usedUntil heap (VM_PAGE_ALIGN_DOWN (stack_bottom ld))
                 (VM_PAGE_ALIGN_UP (stack_top ld));
        heap \<leftarrow> pm_markMultiboot mem heap data info;
        Some (Inr (pm_reserve (pm_markUsed heap 0)))
      })"

section \<open>The marking loops\<close>

lemma page_step:
  assumes "address < addressEnd" "addressEnd \<le> 0xFFFFF000"
  shows "unat (address + PM_PAGE_SIZE) = unat address + 4096"
  using assms unat_add_no_wrap[of address PM_PAGE_SIZE]
  by (simp add: word_less_nat_alt word_le_nat_alt PM_PAGE_SIZE_def)

definition touched :: "u32 \<Rightarrow> u32 \<Rightarrow> nat \<Rightarrow> bool" where
  "touched address addressEnd k \<longleftrightarrow>
     frame_of address \<le> k \<and> unat address + 4096 * (k - frame_of address) < unat addressEnd"

lemma touched_empty: "\<not> address < addressEnd \<Longrightarrow> \<not> touched address addressEnd k"
  by (simp add: touched_def word_less_nat_alt)

lemma touched_step:
  assumes "address < addressEnd" "addressEnd \<le> 0xFFFFF000"
  shows "touched address addressEnd k \<longleftrightarrow>
           k = frame_of address \<or> touched (address + PM_PAGE_SIZE) addressEnd k"
proof -
  have "frame_of (address + PM_PAGE_SIZE) = Suc (frame_of address)"
    using page_step[OF assms] by (simp add: frame_of_def)
  then show ?thesis
    using assms(1) page_step[OF assms]
    by (cases "frame_of address < k") (auto simp: touched_def word_less_nat_alt)
qed

text \<open>Both loops end if the end address is not in the last page, and mark the frames they touch.\<close>

lemma pm_usedUntil_marks:
  assumes "addressEnd \<le> 0xFFFFF000"
  shows "\<exists>heap'. pm_usedUntil heap address addressEnd = Some heap' \<and>
           (\<forall>k. frame_free heap' k \<longleftrightarrow> frame_free heap k \<and> \<not> touched address addressEnd k)"
  using assms
proof (induction "unat addressEnd - unat address" arbitrary: heap address rule: less_induct)
  case less
  show ?case
  proof (cases "address < addressEnd")
    case True
    have "unat addressEnd - unat (address + PM_PAGE_SIZE) < unat addressEnd - unat address"
      using page_step[OF True assms] True by (simp add: word_less_nat_alt)
    from less(1)[OF this assms, of "pm_markUsed heap address"] show ?thesis
      using True by (subst pm_usedUntil.simps)
        (auto simp: frame_free_markUsed touched_step[OF True assms])
  next
    case False
    then show ?thesis by (subst pm_usedUntil.simps) (simp add: touched_empty)
  qed
qed

lemma pm_freeUntil_marks:
  assumes "addressEnd \<le> 0xFFFFF000"
  shows "\<exists>heap' tot'. pm_freeUntil heap tot address addressEnd = Some (heap', tot') \<and>
           (\<forall>k. frame_free heap' k \<longleftrightarrow> frame_free heap k \<or> touched address addressEnd k)"
  using assms
proof (induction "unat addressEnd - unat address" arbitrary: heap tot address rule: less_induct)
  case less
  show ?case
  proof (cases "address < addressEnd")
    case True
    have "unat addressEnd - unat (address + PM_PAGE_SIZE) < unat addressEnd - unat address"
      using page_step[OF True assms] True by (simp add: word_less_nat_alt)
    from less(1)[OF this assms, of "pm_markFree heap address" "tot + PM_PAGE_SIZE"] show ?thesis
      using True by (subst pm_freeUntil.simps)
        (auto simp: frame_free_markFree touched_step[OF True assms])
  next
    case False
    then show ?thesis by (subst pm_freeUntil.simps) (simp add: touched_empty)
  qed
qed

text \<open>A range whose end lies in the last page of the address space is marked for ever.\<close>

lemma pm_freeUntil_diverges:
  assumes "0xFFFFF000 < addressEnd" "unat address mod 4096 = 0"
  shows "pm_freeUntil heap tot address addressEnd = None"
proof (rule ccontr)
  assume "pm_freeUntil heap tot address addressEnd \<noteq> None"
  then obtain r where "pm_freeUntil heap tot address addressEnd = Some r" by blast
  then have "0xFFFFF000 < addressEnd \<longrightarrow> unat address mod 4096 = 0 \<longrightarrow> False"
  proof (rule pm_freeUntil.raw_induct[of "\<lambda>heap tot address addressEnd r.
      0xFFFFF000 < addressEnd \<longrightarrow> unat address mod 4096 = 0 \<longrightarrow> False", rotated])
    fix f heap tot address addressEnd r
    assume IH: "\<And>heap tot address addressEnd r. f heap tot address addressEnd = Some r \<Longrightarrow>
        0xFFFFF000 < addressEnd \<longrightarrow> unat address mod 4096 = 0 \<longrightarrow> False"
      and r: "(if address < addressEnd
               then f (pm_markFree heap address) (tot + PM_PAGE_SIZE) (address + PM_PAGE_SIZE) addressEnd
               else Some (heap, tot)) = Some r"
    show "0xFFFFF000 < addressEnd \<longrightarrow> unat address mod 4096 = 0 \<longrightarrow> False"
    proof (intro impI)
      assume e: "0xFFFFF000 < addressEnd" and al: "unat address mod 4096 = 0"
      obtain q where "unat address = 4096 * q" using al by (metis mod_0_imp_dvd dvdE)
      then have "unat address \<le> 0xFFFFF000" using unat_u32_less[of address] by simp
      then have "address < addressEnd" using e by (simp add: word_less_nat_alt)
      have al': "unat (address + PM_PAGE_SIZE) mod 4096 = 0"
        using al by (simp add: unat_word_ariths PM_PAGE_SIZE_def mod_mod_cancel mod_0_imp_dvd)
      have fr: "f (pm_markFree heap address) (tot + PM_PAGE_SIZE) (address + PM_PAGE_SIZE) addressEnd = Some r"
        using r \<open>address < addressEnd\<close> by simp
      show False using IH[OF fr] e al' by blast
    qed
  qed
  from this[rule_format, OF assms] show False .
qed

section \<open>What booting reserves\<close>

definition shrinks :: "pm_bitmap \<Rightarrow> pm_bitmap \<Rightarrow> bool" where
  "shrinks heap heap' \<longleftrightarrow> (\<forall>k. frame_free heap' k \<longrightarrow> frame_free heap k)"

lemma shrinks_refl [simp]: "shrinks heap heap"
  by (simp add: shrinks_def)

lemma shrinks_trans: "shrinks a b \<Longrightarrow> shrinks b c \<Longrightarrow> shrinks a c"
  by (simp add: shrinks_def)

lemma shrinks_markUsed: "shrinks heap (pm_markUsed heap page)"
  by (simp add: shrinks_def frame_free_markUsed)

lemma shrinks_markRange: "shrinks heap (pm_markRange pm_markUsed n heap page)"
  by (induction n arbitrary: heap page) (simp, force intro: shrinks_trans[OF shrinks_markUsed])

lemma shrinks_markMultibootModule: "shrinks heap (pm_markMultibootModule mem heap module)"
  unfolding pm_markMultibootModule_def Let_def
  by (rule shrinks_trans[OF shrinks_markRange shrinks_markRange])

lemma shrinks_markModules: "shrinks heap (pm_markModules mem n heap module)"
  by (induction n arbitrary: heap module)
    (simp, force intro: shrinks_trans[OF shrinks_markMultibootModule])

lemma shrinks_usedUntil: "pm_usedUntil heap address addressEnd = Some heap' \<Longrightarrow> shrinks heap heap'"
  by (erule pm_usedUntil.raw_induct[rotated])
    (force split: if_splits intro: shrinks_trans[OF shrinks_markUsed])

lemma shrinks_markDrives: "pm_markDrives mem heap drivesPtr drivesEnd = Some heap' \<Longrightarrow> shrinks heap heap'"
  by (erule pm_markDrives.raw_induct[rotated])
    (force split: if_splits intro: shrinks_trans[OF shrinks_markRange])

lemma shrinks_markMultiboot:
  assumes "pm_markMultiboot mem heap infoPtr info = Some heap'"
  shows "shrinks (pm_markUsed heap (VM_PAGE_ALIGN_DOWN infoPtr)) heap'"
proof -
  define h0 where "h0 = pm_markUsed heap (VM_PAGE_ALIGN_DOWN infoPtr)"
  define h1 where "h1 = (if flags info AND kMultibootFlagCommandLine \<noteq> 0
    then pm_markUsed h0 (VM_PAGE_ALIGN_DOWN (cmdline info)) else h0)"
  define h2 where "h2 = (if flags info AND kMultibootFlagModules \<noteq> 0
    then pm_markModules mem (unat (mods_count info)) h1 (mods_addr info) else h1)"
  have s1: "shrinks h0 h1" and s2: "shrinks h1 h2"
    by (simp_all add: h1_def h2_def shrinks_markUsed shrinks_markModules)
  obtain h3 where h3: "(if flags info AND kMultibootFlagDrives \<noteq> 0
      then pm_markDrives mem h2 (drives_addr info) (drives_addr info + drives_length info)
      else Some h2) = Some h3"
    and heap': "heap' = (if flags info AND kMultibootFlagBootLoader \<noteq> 0
      then pm_markUsed h3 (VM_PAGE_ALIGN_DOWN (boot_loader_name info)) else h3)"
    using assms unfolding pm_markMultiboot_def Let_def bind_eq_Some_conv
    by (fold h0_def, fold h1_def, fold h2_def) blast
  have s3: "shrinks h2 h3" using h3 by (auto split: if_splits dest: shrinks_markDrives)
  have s4: "shrinks h3 heap'" by (simp add: heap' shrinks_markUsed)
  show ?thesis
    using shrinks_trans[OF shrinks_trans[OF shrinks_trans[OF s1 s2] s3] s4] by (simp add: h0_def)
qed

lemma shrinks_allocLimit: "pm_allocLimit heap lowerLimit pages = (page, heap') \<Longrightarrow> shrinks heap heap'"
  by (auto simp: pm_allocLimit_def Let_def shrinks_markRange split: if_splits)

lemma shrinks_reserve: "pm_reserve heap = (ok, heap') \<Longrightarrow> shrinks heap heap'"
proof -
  assume r: "pm_reserve heap = (ok, heap')"
  obtain d h1 where d: "pm_allocLimit heap VM_KERNEL_DIRECTORY_ADDRESS 1 = (d, h1)" by fastforce
  obtain t h2 where t: "pm_allocLimit h1 IR_TRAMPOLINE_PHYSICAL IR_TRAMPOLINE_PAGES = (t, h2)" by fastforce
  have "heap' = h1 \<or> heap' = h2" using r d t by (auto simp: pm_reserve_def split: if_splits)
  then show ?thesis using shrinks_allocLimit[OF d] shrinks_allocLimit[OF t] shrinks_trans by blast
qed

text \<open>
  The reservations succeed exactly when the frames 1 to 4 are free: the allocator wants one frame
  more than it is asked for, so frame 4, which nobody uses, has to be free as well.
\<close>

lemma free_run_2: "free_run P a 2 \<longleftrightarrow> P a \<and> P (a + 1)"
  by (simp add: numeral_2_eq_2 free_run_Suc) (simp add: free_run_def)

lemma free_run_3: "free_run P a 3 \<longleftrightarrow> P a \<and> P (a + 1) \<and> P (a + 2)"
  by (simp add: numeral_3_eq_3 free_run_Suc) (simp add: free_run_def)

lemma first_run_1:
  assumes "\<not> frame_free heap 0"
  shows "first_run heap 0 2 1 \<longleftrightarrow> frame_free heap 1 \<and> frame_free heap 2"
proof
  assume "first_run heap 0 2 1"
  then have "free_run (frame_free heap) 1 2" by (simp add: first_run_def)
  then show "frame_free heap 1 \<and> frame_free heap 2" by (simp add: free_run_2 one_add_one del: One_nat_def)
next
  assume "frame_free heap 1 \<and> frame_free heap 2"
  then have "free_run (frame_free heap) 1 (Suc 1)" by (simp add: free_run_2 Suc_1 del: One_nat_def)
  from first_run_at[OF assms this] show "first_run heap 0 2 1" by (simp add: numeral_2_eq_2)
qed

lemma first_run_2:
  assumes "\<not> frame_free heap 0" "\<not> frame_free heap 1"
  shows "first_run heap 0 3 2 \<longleftrightarrow> frame_free heap 2 \<and> frame_free heap 3 \<and> frame_free heap 4"
proof
  assume "first_run heap 0 3 2"
  then have "free_run (frame_free heap) 2 3" by (simp add: first_run_def)
  then show "frame_free heap 2 \<and> frame_free heap 3 \<and> frame_free heap 4" by (simp add: free_run_3)
next
  have 3: "Suc 2 = 3" by simp
  assume "frame_free heap 2 \<and> frame_free heap 3 \<and> frame_free heap 4"
  then have "free_run (frame_free heap) 2 (Suc 2)" unfolding 3 by (simp add: free_run_3)
  moreover have "\<not> frame_free heap b" if "0 < b" "b < 2" for b
    using that assms(2) by (cases "b = 1") auto
  ultimately show "first_run heap 0 3 2"
    using first_run_at[OF assms(1), of 2 2] unfolding 3 by simp
qed

lemma pm_reserve_iff:
  assumes "\<not> frame_free heap 0"
  shows "fst (pm_reserve heap) \<longleftrightarrow> (\<forall>k \<in> {1..4}. frame_free heap k)"
proof -
  have k14: "(\<forall>k \<in> {1..4}. P k) \<longleftrightarrow> P 1 \<and> P 2 \<and> P 3 \<and> P (4 :: nat)" for P
    by (auto simp: numeral_eq_Suc le_Suc_eq)
  obtain d h1 where d: "pm_allocLimit heap VM_KERNEL_DIRECTORY_ADDRESS 1 = (d, h1)" by fastforce
  obtain t h2 where t: "pm_allocLimit h1 IR_TRAMPOLINE_PHYSICAL IR_TRAMPOLINE_PAGES = (t, h2)" by fastforce
  have "d = VM_KERNEL_DIRECTORY_ADDRESS \<longleftrightarrow> first_run heap 0 (Suc (unat (1 :: u32))) 1"
    using pm_allocLimit_at[OF assms, of VM_KERNEL_DIRECTORY_ADDRESS 1 1] d
    by (simp add: VM_KERNEL_DIRECTORY_ADDRESS_def frame_of_def)
  also have "Suc (unat (1 :: u32)) = 2" by simp
  also have "first_run heap 0 2 1 \<longleftrightarrow> frame_free heap 1 \<and> frame_free heap 2"
    by (rule first_run_1[OF assms])
  finally have d_iff: "d = VM_KERNEL_DIRECTORY_ADDRESS \<longleftrightarrow> frame_free heap 1 \<and> frame_free heap 2" .
  show ?thesis
  proof (cases "d = VM_KERNEL_DIRECTORY_ADDRESS")
    case True
    have h1: "frame_free h1 k \<longleftrightarrow> frame_free heap k \<and> k \<noteq> 1" for k
      using pm_allocLimit_Some(3)[OF d, of k] True
      by (auto simp: VM_KERNEL_DIRECTORY_ADDRESS_def frames_def)
    have "t = IR_TRAMPOLINE_PHYSICAL \<longleftrightarrow> first_run h1 0 (Suc (unat (2 :: u32))) 2"
      using pm_allocLimit_at[of h1 IR_TRAMPOLINE_PHYSICAL 2 IR_TRAMPOLINE_PAGES] t assms h1
      by (simp add: IR_TRAMPOLINE_PHYSICAL_def IR_TRAMPOLINE_PAGES_def frame_of_def)
    also have "Suc (unat (2 :: u32)) = 3" by simp
    also have "first_run h1 0 3 2 \<longleftrightarrow> frame_free h1 2 \<and> frame_free h1 3 \<and> frame_free h1 4"
      using assms h1 by (intro first_run_2) auto
    finally show ?thesis
      using True d_iff d t h1 unfolding k14 by (simp add: pm_reserve_def)
  next
    case False
    then show ?thesis using d_iff d unfolding k14 by (auto simp: pm_reserve_def)
  qed
qed

lemma pm_reserve_True:
  assumes "pm_reserve heap = (True, heap')"
  shows "k \<in> {1, 2, 3} \<Longrightarrow> \<not> frame_free heap' k"
proof -
  obtain h1 where d: "pm_allocLimit heap VM_KERNEL_DIRECTORY_ADDRESS 1 = (VM_KERNEL_DIRECTORY_ADDRESS, h1)"
    and t: "pm_allocLimit h1 IR_TRAMPOLINE_PHYSICAL IR_TRAMPOLINE_PAGES = (IR_TRAMPOLINE_PHYSICAL, heap')"
    using assms by (auto simp: pm_reserve_def split: prod.splits if_splits)
  show "k \<in> {1, 2, 3} \<Longrightarrow> \<not> frame_free heap' k"
    using pm_allocLimit_Some(3)[OF d, of k] pm_allocLimit_Some(3)[OF t, of k]
    by (auto simp: VM_KERNEL_DIRECTORY_ADDRESS_def IR_TRAMPOLINE_PHYSICAL_def IR_TRAMPOLINE_PAGES_def frames_def)
qed

section \<open>Termination of the boot walk\<close>

text \<open>
  A memory map laid out as the boot loader promises: the entries follow one another up to the end
  of the map without wrapping around, and no available range ends in the last page.
\<close>

fun mmap_chain :: "boot_memory \<Rightarrow> nat \<Rightarrow> ptr \<Rightarrow> ptr \<Rightarrow> bool" where
  "mmap_chain mem 0 mmapPtr mmapEnd \<longleftrightarrow> mmapPtr = mmapEnd"
| "mmap_chain mem (Suc n) mmapPtr mmapEnd \<longleftrightarrow>
     (let mmap = mmap_at mem mmapPtr; next = mmapPtr + (mmap_size mmap + 4)
      in mmapPtr < next \<and> next \<le> mmapEnd \<and>
         (mmap_type mmap = 1 \<longrightarrow> (ucast (ucast (ucast (mmap_base mmap) :: u32) + mmap_len mmap) :: u32) \<le> 0xFFFFF000) \<and>
         mmap_chain mem n next mmapEnd)"

fun drive_chain :: "boot_memory \<Rightarrow> nat \<Rightarrow> ptr \<Rightarrow> ptr \<Rightarrow> bool" where
  "drive_chain mem 0 drivesPtr drivesEnd \<longleftrightarrow> drivesPtr = drivesEnd"
| "drive_chain mem (Suc n) drivesPtr drivesEnd \<longleftrightarrow>
     (let next = drivesPtr + drive_size_at mem drivesPtr
      in drivesPtr < next \<and> next \<le> drivesEnd \<and> drive_chain mem n next drivesEnd)"

text \<open>The frames the available ranges of the map touch.\<close>

definition entry_frees :: "multiboot_mmap_s \<Rightarrow> nat \<Rightarrow> bool" where
  "entry_frees mmap k \<longleftrightarrow> mmap_type mmap = 1 \<and>
     touched (ucast (mmap_base mmap)) (ucast (ucast (ucast (mmap_base mmap) :: u32) + mmap_len mmap)) k"

fun mmap_frees :: "boot_memory \<Rightarrow> nat \<Rightarrow> ptr \<Rightarrow> nat \<Rightarrow> bool" where
  "mmap_frees mem 0 mmapPtr k \<longleftrightarrow> False"
| "mmap_frees mem (Suc n) mmapPtr k \<longleftrightarrow>
     entry_frees (mmap_at mem mmapPtr) k \<or>
     mmap_frees mem n (mmapPtr + (mmap_size (mmap_at mem mmapPtr) + 4)) k"

lemma pm_freeEntry_frames:
  assumes "mmap_type mmap = 1 \<longrightarrow> (ucast (ucast (ucast (mmap_base mmap) :: u32) + mmap_len mmap) :: u32) \<le> 0xFFFFF000"
  shows "\<exists>heap' tot'. pm_freeEntry heap tot mmap = Some (heap', tot') \<and>
           (\<forall>k. frame_free heap' k \<longleftrightarrow> frame_free heap k \<or> entry_frees mmap k)"
proof (cases "mmap_type mmap = 1")
  case True
  with assms pm_freeUntil_marks show ?thesis by (simp add: pm_freeEntry_def Let_def entry_frees_def)
next
  case False
  then show ?thesis by (simp add: pm_freeEntry_def entry_frees_def)
qed

lemma pm_readMmap_frames:
  "mmap_chain mem n mmapPtr mmapEnd \<Longrightarrow>
   \<exists>heap' tot'. pm_readMmap mem heap tot mmapPtr mmapEnd = Some (heap', tot') \<and>
     (\<forall>k. frame_free heap' k \<longleftrightarrow> frame_free heap k \<or> mmap_frees mem n mmapPtr k)"
proof (induction n arbitrary: heap tot mmapPtr)
  case 0
  then show ?case by (subst pm_readMmap.simps) simp
next
  case (Suc n)
  let ?next = "mmapPtr + (mmap_size (mmap_at mem mmapPtr) + 4)"
  have lt: "mmapPtr < mmapEnd" and chain: "mmap_chain mem n ?next mmapEnd"
    using Suc.prems by (auto simp: Let_def)
  obtain h t where h: "pm_freeEntry heap tot (mmap_at mem mmapPtr) = Some (h, t)"
    "\<forall>k. frame_free h k \<longleftrightarrow> frame_free heap k \<or> entry_frees (mmap_at mem mmapPtr) k"
    using pm_freeEntry_frames[of "mmap_at mem mmapPtr" heap tot] Suc.prems by (auto simp: Let_def)
  then show ?case
    using Suc.IH[OF chain, of h t] lt by (subst pm_readMmap.simps) auto
qed

lemma pm_markDrives_returns:
  "drive_chain mem n drivesPtr drivesEnd \<Longrightarrow> \<exists>heap'. pm_markDrives mem heap drivesPtr drivesEnd = Some heap'"
proof (induction n arbitrary: heap drivesPtr)
  case 0
  then show ?case by (subst pm_markDrives.simps) simp
next
  case (Suc n)
  then show ?case by (subst pm_markDrives.simps) (auto simp: Let_def)
qed

lemma pm_markMultiboot_returns:
  assumes "flags info AND kMultibootFlagDrives \<noteq> 0 \<longrightarrow>
             drive_chain mem n (drives_addr info) (drives_addr info + drives_length info)"
  shows "\<exists>heap'. pm_markMultiboot mem heap infoPtr info = Some heap'"
  using assms pm_markDrives_returns
  by (fastforce simp: pm_markMultiboot_def Let_def bind_eq_Some_conv)

section \<open>Properties\<close>


definition example_boot :: multiboot_s where
  "example_boot = \<lparr> flags = 0x40, mem_lower = 640, mem_upper = 0, bootdevice = 0, cmdline = 0,
     mods_count = 0, mods_addr = 0, syms = [], mmap_length = 24, mmap_addr = 0x9000,
     drives_length = 0, drives_addr = 0, config_table = 0, boot_loader_name = 0, apm_table = 0 \<rparr>"

definition example_memory :: boot_memory where
  "example_memory = \<lparr> module_at = (\<lambda>_. \<lparr> mod_start = 0, mod_end = 0, mod_name = 0 \<rparr>),
     mmap_at = (\<lambda>_. \<lparr> mmap_size = 20, mmap_base = 0, mmap_len = 0xA0000, mmap_type = 1 \<rparr>),
     drive_size_at = (\<lambda>_. 0), strlen_at = (\<lambda>_. 0) \<rparr>"

definition example_symbols :: linker_symbols where
  "example_symbols = \<lparr> kernelBegin = 0x10000, kernelEnd = 0x20000, stack_bottom = 0x7000, stack_top = 0x7C00 \<rparr>"


text \<open>
  The last two steps of \<^verbatim>\<open>pm_init\<close> succeed exactly when the frames 1 to 4 are free: besides the
  page directory (frame 1) and the trampolines (frames 2 and 3) the allocator insists on one
  more free frame than it takes.
\<close>

theorem pm_reserve_needs_four_frames:
  assumes "\<not> frame_free heap 0"
  shows "fst (pm_reserve heap) \<longleftrightarrow> (\<forall>k \<in> {1..4}. frame_free heap k)"
  by (rule pm_reserve_iff[OF assms])

theorem pm_reserve_needs_four_frames_witness:
  "fst (pm_reserve (\<lambda>_. 0x1E)) \<and> \<not> fst (pm_reserve (\<lambda>_. 0x0E))"
proof -
  have "{1..4} = {1, 2, 3, 4 :: nat}" by auto
  then show ?thesis
    using pm_reserve_needs_four_frames[of "\<lambda>_. 0x1E"] pm_reserve_needs_four_frames[of "\<lambda>_. 0x0E"]
    by (simp add: frame_free_def)
qed

text \<open>
  The loop that frees an available range never ends when the range ends in the last page of the
  address space: the page address wraps to 0 and stays below the end.
\<close>

theorem pm_freeEntry_last_page_diverges:
  assumes "mmap_type mmap = 1" "unat (ucast (mmap_base mmap) :: u32) mod 4096 = 0"
    "(ucast (ucast (ucast (mmap_base mmap) :: u32) + mmap_len mmap) :: u32) > 0xFFFFF000"
  shows "pm_freeEntry heap tot mmap = None"
  using assms pm_freeUntil_diverges by (simp add: pm_freeEntry_def Let_def)

theorem pm_freeEntry_last_page_diverges_witness:
  "pm_freeEntry (\<lambda>_. 0) 0 \<lparr> mmap_size = 20, mmap_base = 0xFFFF0000, mmap_len = 0xFFFF, mmap_type = 1 \<rparr> = None"
  by (rule pm_freeEntry_last_page_diverges) (simp_all add: word_less_nat_alt)

text \<open>
  Memory above 4 GiB is mistaken for low memory: an available range whose base is a multiple of
  4 GiB is cut to 32 bits and frees the frames from 0 on, whatever the map says about them.
\<close>

theorem pm_freeEntry_high_memory_aliases:
  assumes "mmap_type mmap = 1" "(ucast (mmap_base mmap) :: u32) = 0" "unat (mmap_len mmap) \<le> 0xFFFFF000"
    "4096 * k < unat (mmap_len mmap)"
  shows "\<exists>heap' tot'. pm_freeEntry heap tot mmap = Some (heap', tot') \<and> frame_free heap' k"
proof -
  have len: "unat (ucast (mmap_len mmap) :: u32) = unat (mmap_len mmap)"
    using assms(3) by (simp add: unsigned_ucast_eq take_bit_eq_mod)
  then show ?thesis
    using pm_freeEntry_frames[of mmap heap tot] assms
    by (auto simp: entry_frees_def touched_def frame_of_def word_le_nat_alt)
qed

theorem pm_freeEntry_high_memory_aliases_witness:
  "\<exists>heap' tot'. pm_freeEntry (\<lambda>_. 0) 0
     \<lparr> mmap_size = 20, mmap_base = 0x100000000, mmap_len = 0x100000, mmap_type = 1 \<rparr> = Some (heap', tot') \<and>
     frame_free heap' 0xA0"
  by (rule pm_freeEntry_high_memory_aliases) simp_all

end
