(* ===== verification/KList.thy ===== *)
theory KList
  imports Prelude Interfaces
begin

text \<open>
  \<^verbatim>\<open>src/sys/container/list.c\<close>: the kernel's intrusive doubly linked list. Entries are addresses;
  the links lie at two offsets inside the entry. The theory shows which sequence of entries the
  operations leave, and what the test \<^verbatim>\<open>if(list->last)\<close> of \<^verbatim>\<open>list_removeSoft\<close> does to it.
\<close>

section \<open>Model\<close>

text \<open>
  The memory of the link fields, by offset and entry, so that different fields of an entry and
  fields of different entries do not overlap.
\<close>

type_synonym lmem = "u32 \<Rightarrow> ptr \<Rightarrow> ptr"

type_synonym fill_callback = "ptr \<Rightarrow> lmem \<Rightarrow> bool \<times> lmem"

record list_t =
  l_count :: u32
  l_entrySize :: u32
  l_lock :: spinlock
  l_internalLock :: spinlock
  l_fillEntry :: "fill_callback option"
  l_offsetNext :: u32
  l_offsetPrev :: u32
  l_first :: ptr
  l_last :: ptr

definition mem_write :: "lmem \<Rightarrow> u32 \<Rightarrow> ptr \<Rightarrow> ptr \<Rightarrow> lmem" where
  "mem_write mem off entry v = mem(off := (mem off)(entry := v))"

definition list_accessNext :: "list_t \<Rightarrow> lmem \<Rightarrow> ptr \<Rightarrow> ptr" where
  "list_accessNext list mem entry = mem (l_offsetNext list) entry"

definition list_accessPrev :: "list_t \<Rightarrow> lmem \<Rightarrow> ptr \<Rightarrow> ptr" where
  "list_accessPrev list mem entry = mem (l_offsetPrev list) entry"

text \<open>\<open>ok\<close> tells whether the allocation of the list succeeds.\<close>

definition list_create :: "bool \<Rightarrow> u32 \<Rightarrow> u32 \<Rightarrow> u32 \<Rightarrow> list_t option" where
  "list_create ok sz offsetNext offsetPrev =
     (if ok then Some \<lparr> l_count = 0, l_entrySize = sz, l_lock = SPINLOCK_INIT,
        l_internalLock = SPINLOCK_INIT, l_fillEntry = None, l_offsetNext = offsetNext,
        l_offsetPrev = offsetPrev, l_first = NULL, l_last = NULL \<rparr> else None)"

text \<open>The entries \<^verbatim>\<open>list_destroy\<close> releases, in order; the walk may not end on a cyclic list.\<close>

partial_function (option) list_destroyFrom :: "list_t \<Rightarrow> lmem \<Rightarrow> ptr \<Rightarrow> ptr list option" where
  "list_destroyFrom list mem entry =
     (if entry \<noteq> NULL then
        Option.bind (list_destroyFrom list mem (list_accessNext list mem entry))
          (\<lambda>freed. Some (entry # freed))
      else Some [])"

definition list_destroy :: "list_t \<Rightarrow> lmem \<Rightarrow> ptr list option" where
  "list_destroy list mem = list_destroyFrom list mem (l_first list)"

definition list_lock :: "list_t \<Rightarrow> list_t result" where
  "list_lock list = bind_res (spinlock_lock (l_lock list)) (\<lambda>l. Inr (list\<lparr>l_lock := l\<rparr>))"

definition list_unlock :: "list_t \<Rightarrow> list_t" where
  "list_unlock list = list\<lparr>l_lock := spinlock_unlock (l_lock list)\<rparr>"

definition list_insertBack :: "list_t \<Rightarrow> lmem \<Rightarrow> ptr \<Rightarrow> (list_t \<times> lmem) result" where
  "list_insertBack list mem entry =
     bind_res (spinlock_lock (l_internalLock list)) (\<lambda>lck.
       let list = list\<lparr>l_internalLock := lck\<rparr>;
           mem = mem_write mem (l_offsetNext list) entry NULL;
           mem = mem_write mem (l_offsetPrev list) entry (l_last list);
           mem = (if l_last list \<noteq> NULL
                  then mem_write mem (l_offsetNext list) (l_last list) entry else mem);
           list = list\<lparr>l_last := entry, l_count := l_count list + 1\<rparr>;
           list = (if l_first list = NULL then list\<lparr>l_first := entry\<rparr> else list)
       in Inr (list\<lparr>l_internalLock := spinlock_unlock lck\<rparr>, mem))"

definition list_insertFront :: "list_t \<Rightarrow> lmem \<Rightarrow> ptr \<Rightarrow> (list_t \<times> lmem) result" where
  "list_insertFront list mem entry =
     bind_res (spinlock_lock (l_internalLock list)) (\<lambda>lck.
       let list = list\<lparr>l_internalLock := lck\<rparr>;
           mem = mem_write mem (l_offsetNext list) entry (l_first list);
           mem = mem_write mem (l_offsetPrev list) entry NULL;
           mem = (if l_first list \<noteq> NULL
                  then mem_write mem (l_offsetPrev list) (l_first list) entry else mem);
           list = list\<lparr>l_first := entry, l_count := l_count list + 1\<rparr>;
           list = (if l_last list = NULL then list\<lparr>l_last := entry\<rparr> else list)
       in Inr (list\<lparr>l_internalLock := spinlock_unlock lck\<rparr>, mem))"

text \<open>
  The common part of \<^verbatim>\<open>list_addBack\<close> and \<^verbatim>\<open>list_addFront\<close>: \<open>entry\<close> is the block the allocator
  returned (\<open>NULL\<close> if it failed), which is zeroed and handed to the fill callback. When the callback
  refuses, the block is released and the internal lock is unlocked.
\<close>

definition list_addWith ::
  "(list_t \<Rightarrow> lmem \<Rightarrow> ptr \<Rightarrow> (list_t \<times> lmem) result) \<Rightarrow> list_t \<Rightarrow> lmem \<Rightarrow> ptr \<Rightarrow>
    (ptr \<times> list_t \<times> lmem) result" where
  "list_addWith ins list mem entry =
     (if entry \<noteq> NULL then
        (let mem = (\<lambda>off. (mem off)(entry := 0));
             (filled, mem) = (case l_fillEntry list of None \<Rightarrow> (True, mem) | Some fill \<Rightarrow> fill entry mem)
         in if \<not> filled
            then Inr (NULL, list\<lparr>l_internalLock := spinlock_unlock (l_internalLock list)\<rparr>, mem)
            else bind_res (ins list mem entry) (\<lambda>(list, mem). Inr (entry, list, mem)))
      else Inr (NULL, list, mem))"

definition list_addBack :: "list_t \<Rightarrow> lmem \<Rightarrow> ptr \<Rightarrow> (ptr \<times> list_t \<times> lmem) result" where
  "list_addBack = list_addWith list_insertBack"

definition list_addFront :: "list_t \<Rightarrow> lmem \<Rightarrow> ptr \<Rightarrow> (ptr \<times> list_t \<times> lmem) result" where
  "list_addFront = list_addWith list_insertFront"

definition list_removeSoft :: "list_t \<Rightarrow> lmem \<Rightarrow> ptr \<Rightarrow> (list_t \<times> lmem) result" where
  "list_removeSoft list mem entry =
     bind_res (spinlock_lock (l_internalLock list)) (\<lambda>lck.
       let list = list\<lparr>l_internalLock := lck\<rparr>;
           next = list_accessNext list mem entry;
           prev = list_accessPrev list mem entry;
           mem = (if prev \<noteq> NULL then mem_write mem (l_offsetNext list) prev next else mem);
           mem = (if next \<noteq> NULL then mem_write mem (l_offsetPrev list) next prev else mem);
           list = (if l_first list = entry then list\<lparr>l_first := next\<rparr> else list);
           list = (if l_last list \<noteq> NULL then list\<lparr>l_last := prev\<rparr> else list);
           list = list\<lparr>l_count := l_count list - 1\<rparr>
       in Inr (list\<lparr>l_internalLock := spinlock_unlock lck\<rparr>, mem))"

text \<open>Besides the list and the links, the entry that is released.\<close>

definition list_remove :: "list_t \<Rightarrow> lmem \<Rightarrow> ptr \<Rightarrow> (list_t \<times> lmem \<times> ptr) result" where
  "list_remove list mem entry =
     bind_res (list_removeSoft list mem entry) (\<lambda>(list, mem). Inr (list, mem, entry))"

section \<open>The sequence a list represents\<close>

text \<open>\<open>seg f p xs q\<close>: following \<open>f\<close> from \<open>p\<close> visits \<open>xs\<close> and arrives at \<open>q\<close>.\<close>

fun seg :: "(ptr \<Rightarrow> ptr) \<Rightarrow> ptr \<Rightarrow> ptr list \<Rightarrow> ptr \<Rightarrow> bool" where
  "seg f p [] q \<longleftrightarrow> p = q"
| "seg f p (x # xs) q \<longleftrightarrow> p = x \<and> x \<noteq> NULL \<and> seg f (f x) xs q"

lemma seg_append: "seg f p (xs @ ys) q \<longleftrightarrow> (\<exists>r. seg f p xs r \<and> seg f r ys q)"
  by (induction xs arbitrary: p) auto

lemma seg_cong: "(\<And>x. x \<in> set xs \<Longrightarrow> f x = g x) \<Longrightarrow> seg f p xs q \<longleftrightarrow> seg g p xs q"
  by (induction xs arbitrary: p) auto

lemma seg_update_other [simp]: "x \<notin> set xs \<Longrightarrow> seg (f(x := v)) p xs q \<longleftrightarrow> seg f p xs q"
  by (rule seg_cong) auto

lemma seg_not_NULL: "seg f p xs q \<Longrightarrow> NULL \<notin> set xs"
  by (induction xs arbitrary: p) auto

lemma seg_snoc: "seg f p (xs @ [x]) q \<longleftrightarrow> seg f p xs x \<and> x \<noteq> NULL \<and> f x = q"
  by (auto simp: seg_append)

lemma seg_snoc2:
  "seg f p (xs @ [x, y]) q \<longleftrightarrow> seg f p xs x \<and> x \<noteq> NULL \<and> f x = y \<and> y \<noteq> NULL \<and> f y = q"
  by (auto simp: seg_append)

lemma seg_first: "seg f p xs NULL \<Longrightarrow> p = (if xs = [] then NULL else hd xs)"
  by (cases xs) auto

text \<open>Redirecting the last link of a segment.\<close>

lemma seg_redirect:
  "seg f p (xs @ [x]) q \<Longrightarrow> x \<notin> set xs \<Longrightarrow> seg (f(x := v)) p (xs @ [x]) v"
  by (simp add: seg_snoc)

text \<open>
  \<open>list_fwd\<close>: the entries a walk from \<^verbatim>\<open>first\<close> along the next links visits; \<open>list_rep\<close>: the list
  represents \<open>xs\<close> in both directions and counts its entries.
\<close>

definition list_fwd :: "list_t \<Rightarrow> lmem \<Rightarrow> ptr list \<Rightarrow> bool" where
  "list_fwd list mem xs \<longleftrightarrow> distinct xs \<and> seg (mem (l_offsetNext list)) (l_first list) xs NULL"

definition list_bwd :: "list_t \<Rightarrow> lmem \<Rightarrow> ptr list \<Rightarrow> bool" where
  "list_bwd list mem xs \<longleftrightarrow> seg (mem (l_offsetPrev list)) (l_last list) (rev xs) NULL"

definition list_rep :: "list_t \<times> lmem \<Rightarrow> ptr list \<Rightarrow> bool" where
  "list_rep = (\<lambda>(list, mem) xs. list_fwd list mem xs \<and> list_bwd list mem xs \<and>
     l_count list = of_nat (length xs) \<and> l_internalLock list = 0 \<and> l_offsetNext list \<noteq> l_offsetPrev list)"

lemma list_rep_first: "list_rep (list, mem) xs \<Longrightarrow> l_first list = (if xs = [] then NULL else hd xs)"
  by (auto simp: list_rep_def list_fwd_def dest: seg_first)

lemma list_rep_last: "list_rep (list, mem) xs \<Longrightarrow> l_last list = (if xs = [] then NULL else last xs)"
  by (auto simp: list_rep_def list_bwd_def hd_rev dest!: seg_first)

lemma list_rep_not_NULL: "list_rep (list, mem) xs \<Longrightarrow> NULL \<notin> set xs"
  by (auto simp: list_rep_def list_fwd_def dest: seg_not_NULL)

lemma list_rep_ends:
  assumes "list_rep (list, mem) xs" "xs \<noteq> []"
  shows "l_first list = hd xs" "l_first list \<noteq> NULL" "l_last list = last xs" "l_last list \<noteq> NULL"
  using list_rep_first[OF assms(1)] list_rep_last[OF assms(1)] list_rep_not_NULL[OF assms(1)] assms(2)
    hd_in_set last_in_set by metis+

lemma list_create_rep: "offsetNext \<noteq> offsetPrev \<Longrightarrow> list_create True sz offsetNext offsetPrev = Some list \<Longrightarrow> list_rep (list, mem) []"
  by (auto simp: list_create_def list_rep_def list_fwd_def list_bwd_def)

lemma list_insertBack_rep:
  assumes rep: "list_rep (list, mem) xs" and e: "entry \<noteq> NULL" "entry \<notin> set xs"
  shows "\<exists>s. list_insertBack list mem entry = Inr s \<and> list_rep s (xs @ [entry])"
proof (cases xs rule: rev_cases)
  case Nil
  then show ?thesis
    using rep e list_rep_first[OF rep] list_rep_last[OF rep]
    by (auto simp: list_insertBack_def Let_def list_rep_def list_fwd_def list_bwd_def mem_write_def)
next
  case (snoc ys y)
  with list_rep_ends[OF rep] list_rep_not_NULL[OF rep] show ?thesis
    using rep e
    by (auto simp: list_insertBack_def Let_def list_rep_def list_fwd_def list_bwd_def mem_write_def
        seg_snoc seg_snoc2 hd_append)
qed

lemma list_insertFront_rep:
  assumes rep: "list_rep (list, mem) xs" and e: "entry \<noteq> NULL" "entry \<notin> set xs"
  shows "\<exists>s. list_insertFront list mem entry = Inr s \<and> list_rep s (entry # xs)"
proof (cases xs)
  case Nil
  then show ?thesis
    using rep e list_rep_first[OF rep] list_rep_last[OF rep]
    by (auto simp: list_insertFront_def Let_def list_rep_def list_fwd_def list_bwd_def mem_write_def)
next
  case (Cons y ys)
  with list_rep_ends[OF rep] list_rep_not_NULL[OF rep] show ?thesis
    using rep e
    by (auto simp: list_insertFront_def Let_def list_rep_def list_fwd_def list_bwd_def mem_write_def
        seg_snoc seg_snoc2)
qed

text \<open>
  Removing an entry: the forward walk is right, and so are the previous links, but \<^verbatim>\<open>last\<close> becomes
  the predecessor of the removed entry wherever that was.
\<close>

definition last_or_NULL :: "ptr list \<Rightarrow> ptr" where
  "last_or_NULL xs = (if xs = [] then NULL else last xs)"

lemma last_or_NULL_simps [simp]: "last_or_NULL [] = NULL" "last_or_NULL (xs @ [x]) = x"
  by (simp_all add: last_or_NULL_def)

definition removed :: "list_t \<Rightarrow> list_t \<times> lmem \<Rightarrow> ptr list \<Rightarrow> ptr list \<Rightarrow> bool" where
  "removed list = (\<lambda>(list', mem') as bs. list_fwd list' mem' (as @ bs) \<and>
     seg (mem' (l_offsetPrev list)) (last_or_NULL (as @ bs)) (rev (as @ bs)) NULL \<and>
     l_last list' = last_or_NULL as \<and> l_count list' = of_nat (length (as @ bs)) \<and>
     l_internalLock list' = 0 \<and> l_offsetNext list' = l_offsetNext list \<and>
     l_offsetPrev list' = l_offsetPrev list)"

lemma list_removeSoft_removed:
  assumes rep: "list_rep (list, mem) (as @ entry # bs)"
  shows "\<exists>s. list_removeSoft list mem entry = Inr s \<and> removed list s as bs"
proof (cases as rule: rev_cases)
  case Nil
  then show ?thesis
    using rep list_rep_ends[OF rep] list_rep_not_NULL[OF rep]
    by (cases bs) (auto simp: list_removeSoft_def Let_def list_rep_def list_fwd_def list_bwd_def
        mem_write_def removed_def list_accessNext_def list_accessPrev_def seg_snoc seg_snoc2 last_or_NULL_def)
next
  case (snoc as' a)
  have "hd (as @ entry # bs) \<in> set as" using snoc by (cases as') auto
  then have ne: "l_first list \<noteq> entry"
    using rep list_rep_ends(1)[OF rep] by (auto simp: list_rep_def list_fwd_def)
  show ?thesis
  proof (cases bs)
    case Nil
    with snoc ne show ?thesis
      using rep list_rep_ends[OF rep] list_rep_not_NULL[OF rep]
      by (auto simp: list_removeSoft_def Let_def list_rep_def list_fwd_def list_bwd_def mem_write_def
          removed_def list_accessNext_def list_accessPrev_def seg_append last_or_NULL_def hd_append)
  next
    case (Cons b bs')
    with snoc ne show ?thesis
      using rep list_rep_ends[OF rep] list_rep_not_NULL[OF rep]
      by (auto simp: list_removeSoft_def Let_def list_rep_def list_fwd_def list_bwd_def mem_write_def
          removed_def list_accessNext_def list_accessPrev_def seg_append last_or_NULL_def hd_append)
  qed
qed

lemma list_removeSoft_last_rep:
  assumes "list_rep (list, mem) (as @ [entry])"
  shows "\<exists>s. list_removeSoft list mem entry = Inr s \<and> list_rep s as"
proof -
  obtain list' mem' where r: "list_removeSoft list mem entry = Inr (list', mem')"
    "removed list (list', mem') as []"
    using list_removeSoft_removed[of list mem as entry "[]"] assms by auto
  then have "list_rep (list', mem') as"
    using assms by (auto simp: removed_def list_rep_def list_bwd_def)
  with r(1) show ?thesis by blast
qed

text \<open>Appending after the removal of an inner entry \<open>entry\<close> with successors \<open>bs\<close>.\<close>

lemma list_insertBack_removed:
  assumes "removed list (list', mem') as bs" "bs \<noteq> []" "d \<noteq> NULL" "d \<notin> set (as @ bs)"
    "l_offsetNext list \<noteq> l_offsetPrev list"
  shows "\<exists>list2 mem2. list_insertBack list' mem' d = Inr (list2, mem2) \<and>
           list_fwd list2 mem2 (if as = [] then bs else as @ [d]) \<and>
           l_count list2 = of_nat (Suc (length (as @ bs)))"
proof (cases as rule: rev_cases)
  case Nil
  then have "l_first list' = hd bs" "hd bs \<noteq> NULL"
    using assms(1,2) by (cases bs; simp add: removed_def list_fwd_def)+
  with Nil show ?thesis
    using assms by (auto simp: list_insertBack_def Let_def removed_def list_fwd_def mem_write_def)
next
  case (snoc as' a)
  have a: "a \<noteq> NULL" "l_last list' = a" and f: "seg (mem' (l_offsetNext list)) (l_first list') as' a"
    using assms(1) snoc by (auto simp: removed_def list_fwd_def seg_append)
  have "l_first list' \<noteq> NULL" using f a by (cases as') auto
  with snoc a f show ?thesis
    using assms by (auto simp: list_insertBack_def Let_def removed_def list_fwd_def mem_write_def seg_snoc2)
qed

lemma list_destroyFrom_seg:
  "seg (mem (l_offsetNext list)) p xs NULL \<Longrightarrow> list_destroyFrom list mem p = Some xs"
proof (induction xs arbitrary: p)
  case Nil
  then show ?case by (subst list_destroyFrom.simps) simp
next
  case (Cons x xs)
  then show ?case by (subst list_destroyFrom.simps) (simp add: list_accessNext_def)
qed

interpretation klist: growing_sequence "\<lambda>(list, mem). list_insertBack list mem" list_rep
    "\<lambda>xs entry. entry \<noteq> NULL \<and> entry \<notin> set xs"
  by unfold_locales (auto dest: list_insertBack_rep)

section \<open>Properties\<close>

text \<open>
  C31. Inserting at the back or the front of a well-formed list returns, keeps the list well-formed in
  both directions and appends or prepends the entry; destroying it releases each entry once, in order.
\<close>

theorem list_insert_refines:
  assumes "list_rep (list, mem) xs" "entry \<noteq> NULL" "entry \<notin> set xs"
  shows "(\<exists>s. list_insertBack list mem entry = Inr s \<and> list_rep s (xs @ [entry])) \<and>
         (\<exists>s. list_insertFront list mem entry = Inr s \<and> list_rep s (entry # xs)) \<and>
         list_destroy list mem = Some xs"
  using list_insertBack_rep[OF assms] list_insertFront_rep[OF assms] list_destroyFrom_seg assms(1)
  by (simp add: list_destroy_def list_rep_def list_fwd_def)

definition example_list :: list_t where
  "example_list = the (list_create True 16 0 4)"

lemma example_list_rep: "list_rep (example_list, \<lambda>_ _. 0) []"
  by (rule list_create_rep[of 0 4 16]) (simp_all add: example_list_def list_create_def)

theorem list_insert_refines_witness:
  "\<exists>s. list_insertBack example_list (\<lambda>_ _. 0) 0x1000 = Inr s \<and> list_rep s [0x1000]"
  using list_insert_refines[OF example_list_rep, of "0x1000"] by simp

text \<open>
  Removing the last entry of a well-formed list keeps it well-formed. Removing an entry with
  successors keeps the forward walk and the count right, but leaves \<^verbatim>\<open>last\<close> on the predecessor of
  the removed entry.
\<close>

theorem list_removeSoft_refines:
  assumes "list_rep (list, mem) (as @ entry # bs)"
  shows "\<exists>list' mem'. list_removeSoft list mem entry = Inr (list', mem') \<and>
           list_fwd list' mem' (as @ bs) \<and> l_count list' = of_nat (length (as @ bs)) \<and>
           l_last list' = last_or_NULL as \<and> (bs = [] \<longrightarrow> list_rep (list', mem') as)"
proof -
  obtain list' mem' where r: "list_removeSoft list mem entry = Inr (list', mem')"
    "removed list (list', mem') as bs"
    using list_removeSoft_removed[OF assms] by fastforce
  moreover have "bs = [] \<longrightarrow> list_rep (list', mem') as"
    using list_removeSoft_last_rep[of list mem as entry] assms r(1) by auto
  ultimately show ?thesis by (simp add: removed_def)
qed

text \<open>A list of the three entries 0x10, 0x20 and 0x30.\<close>

definition example_list3 :: list_t where
  "example_list3 = example_list\<lparr>l_first := 0x10, l_last := 0x30, l_count := 3\<rparr>"

definition example_mem3 :: lmem where
  "example_mem3 = (\<lambda>_ _. 0)(0 := (\<lambda>_. 0)(0x10 := 0x20, 0x20 := 0x30), 4 := (\<lambda>_. 0)(0x20 := 0x10, 0x30 := 0x20))"

lemma example_list3_rep: "list_rep (example_list3, example_mem3) [0x10, 0x20, 0x30]"
  by (simp add: list_rep_def list_fwd_def list_bwd_def example_list3_def example_list_def list_create_def example_mem3_def)

theorem list_removeSoft_refines_witness:
  "\<exists>list' mem'. list_removeSoft example_list3 example_mem3 0x20 = Inr (list', mem') \<and>
     list_fwd list' mem' [0x10, 0x30] \<and> l_last list' = 0x10"
  using list_removeSoft_refines[of example_list3 example_mem3 "[0x10]" "0x20" "[0x30]"] example_list3_rep
  by (auto simp: last_or_NULL_def)

text \<open>
  An entry appended after an inner entry has been removed destroys the list: if the removed entry
  was the first one, the new entry is not reachable, otherwise all successors of the removed entry
  are lost; the count includes the lost entries.
\<close>

theorem list_append_after_remove_loses:
  assumes "list_rep (list, mem) (as @ entry # bs)" "bs \<noteq> []" "d \<noteq> NULL" "d \<notin> set (as @ bs)"
  shows "\<exists>list' mem'. bind_res (list_removeSoft list mem entry) (\<lambda>(list, mem). list_insertBack list mem d) =
             Inr (list', mem') \<and>
           list_fwd list' mem' (if as = [] then bs else as @ [d]) \<and>
           l_count list' = of_nat (Suc (length (as @ bs)))"
proof -
  obtain list' mem' where r: "list_removeSoft list mem entry = Inr (list', mem')"
    "removed list (list', mem') as bs"
    using list_removeSoft_removed[OF assms(1)] by fastforce
  then show ?thesis
    using list_insertBack_removed[OF r(2) assms(2-4)] assms(1) by (auto simp: list_rep_def)
qed

theorem list_append_after_remove_loses_witness:
  "\<exists>list' mem'. bind_res (list_removeSoft example_list3 example_mem3 0x20) (\<lambda>(list, mem). list_insertBack list mem 0x40) =
     Inr (list', mem') \<and> list_fwd list' mem' [0x10, 0x40] \<and> l_count list' = 3"
  using list_append_after_remove_loses[of example_list3 example_mem3 "[0x10]" "0x20" "[0x30]" "0x40"] example_list3_rep
  by simp

text \<open>
  When the fill callback refuses a new entry, \<^verbatim>\<open>list_addBack\<close> and \<^verbatim>\<open>list_addFront\<close> release the
  internal lock although they do not hold it: a lock held by somebody else is free afterwards.
\<close>

theorem list_add_breaks_lock:
  assumes "entry \<noteq> NULL" "l_fillEntry list = Some fill" "\<not> fst (fill entry (\<lambda>off. (mem off)(entry := 0)))"
    and "add \<in> {list_addBack, list_addFront}" "l_internalLock list = 1"
  shows "\<exists>list' mem'. add list mem entry = Inr (NULL, list', mem') \<and> l_internalLock list' = 0"
  using assms by (auto simp: list_addBack_def list_addFront_def list_addWith_def split: prod.splits)

theorem list_add_breaks_lock_witness:
  "\<exists>list' mem'. list_addFront (example_list\<lparr>l_fillEntry := Some (\<lambda>_ mem. (False, mem)), l_internalLock := 1\<rparr>)
     (\<lambda>_ _. 0) 0x1000 = Inr (NULL, list', mem') \<and> l_internalLock list' = 0"
  by (rule list_add_breaks_lock[where fill = "\<lambda>_ mem. (False, mem)" and add = list_addFront]) simp_all

text \<open>
  Appending distinct new entries one after the other to a well-formed list gives the
  concatenation.
\<close>

theorem list_insertBack_all:
  assumes "list_rep s xs" "distinct (xs @ ys)" "NULL \<notin> set ys"
  shows "\<exists>s'. fold_res (\<lambda>(list, mem). list_insertBack list mem) s ys = Inr s' \<and> list_rep s' (xs @ ys)"
  by (rule klist.add_all[OF assms(1)]) (use assms(2,3) in auto)

theorem list_insertBack_all_witness:
  "\<exists>s'. fold_res (\<lambda>(list, mem). list_insertBack list mem) (example_list, \<lambda>_ _. 0) [0x30, 0x10, 0x20] = Inr s' \<and>
     list_rep s' [0x30, 0x10, 0x20]"
  using list_insertBack_all[OF example_list_rep, of "[0x30, 0x10, 0x20]"] by simp

end
