(* ===== verification/Iterator.thy ===== *)
theory Iterator
  imports Prelude Interfaces
begin

text \<open>
  \<^verbatim>\<open>src/sys/container/iterator.c\<close>: iterators that fetch up to ten objects at a time through a callback
  of the container. The locale \<open>fetcher\<close> states what a callback promises; from it the theory
  derives that the iterator delivers the container's objects one by one and then \<open>NULL\<close>.
\<close>

section \<open>Model\<close>

definition kIteratorMaxObjects :: u32 where "kIteratorMaxObjects = 10"

text \<open>
  The callback sees what \<^verbatim>\<open>data\<close> points to, the \<^verbatim>\<open>custom\<close> words, the object buffer and the maximum;
  it returns the new data, words and buffer and the number of objects fetched.
\<close>

type_synonym 'd iterator_fetch =
  "'d \<Rightarrow> u32 list \<Rightarrow> ptr list \<Rightarrow> u32 \<Rightarrow> ('d \<times> u32 list \<times> ptr list \<times> u32) result"

record 'd iterator_t =
  it_data :: 'd
  it_custom :: "u32 list"
  it_objects :: "ptr list"
  it_objectCount :: u32
  it_index :: u32
  it_objectsLeft :: u32
  it_fetch :: "'d iterator_fetch"

text \<open>\<open>objs\<close> is the uninitialised buffer of the new block, if the allocation succeeds.\<close>

definition iterator_create :: "ptr list option \<Rightarrow> 'd iterator_fetch \<Rightarrow> 'd \<Rightarrow> 'd iterator_t option" where
  "iterator_create objs fetch data =
     (case objs of None \<Rightarrow> None
      | Some objs \<Rightarrow> Some \<lparr> it_data = data, it_custom = replicate 5 0, it_objects = objs, it_objectCount = 0, it_index = 0,
          it_objectsLeft = 0, it_fetch = fetch \<rparr>)"

definition iterator_nextObject :: "'d iterator_t \<Rightarrow> (ptr \<times> 'd iterator_t) result" where
  "iterator_nextObject iterator =
     bind_res
       (if it_objectsLeft iterator = 0 then
          bind_res (it_fetch iterator (it_data iterator) (it_custom iterator) (it_objects iterator) kIteratorMaxObjects)
            (\<lambda>(data, custom, objects, n).
              Inr (iterator\<lparr>it_data := data, it_custom := custom, it_objects := objects, it_objectsLeft := n, it_index := 0\<rparr>))
        else Inr iterator) (\<lambda>iterator.
     if it_objectsLeft iterator = 0 then Inr (NULL, iterator)
     else
       bind_res (read_cell (it_objects iterator) (unat (it_index iterator))) (\<lambda>object.
       Inr (object, iterator\<lparr>it_objectsLeft := it_objectsLeft iterator - 1,
                             it_index := it_index iterator + 1\<rparr>)))"

text \<open>The first \<open>n\<close> objects a client sees.\<close>

fun iterator_take :: "nat \<Rightarrow> 'd iterator_t \<Rightarrow> (ptr list \<times> 'd iterator_t) result" where
  "iterator_take 0 iterator = Inr ([], iterator)"
| "iterator_take (Suc n) iterator =
     bind_res (iterator_nextObject iterator) (\<lambda>(object, iterator).
     bind_res (iterator_take n iterator) (\<lambda>(objects, iterator). Inr (object # objects, iterator)))"

section \<open>The contract of a fetch callback\<close>

text \<open>
  \<open>left d c ys\<close>: with the data \<open>d\<close> and the words \<open>c\<close> the objects \<open>ys\<close> are still to come. A fetch delivers the first
  ten of them at the start of the buffer.
\<close>

locale fetcher =
  fixes fetch :: "'d iterator_fetch"
    and left :: "'d \<Rightarrow> u32 list \<Rightarrow> ptr list \<Rightarrow> bool"
  assumes fetch_law: "left d c ys \<Longrightarrow> length objs = 10 \<Longrightarrow>
      \<exists>d' c' objs' n. fetch d c objs kIteratorMaxObjects = Inr (d', c', objs', n) \<and> length objs' = 10 \<and>
        unat n = min 10 (length ys) \<and> take (unat n) objs' = take (unat n) ys \<and> left d' c' (drop (unat n) ys)"
begin

text \<open>The iterator still has to deliver \<open>ys\<close>: what is left in the buffer, and what the callback has.\<close>

definition pending :: "'d iterator_t \<Rightarrow> ptr list \<Rightarrow> bool" where
  "pending it ys \<longleftrightarrow> it_fetch it = fetch \<and> length (it_objects it) = 10 \<and>
     unat (it_index it) + unat (it_objectsLeft it) \<le> 10 \<and>
     (\<exists>zs. ys = take (unat (it_objectsLeft it)) (drop (unat (it_index it)) (it_objects it)) @ zs \<and>
           left (it_data it) (it_custom it) zs)"

lemma pending_create:
  "left d (replicate 5 0) ys \<Longrightarrow> length objs = 10 \<Longrightarrow> iterator_create (Some objs) fetch d = Some it \<Longrightarrow> pending it ys"
  by (auto simp: iterator_create_def pending_def)

text \<open>With something in the buffer, the next object is the first of it.\<close>

lemma next_buffered:
  assumes p: "pending it ys" and l: "it_objectsLeft it \<noteq> 0"
  shows "\<exists>it'. iterator_nextObject it = Inr (hd ys, it') \<and> pending it' (tl ys) \<and> ys \<noteq> []"
proof -
  let ?i = "unat (it_index it)" and ?n = "unat (it_objectsLeft it)"
  obtain zs where zs: "ys = take ?n (drop ?i (it_objects it)) @ zs" "left (it_data it) (it_custom it) zs"
    using p by (auto simp: pending_def)
  have n: "0 < ?n" using l by (simp add: unat_gt_0)
  have b: "?i + ?n \<le> 10" "length (it_objects it) = 10" using p by (auto simp: pending_def)
  have dr: "drop ?i (it_objects it) = it_objects it ! ?i # drop (Suc ?i) (it_objects it)"
    using b n by (intro Cons_nth_drop_Suc[symmetric]) simp
  obtain m where m: "?n = Suc m" using n by (cases ?n) auto
  have ys: "ys = it_objects it ! ?i # (take m (drop (Suc ?i) (it_objects it)) @ zs)"
    using zs(1) dr m by simp
  have u: "unat (it_objectsLeft it - 1) = m" "unat (it_index it + 1) = Suc ?i"
    using m n unat_pred_pos[of "it_objectsLeft it"] unat_add_no_wrap[of "it_index it" 1] b by auto
  show ?thesis
    using ys u b p l n m zs(2) by (auto simp: iterator_nextObject_def pending_def)
qed

lemma next_pending:
  assumes p: "pending it ys"
  shows "\<exists>it'. iterator_nextObject it = Inr (if ys = [] then NULL else hd ys, it') \<and> pending it' (tl ys)"
proof (cases "it_objectsLeft it = 0")
  case False
  then show ?thesis using next_buffered[OF p] by auto
next
  case True
  then have "left (it_data it) (it_custom it) ys" "length (it_objects it) = 10" "it_fetch it = fetch"
    using p by (auto simp: pending_def)
  then obtain d c objs n where f: "fetch (it_data it) (it_custom it) (it_objects it) kIteratorMaxObjects = Inr (d, c, objs, n)"
    "length objs = 10" "unat n = min 10 (length ys)" "take (unat n) objs = take (unat n) ys" "left d c (drop (unat n) ys)"
    using fetch_law by blast
  let ?it = "it\<lparr>it_data := d, it_custom := c, it_objects := objs, it_objectsLeft := n, it_index := 0\<rparr>"
  have p1: "pending ?it ys" using f \<open>it_fetch it = fetch\<close> by (auto simp: pending_def intro!: exI[of _ "drop (unat n) ys"])
  show ?thesis
  proof (cases "n = 0")
    case True
    with f have "ys = []" by (cases ys) auto
    with True f p1 \<open>it_objectsLeft it = 0\<close> \<open>it_fetch it = fetch\<close> show ?thesis
      by (auto simp: iterator_nextObject_def)
  next
    case False
    have "iterator_nextObject it = iterator_nextObject ?it"
      using False f \<open>it_objectsLeft it = 0\<close> \<open>it_fetch it = fetch\<close> by (simp add: iterator_nextObject_def)
    then show ?thesis using next_buffered[OF p1] False by auto
  qed
qed

text \<open>A client that asks \<open>n\<close> times gets the first \<open>n\<close> objects, padded with \<open>NULL\<close>.\<close>

lemma take_pending:
  "pending it ys \<Longrightarrow> \<exists>it'. iterator_take n it = Inr (take n ys @ replicate (n - length ys) NULL, it')"
proof (induction n arbitrary: it ys)
  case (Suc n)
  obtain it1 where it1: "iterator_nextObject it = Inr (if ys = [] then NULL else hd ys, it1)" "pending it1 (tl ys)"
    using next_pending[OF Suc.prems] by blast
  from Suc.IH[OF it1(2)] obtain it2 where
    "iterator_take n it1 = Inr (take n (tl ys) @ replicate (n - length (tl ys)) NULL, it2)" by blast
  with it1(1) show ?case by (cases ys) auto
qed simp

end

end
