(* ===== verification/KArray.thy ===== *)
theory KArray
  imports Iterator
begin

text \<open>
  \<^verbatim>\<open>src/sys/container/array.c\<close> without its sorting (theory \<open>ArraySort\<close>) and
  \<^verbatim>\<open>src/sys/container/iterator.c\<close>: the dynamic array, its growth and shrinking, and the batched
  iterator over it. The theory shows that every operation refines the operation on lists and stays
  inside the data block.
\<close>

section \<open>Model\<close>

text \<open>
  The data block is a list of cells; after a failed allocation there is none and the list is empty.
  An allocator takes a size in bytes and returns a block of that many bytes, or nothing.
\<close>

record array_t =
  a_count :: u32
  a_space :: u32
  a_allocationStep :: u32
  a_data :: "ptr list"
  a_lock :: spinlock

type_synonym block_alloc = "u32 \<Rightarrow> ptr list option"

definition block_or_NULL :: "ptr list option \<Rightarrow> ptr list" where
  "block_or_NULL b = (case b of None \<Rightarrow> [] | Some d \<Rightarrow> d)"

text \<open>\<^verbatim>\<open>memcpy\<close> of the first \<open>n\<close> cells.\<close>

definition copy_cells :: "nat \<Rightarrow> ptr list \<Rightarrow> ptr list \<Rightarrow> ptr list result" where
  "copy_cells n src dst =
     (if n \<le> length src \<and> n \<le> length dst then Inr (take n src @ drop n dst) else Inl OutOfBounds)"

text \<open>\<open>ok\<close> is the allocation of the structure.\<close>

definition array_create :: "bool \<Rightarrow> block_alloc \<Rightarrow> array_t option" where
  "array_create ok halloc =
     (if ok then Some \<lparr> a_count = 0, a_space = 5, a_allocationStep = UINT32_MAX,
        a_data = block_or_NULL (halloc (5 * 4)), a_lock = SPINLOCK_INIT \<rparr> else None)"

definition array_copy :: "bool \<Rightarrow> block_alloc \<Rightarrow> array_t \<Rightarrow> array_t option result" where
  "array_copy ok halloc source =
     (if ok then
        bind_res (copy_cells (unat (a_count source * 4) div 4) (a_data source)
                    (block_or_NULL (halloc (a_space source * 4)))) (\<lambda>d.
        Inr (Some \<lparr> a_count = a_count source, a_space = a_space source,
          a_allocationStep = a_allocationStep source, a_data = d, a_lock = SPINLOCK_INIT \<rparr>))
      else Inr None)"

definition array_lock :: "array_t \<Rightarrow> array_t result" where
  "array_lock array = bind_res (spinlock_lock (a_lock array)) (\<lambda>l. Inr (array\<lparr>a_lock := l\<rparr>))"

definition array_unlock :: "array_t \<Rightarrow> array_t" where
  "array_unlock array = array\<lparr>a_lock := spinlock_unlock (a_lock array)\<rparr>"

definition array_resizeToNextStepIfNeeded :: "block_alloc \<Rightarrow> array_t \<Rightarrow> array_t result" where
  "array_resizeToNextStepIfNeeded halloc array =
     (if a_count array \<ge> a_space array - 1 then
        (let space = (if a_allocationStep array \<noteq> UINT32_MAX
                      then a_space array + a_allocationStep array else a_space array * 2)
         in case halloc (space * 4) of
              Some data \<Rightarrow>
                bind_res (copy_cells (unat (a_count array * 4) div 4) (a_data array) data) (\<lambda>data.
                Inr (array\<lparr>a_space := space, a_data := data\<rparr>))
            | None \<Rightarrow> Inl KernelPanic)
      else Inr array)"

definition array_addObject :: "block_alloc \<Rightarrow> array_t \<Rightarrow> ptr \<Rightarrow> array_t result" where
  "array_addObject halloc array object =
     bind_res (array_resizeToNextStepIfNeeded halloc array) (\<lambda>array.
     bind_res (write_cell (a_data array) (unat (a_count array)) object) (\<lambda>data.
     Inr (array\<lparr>a_data := data, a_count := a_count array + 1\<rparr>)))"

text \<open>The loops that move the cells behind an index up and down by one.\<close>

function array_shiftUp :: "ptr list \<Rightarrow> u32 \<Rightarrow> u32 \<Rightarrow> ptr list result" where
  "array_shiftUp data i index =
     (if i > index then
        bind_res (read_cell data (unat (i - 1))) (\<lambda>x.
        bind_res (write_cell data (unat i) x) (\<lambda>data.
        array_shiftUp data (i - 1) index))
      else Inr data)"
  by pat_completeness auto
termination
  by (relation "measure (\<lambda>(data, i, index). unat i)") (auto simp: word_less_nat_alt unat_pred_pos)

declare array_shiftUp.simps [simp del]

definition array_insertObject :: "block_alloc \<Rightarrow> array_t \<Rightarrow> ptr \<Rightarrow> u32 \<Rightarrow> array_t result" where
  "array_insertObject halloc array object index =
     bind_res (check Assertion (index < a_count array)) (\<lambda>_.
     bind_res (array_resizeToNextStepIfNeeded halloc array) (\<lambda>array.
     bind_res (array_shiftUp (a_data array) (a_count array) index) (\<lambda>data.
     bind_res (write_cell data (unat index) object) (\<lambda>data.
     Inr (array\<lparr>a_data := data, a_count := a_count array + 1\<rparr>)))))"

definition array_collapseIfNeeded :: "block_alloc \<Rightarrow> array_t \<Rightarrow> array_t result" where
  "array_collapseIfNeeded halloc array =
     (let space = (if a_allocationStep array = UINT32_MAX then a_space array div 2
                   else a_space array - a_allocationStep array);
          space = (if space > a_space array then a_count array + 5 else space)
      in if a_count array < space then
           (case halloc (space * 4) of
              Some data \<Rightarrow>
                bind_res (copy_cells (unat (a_count array * 4) div 4) (a_data array) data) (\<lambda>data.
                Inr (array\<lparr>a_space := space, a_data := data\<rparr>))
            | None \<Rightarrow> Inr array)
         else Inr array)"

function array_shiftDown :: "ptr list \<Rightarrow> u32 \<Rightarrow> u32 \<Rightarrow> u32 \<Rightarrow> ptr list result" where
  "array_shiftDown data i n index =
     (if i < n then
        bind_res (read_cell data (unat (i + index + 1))) (\<lambda>x.
        bind_res (write_cell data (unat (i + index)) x) (\<lambda>data.
        array_shiftDown data (i + 1) n index))
      else Inr data)"
  by pat_completeness auto
termination
  by (relation "measure (\<lambda>(data, i, n, index). unat n - unat i)")
    (auto simp: unat_Suc_no_wrap word_less_nat_alt diff_less_mono2)

declare array_shiftDown.simps [simp del]

definition array_removeObjectAtIndex :: "block_alloc \<Rightarrow> array_t \<Rightarrow> u32 \<Rightarrow> array_t result" where
  "array_removeObjectAtIndex halloc array index =
     bind_res (check Assertion (index < a_count array)) (\<lambda>_.
     bind_res (if index < a_count array - 1
               then array_shiftDown (a_data array) 0 (a_count array - index - 1) index
               else Inr (a_data array)) (\<lambda>data.
     array_collapseIfNeeded halloc (array\<lparr>a_data := data, a_count := a_count array - 1\<rparr>)))"

function array_indexFrom :: "array_t \<Rightarrow> ptr \<Rightarrow> u32 \<Rightarrow> u32 result" where
  "array_indexFrom array object i =
     (if i < a_count array then
        bind_res (read_cell (a_data array) (unat i)) (\<lambda>x.
        if x = object then Inr i else array_indexFrom array object (i + 1))
      else Inr UINT32_MAX)"
  by pat_completeness auto
termination
  by (relation "measure (\<lambda>(array, object, i). unat (a_count array) - unat i)")
    (auto simp: unat_Suc_no_wrap word_less_nat_alt diff_less_mono2)

declare array_indexFrom.simps [simp del]

definition array_indexOfObject :: "array_t \<Rightarrow> ptr \<Rightarrow> u32 result" where
  "array_indexOfObject array object = array_indexFrom array object 0"

definition array_removeObject :: "block_alloc \<Rightarrow> array_t \<Rightarrow> ptr \<Rightarrow> array_t result" where
  "array_removeObject halloc array object =
     bind_res (array_indexOfObject array object) (\<lambda>index. array_removeObjectAtIndex halloc array index)"

definition array_removeAllObjects :: "block_alloc \<Rightarrow> array_t \<Rightarrow> array_t" where
  "array_removeAllObjects halloc array =
     array\<lparr>a_count := 0, a_space := 5, a_data := block_or_NULL (halloc (5 * 4))\<rparr>"

definition array_objectAtIndex :: "array_t \<Rightarrow> u32 \<Rightarrow> ptr result" where
  "array_objectAtIndex array index =
     bind_res (check Assertion (index < a_count array)) (\<lambda>_. read_cell (a_data array) (unat index))"

section \<open>The list an array represents\<close>

definition good_alloc :: "block_alloc \<Rightarrow> bool" where
  "good_alloc halloc \<longleftrightarrow> (\<forall>n b. halloc n = Some b \<longrightarrow> length b = unat n div 4)"

definition array_rep :: "array_t \<Rightarrow> ptr list \<Rightarrow> bool" where
  "array_rep array xs \<longleftrightarrow>
     unat (a_count array) = length xs \<and> length (a_data array) = unat (a_space array) \<and>
     take (length xs) (a_data array) = xs \<and> length xs < unat (a_space array) \<and>
     unat (a_space array) < 2 ^ 30 \<and>
     (a_allocationStep array = UINT32_MAX \<or>
      0 < unat (a_allocationStep array) \<and> unat (a_allocationStep array) < 2 ^ 28)"

lemma unat_times4: "unat s < 2 ^ 30 \<Longrightarrow> unat (s * 4) div 4 = unat s" for s :: u32
  by (simp add: unat_word_ariths)

lemma copy_cells_rep:
  assumes "array_rep array xs" "length xs \<le> length d"
  shows "copy_cells (unat (a_count array * 4) div 4) (a_data array) d = Inr (xs @ drop (length xs) d)"
proof -
  have "unat (a_count array * 4) div 4 = length xs"
    using assms(1) unat_times4[of "a_count array"] by (simp add: array_rep_def)
  moreover have "length xs \<le> length (a_data array)" using assms(1) by (simp add: array_rep_def)
  ultimately show ?thesis using assms by (simp add: copy_cells_def array_rep_def)
qed

text \<open>Moving to a block of \<open>space\<close> cells keeps the list, if they are more than it has.\<close>

lemma array_rep_moved:
  assumes "array_rep array xs" "length d = unat space" "length xs < unat space" "unat space < 2 ^ 30"
  shows "array_rep (array\<lparr>a_space := space, a_data := xs @ drop (length xs) d\<rparr>) xs"
  using assms by (simp add: array_rep_def)

lemma good_alloc_length:
  "good_alloc halloc \<Longrightarrow> halloc (space * 4) = Some d \<Longrightarrow> unat space < 2 ^ 30 \<Longrightarrow> length d = unat space"
  by (simp add: good_alloc_def unat_times4)

text \<open>After the growth there is room for one more element, with a cell to spare.\<close>

lemma array_resize_rep:
  assumes rep: "array_rep array xs" and good: "good_alloc halloc" and small: "length xs < 2 ^ 28"
  shows "case array_resizeToNextStepIfNeeded halloc array of
           Inr array' \<Rightarrow> array_rep array' xs \<and> Suc (length xs) < unat (a_space array') \<and>
                          a_count array' = a_count array
         | Inl e \<Rightarrow> e = KernelPanic \<and> (\<exists>n. halloc n = None)"
proof (cases "a_count array \<ge> a_space array - 1")
  case True
  have pos: "0 < unat (a_space array)" and cnt: "unat (a_count array) = length xs"
    using rep by (auto simp: array_rep_def)
  have sp: "unat (a_space array) = Suc (length xs)"
    using True rep pos by (auto simp: word_le_nat_alt unat_pred_pos array_rep_def)
  define space where "space = (if a_allocationStep array \<noteq> UINT32_MAX
      then a_space array + a_allocationStep array else a_space array * 2)"
  have space: "Suc (length xs) < unat space" "unat space < 2 ^ 30"
    using rep sp small unat_add_no_wrap[of "a_space array" "a_allocationStep array"]
    by (auto simp: space_def array_rep_def unat_word_ariths)
  show ?thesis
  proof (cases "halloc (space * 4)")
    case None
    then show ?thesis using True by (auto simp: array_resizeToNextStepIfNeeded_def Let_def space_def)
  next
    case (Some d)
    have len: "length d = unat space" by (rule good_alloc_length[OF good Some space(2)])
    have le: "length xs \<le> length d" using len space by simp
    have "array_resizeToNextStepIfNeeded halloc array =
        Inr (array\<lparr>a_space := space, a_data := xs @ drop (length xs) d\<rparr>)"
      using True Some copy_cells_rep[OF rep le]
      by (simp add: array_resizeToNextStepIfNeeded_def Let_def space_def[symmetric] split: if_splits)
    then show ?thesis using array_rep_moved[OF rep len _ space(2)] space by simp
  qed
next
  case False
  then show ?thesis
    using rep by (auto simp: array_resizeToNextStepIfNeeded_def array_rep_def word_le_nat_alt unat_pred_pos)
qed

lemma array_collapse_rep:
  assumes rep: "array_rep array xs" and good: "good_alloc halloc"
  shows "\<exists>array'. array_collapseIfNeeded halloc array = Inr array' \<and> array_rep array' xs"
proof -
  define s1 where "s1 = (if a_allocationStep array = UINT32_MAX then a_space array div 2
      else a_space array - a_allocationStep array)"
  define space where "space = (if s1 > a_space array then a_count array + 5 else s1)"
  have bound: "unat space < 2 ^ 30"
  proof (cases "s1 > a_space array")
    case True
    have "\<not> s1 \<le> a_space array" using True by simp
    then have "a_allocationStep array \<noteq> UINT32_MAX" "a_space array < a_allocationStep array"
      by (auto simp: s1_def word_le_nat_alt unat_div word_less_nat_alt unat_sub_if' split: if_splits)
    then have "unat (a_count array) < 2 ^ 28" using rep by (auto simp: array_rep_def word_less_nat_alt)
    then show ?thesis using True unat_add_no_wrap[of "a_count array" 5] by (simp add: space_def)
  next
    case False
    then show ?thesis using rep by (auto simp: space_def array_rep_def word_less_nat_alt)
  qed
  show ?thesis
  proof (cases "a_count array < space")
    case True
    then have lt: "length xs < unat space" using rep by (simp add: array_rep_def word_less_nat_alt)
    show ?thesis
    proof (cases "halloc (space * 4)")
      case None
      then show ?thesis
        using True rep by (auto simp: array_collapseIfNeeded_def Let_def s1_def[symmetric] space_def[symmetric])
    next
      case (Some d)
      have len: "length d = unat space" by (rule good_alloc_length[OF good Some bound])
      have le: "length xs \<le> length d" using len lt by simp
      have "array_collapseIfNeeded halloc array =
          Inr (array\<lparr>a_space := space, a_data := xs @ drop (length xs) d\<rparr>)"
        using True Some copy_cells_rep[OF rep le]
        by (simp add: array_collapseIfNeeded_def Let_def s1_def[symmetric] space_def[symmetric])
      then show ?thesis using array_rep_moved[OF rep len lt bound] by simp
    qed
  next
    case False
    then show ?thesis
      using rep by (auto simp: array_collapseIfNeeded_def Let_def s1_def[symmetric] space_def[symmetric])
  qed
qed

section \<open>Moving cells\<close>

lemma array_shiftUp_cells:
  "unat i < length data \<Longrightarrow>
   \<exists>data'. array_shiftUp data i index = Inr data' \<and> length data' = length data \<and>
     (\<forall>k. data' ! k = (if unat index < k \<and> k \<le> unat i then data ! (k - 1) else data ! k))"
proof (induction data i index rule: array_shiftUp.induct)
  case (1 data i index)
  show ?case
  proof (cases "i > index")
    case True
    then have pred: "unat (i - 1) = unat i - 1" "0 < unat i" "unat index < unat i"
      by (auto simp: unat_pred_pos word_less_nat_alt)
    have "unat (i - 1) < length data" using 1(2) pred by simp
    then obtain data' where d: "array_shiftUp (data[unat i := data ! unat (i - 1)]) (i - 1) index = Inr data'"
      "length data' = length data"
      "\<forall>k. data' ! k = (if unat index < k \<and> k \<le> unat (i - 1)
        then data[unat i := data ! unat (i - 1)] ! (k - 1) else data[unat i := data ! unat (i - 1)] ! k)"
      using 1 True by (fastforce simp: write_cell_def)
    have "data' ! k = (if unat index < k \<and> k \<le> unat i then data ! (k - 1) else data ! k)" for k
      using d(3) pred 1(2) by (cases "k = unat i") (auto simp: nth_list_update)
    then show ?thesis
      using True 1(2) pred d(1,2) by (subst array_shiftUp.simps) simp
  next
    case False
    then show ?thesis by (subst array_shiftUp.simps) (auto simp: word_less_nat_alt)
  qed
qed

lemma array_shiftDown_cells:
  "unat index + unat n < length data \<Longrightarrow> length data \<le> 2 ^ 30 \<Longrightarrow> i \<le> n \<Longrightarrow>
   \<exists>data'. array_shiftDown data i n index = Inr data' \<and> length data' = length data \<and>
     (\<forall>k. data' ! k = (if unat index + unat i \<le> k \<and> k < unat index + unat n then data ! (k + 1) else data ! k))"
proof (induction data i n index rule: array_shiftDown.induct)
  case (1 data i n index)
  show ?case
  proof (cases "i < n")
    case True
    have si: "unat (i + 1) = Suc (unat i)" by (rule unat_Suc_no_wrap[OF True])
    have lt: "unat i < unat n" using True by (simp add: word_less_nat_alt)
    have u: "unat (i + index) = unat i + unat index"
      using 1(2,3) lt by (intro unat_add_no_wrap) simp
    have u1: "unat (i + index + 1) = Suc (unat i + unat index)"
      using unat_add_no_wrap[of "i + index" 1] u 1(2,3) lt by simp
    let ?d = "data[unat i + unat index := data ! Suc (unat i + unat index)]"
    have le: "i + 1 \<le> n" using si lt by (simp add: word_le_nat_alt)
    obtain data' where d: "array_shiftDown ?d (i + 1) n index = Inr data'" "length data' = length data"
      "\<forall>k. data' ! k = (if unat index + Suc (unat i) \<le> k \<and> k < unat index + unat n then ?d ! (k + 1) else ?d ! k)"
      using 1(1)[OF True, of "data ! Suc (unat i + unat index)" ?d] 1(2,3) u u1 lt le si
      by (auto simp: write_cell_def)
    have "data' ! k = (if unat index + unat i \<le> k \<and> k < unat index + unat n then data ! (k + 1) else data ! k)" for k
      using d(3) lt 1(2) by (cases "k = unat i + unat index") (auto simp: nth_list_update)
    then show ?thesis
      using True 1(2) u u1 lt d(1,2) by (subst array_shiftDown.simps) simp
  next
    case False
    then have "i = n" using 1(4) by simp
    then show ?thesis by (subst array_shiftDown.simps) auto
  qed
qed

lemma array_indexFrom_spec:
  assumes rep: "array_rep array xs"
  shows "unat i \<le> length xs \<Longrightarrow> x \<notin> set (take (unat i) xs) \<Longrightarrow>
    \<exists>r. array_indexFrom array x i = Inr r \<and>
        (if x \<in> set xs then unat r < length xs \<and> xs ! unat r = x \<and> x \<notin> set (take (unat r) xs)
         else r = UINT32_MAX)"
proof (induction "length xs - unat i" arbitrary: i)
  case 0
  then have "\<not> i < a_count array" "x \<notin> set xs" using rep by (auto simp: array_rep_def word_less_nat_alt)
  then show ?case by (subst array_indexFrom.simps) simp
next
  case (Suc n)
  have lt: "i < a_count array" "unat i < length xs"
    using Suc.hyps(2) rep by (auto simp: array_rep_def word_less_nat_alt)
  have si: "unat (i + 1) = Suc (unat i)" by (rule unat_Suc_no_wrap[OF lt(1)])
  have "take (length xs) (a_data array) ! unat i = xs ! unat i" using rep by (simp add: array_rep_def)
  then have rd: "read_cell (a_data array) (unat i) = Inr (xs ! unat i)"
    using rep lt by (auto simp: array_rep_def)
  show ?case
  proof (cases "xs ! unat i = x")
    case True
    then have "x \<in> set xs" using lt(2) by auto
    then show ?thesis using True lt rd Suc.prems by (subst array_indexFrom.simps) simp
  next
    case False
    then have "x \<notin> set (take (unat (i + 1)) xs)"
      using Suc.prems lt(2) by (simp add: si take_Suc_conv_app_nth)
    moreover have "n = length xs - unat (i + 1)" "unat (i + 1) \<le> length xs"
      using Suc.hyps(2) lt(2) si by auto
    ultimately show ?thesis
      using Suc.hyps(1)[of "i + 1"] False lt rd by (subst array_indexFrom.simps) simp
  qed
qed

section \<open>Operations on the list\<close>

lemma array_rep_data: "array_rep array xs \<Longrightarrow> k < length xs \<Longrightarrow> a_data array ! k = xs ! k"
  by (metis array_rep_def nth_take)

lemma array_rep_count: "array_rep array xs \<Longrightarrow> unat (a_count array) = length xs"
  by (simp add: array_rep_def)

text \<open>A block whose first cells are \<open>ys\<close>, with a new count.\<close>

lemma array_rep_update:
  assumes "array_rep array xs" "length d = length (a_data array)" "length ys < unat (a_space array)"
    "unat c = length ys" "\<And>k. k < length ys \<Longrightarrow> d ! k = ys ! k"
  shows "array_rep (array\<lparr>a_data := d, a_count := c\<rparr>) ys"
proof -
  have "length ys \<le> length d" using assms(1-3) by (simp add: array_rep_def)
  then have "take (length ys) d = ys" using assms(5) by (intro nth_equalityI) auto
  then show ?thesis using assms by (simp add: array_rep_def)
qed

lemma count_plus_1:
  assumes "array_rep array xs" "length xs < 2 ^ 28"
  shows "unat (a_count array + 1) = Suc (length xs)"
  using assms unat_add_no_wrap[of "a_count array" 1] by (simp add: array_rep_def)

lemma array_addObject_rep:
  assumes "array_rep array xs" "good_alloc halloc" "length xs < 2 ^ 28"
  shows "case array_addObject halloc array x of
           Inr array' \<Rightarrow> array_rep array' (xs @ [x])
         | Inl e \<Rightarrow> e = KernelPanic \<and> (\<exists>n. halloc n = None)"
proof (cases "array_resizeToNextStepIfNeeded halloc array")
  case (Inl e)
  then show ?thesis using array_resize_rep[OF assms] by (simp add: array_addObject_def)
next
  case (Inr array1)
  then have r: "array_rep array1 xs" "Suc (length xs) < unat (a_space array1)"
    using array_resize_rep[OF assms] by auto
  have "array_rep (array1\<lparr>a_data := (a_data array1)[length xs := x], a_count := a_count array1 + 1\<rparr>) (xs @ [x])"
    using r count_plus_1[OF r(1) assms(3)] array_rep_data[OF r(1)]
    by (intro array_rep_update[OF r(1)]) (auto simp: nth_append nth_list_update array_rep_def)
  then show ?thesis
    using Inr r by (simp add: array_addObject_def array_rep_def)
qed

lemma array_insertObject_rep:
  assumes "array_rep array xs" "good_alloc halloc" "length xs < 2 ^ 28" "unat index < length xs"
  shows "case array_insertObject halloc array x index of
           Inr array' \<Rightarrow> array_rep array' (take (unat index) xs @ x # drop (unat index) xs)
         | Inl e \<Rightarrow> e = KernelPanic \<and> (\<exists>n. halloc n = None)"
proof -
  have ix: "index < a_count array" using assms by (simp add: array_rep_def word_less_nat_alt)
  show ?thesis
  proof (cases "array_resizeToNextStepIfNeeded halloc array")
    case (Inl e)
    then show ?thesis using ix array_resize_rep[OF assms(1-3)] by (simp add: array_insertObject_def)
  next
    case (Inr array1)
    then have r: "array_rep array1 xs" "Suc (length xs) < unat (a_space array1)"
      using array_resize_rep[OF assms(1-3)] by auto
    have cnt: "unat (a_count array1) = length xs" by (rule array_rep_count[OF r(1)])
    obtain d where d: "array_shiftUp (a_data array1) (a_count array1) index = Inr d"
      "length d = length (a_data array1)"
      "\<forall>k. d ! k = (if unat index < k \<and> k \<le> length xs then a_data array1 ! (k - 1) else a_data array1 ! k)"
      using array_shiftUp_cells[of "a_count array1" "a_data array1" index] r cnt
      by (auto simp: array_rep_def)
    have "array_rep (array1\<lparr>a_data := d[unat index := x], a_count := a_count array1 + 1\<rparr>)
        (take (unat index) xs @ x # drop (unat index) xs)"
      using r count_plus_1[OF r(1) assms(3)] array_rep_data[OF r(1)] d(2,3) assms(4)
      by (intro array_rep_update[OF r(1)])
        (auto simp: nth_append nth_list_update nth_Cons array_rep_def split: nat.splits
          intro!: arg_cong[of _ _ "(!) xs"])
    then show ?thesis
      using ix Inr d r assms(4) by (simp add: array_insertObject_def array_rep_def)
  qed
qed

lemma count_minus_1:
  assumes "array_rep array xs" "xs \<noteq> []"
  shows "unat (a_count array - 1) = length xs - 1"
  using assms by (simp add: array_rep_def unat_pred_pos)

lemma array_removeObjectAtIndex_rep:
  assumes rep: "array_rep array xs" and good: "good_alloc halloc" and i: "unat index < length xs"
  shows "\<exists>array'. array_removeObjectAtIndex halloc array index = Inr array' \<and>
           array_rep array' (take (unat index) xs @ drop (Suc (unat index)) xs)"
proof -
  let ?ys = "take (unat index) xs @ drop (Suc (unat index)) xs"
  have cnt: "unat (a_count array) = length xs" by (rule array_rep_count[OF rep])
  have ix: "index < a_count array" using cnt i by (simp add: word_less_nat_alt)
  have c1: "unat (a_count array - 1) = length ?ys" using count_minus_1[OF rep] i by (cases xs) auto
  have n: "unat (a_count array - index - 1) = length xs - unat index - 1"
  proof -
    have "unat (a_count array - index) = length xs - unat index"
      using cnt i by (simp add: unat_sub_if')
    then show ?thesis using unat_pred_pos[of "a_count array - index"] i by simp
  qed
  obtain d where d: "(if index < a_count array - 1
      then array_shiftDown (a_data array) 0 (a_count array - index - 1) index
      else Inr (a_data array)) = Inr d" "length d = length (a_data array)"
    "\<forall>k < length ?ys. d ! k = ?ys ! k"
  proof (cases "index < a_count array - 1")
    case True
    have le: "length xs - Suc 0 < unat (a_space array)" using rep by (auto simp: array_rep_def)
    obtain d where d: "array_shiftDown (a_data array) 0 (a_count array - index - 1) index = Inr d"
      "length d = length (a_data array)"
      "\<forall>k. d ! k = (if unat index \<le> k \<and> k < unat index + (length xs - unat index - 1)
        then a_data array ! (k + 1) else a_data array ! k)"
      using array_shiftDown_cells[of index "a_count array - index - 1" "a_data array" 0] n rep i le
      by (auto simp: array_rep_def)
    have "\<forall>k < length ?ys. d ! k = ?ys ! k"
      using d(3) array_rep_data[OF rep] i by (auto simp: nth_append)
    with d True show ?thesis using that[of d] by simp
  next
    case False
    then have "unat index = length xs - 1" using c1 i by (auto simp: word_less_nat_alt)
    then have "\<forall>k < length ?ys. a_data array ! k = ?ys ! k"
      using array_rep_data[OF rep] i by (auto simp: nth_append)
    with False show ?thesis using that[of "a_data array"] by simp
  qed
  have "array_rep (array\<lparr>a_data := d, a_count := a_count array - 1\<rparr>) ?ys"
    using rep c1 d(2,3) i by (intro array_rep_update[OF rep]) (auto simp: array_rep_def)
  from array_collapse_rep[OF this good] show ?thesis
    using ix d(1) by (simp add: array_removeObjectAtIndex_def)
qed

lemma array_removeObject_rep:
  assumes "array_rep array xs" "good_alloc halloc"
  shows "if x \<in> set xs
         then \<exists>array'. array_removeObject halloc array x = Inr array' \<and> array_rep array' (remove1 x xs)
         else array_removeObject halloc array x = Inl Assertion"
proof -
  obtain r where r: "array_indexOfObject array x = Inr r"
    "if x \<in> set xs then unat r < length xs \<and> xs ! unat r = x \<and> x \<notin> set (take (unat r) xs)
     else r = UINT32_MAX"
    using array_indexFrom_spec[OF assms(1), of 0 x] by (auto simp: array_indexOfObject_def)
  show ?thesis
  proof (cases "x \<in> set xs")
    case True
    have "remove1 x xs = take (unat r) xs @ drop (Suc (unat r)) xs"
      using True r(2) id_take_nth_drop[of "unat r" xs] by (metis append_Nil2 remove1.simps(2) remove1_append)
    then show ?thesis
      using True r array_removeObjectAtIndex_rep[OF assms, of r] by (simp add: array_removeObject_def)
  next
    case False
    have "\<not> UINT32_MAX < a_count array"
      using assms(1) unat_u32_less[of "a_count array"] by (simp add: word_less_nat_alt)
    then show ?thesis
      using False r by (simp add: array_removeObject_def array_removeObjectAtIndex_def)
  qed
qed

section \<open>Iteration\<close>

text \<open>The loop of \<^verbatim>\<open>array_iteratorNextObject\<close> from position \<open>i\<close> on.\<close>

function array_fetchFrom :: "array_t \<Rightarrow> u32 \<Rightarrow> u32 \<Rightarrow> ptr list \<Rightarrow> u32 \<Rightarrow> (ptr list \<times> u32) result" where
  "array_fetchFrom array index i objects maxObjects =
     (if i < maxObjects then
        (if index + i \<ge> a_count array then Inr (objects, i)
         else
           bind_res (read_cell (a_data array) (unat (index + i))) (\<lambda>x.
           bind_res (write_cell objects (unat i) x) (\<lambda>objects.
           array_fetchFrom array index (i + 1) objects maxObjects)))
      else Inr (objects, i))"
  by pat_completeness auto
termination
  by (relation "measure (\<lambda>(array, index, i, objects, maxObjects). unat maxObjects - unat i)")
    (auto simp: unat_Suc_no_wrap word_less_nat_alt diff_less_mono2)

declare array_fetchFrom.simps [simp del]

definition array_iteratorNextObject :: "array_t iterator_fetch" where
  "array_iteratorNextObject array custom objects maxObjects =
     bind_res (read_cell custom 0) (\<lambda>index.
     bind_res (array_fetchFrom array index 0 objects maxObjects) (\<lambda>(objects, i).
     bind_res (write_cell custom 0 (index + i)) (\<lambda>custom.
     Inr (array, custom, objects, i))))"

definition array_iterator :: "ptr list option \<Rightarrow> array_t \<Rightarrow> array_t iterator_t option" where
  "array_iterator objs array = iterator_create objs array_iteratorNextObject array"

lemma array_fetchFrom_spec:
  assumes rep: "array_rep array xs" and ix: "unat index \<le> length xs"
  shows "unat i \<le> min 10 (length xs - unat index) \<Longrightarrow> length objects = 10 \<Longrightarrow>
    take (unat i) objects = take (unat i) (drop (unat index) xs) \<Longrightarrow>
    \<exists>objects' n. array_fetchFrom array index i objects 10 = Inr (objects', n) \<and> length objects' = 10 \<and>
      unat n = min 10 (length xs - unat index) \<and>
      take (unat n) objects' = take (unat n) (drop (unat index) xs)"
proof (induction "10 - unat i" arbitrary: i objects)
  case 0
  then have "unat i = 10" by simp
  then show ?case using 0 by (subst array_fetchFrom.simps) (auto simp: word_less_nat_alt)
next
  case (Suc m)
  have i: "i < 10" "unat i < 10" using Suc.hyps(2) by (auto simp: word_less_nat_alt)
  have si: "unat (i + 1) = Suc (unat i)" by (rule unat_Suc_no_wrap[OF i(1)])
  have cnt: "unat (a_count array) = length xs" "length xs < 2 ^ 30" using rep by (auto simp: array_rep_def)
  have u: "unat (index + i) = unat index + unat i"
    using ix cnt(2) i by (intro unat_add_no_wrap) simp
  show ?case
  proof (cases "index + i \<ge> a_count array")
    case True
    then have "unat i = length xs - unat index" using Suc.prems(1) cnt u by (auto simp: word_le_nat_alt)
    then show ?thesis using True i Suc.prems by (subst array_fetchFrom.simps) simp
  next
    case False
    then have lt: "unat index + unat i < length xs" using cnt u by (simp add: word_le_nat_alt)
    let ?objs = "objects[unat i := xs ! (unat index + unat i)]"
    have rd: "read_cell (a_data array) (unat (index + i)) = Inr (xs ! (unat index + unat i))"
      using lt u rep array_rep_data[OF rep lt] by (auto simp: array_rep_def)
    have "take (unat (i + 1)) ?objs = take (unat (i + 1)) (drop (unat index) xs)"
      using Suc.prems(2,3) lt i by (simp add: si take_Suc_conv_app_nth)
    then show ?thesis
      using Suc.hyps(1)[of "i + 1" ?objs] Suc.hyps(2) Suc.prems(2) False i si lt rd
      by (subst array_fetchFrom.simps) (simp add: write_cell_def)
  qed
qed

definition array_left :: "array_t \<Rightarrow> u32 list \<Rightarrow> ptr list \<Rightarrow> bool" where
  "array_left array custom ys \<longleftrightarrow> length custom = 5 \<and>
     (\<exists>xs. array_rep array xs \<and> unat (custom ! 0) \<le> length xs \<and> ys = drop (unat (custom ! 0)) xs)"

interpretation array_it: fetcher array_iteratorNextObject array_left
proof unfold_locales
  fix array c ys objs
  assume l: "array_left array c ys" and objs: "length (objs :: ptr list) = 10"
  then obtain xs where xs: "array_rep array xs" "unat (c ! 0) \<le> length xs" "ys = drop (unat (c ! 0)) xs"
    and c: "length c = 5" by (auto simp: array_left_def)
  obtain objs' n where f: "array_fetchFrom array (c ! 0) 0 objs 10 = Inr (objs', n)" "length objs' = 10"
    "unat n = min 10 (length ys)" "take (unat n) objs' = take (unat n) ys"
    using array_fetchFrom_spec[OF xs(1,2), of 0 objs] objs xs(3) by auto
  have "unat (c ! 0 + n) = unat (c ! 0) + unat n"
    using xs f(3) by (intro unat_add_no_wrap) (auto simp: array_rep_def)
  then have "array_left array (c[0 := c ! 0 + n]) (drop (unat n) ys)"
    using xs f(3) c by (auto simp: array_left_def add.commute intro!: exI[of _ xs])
  then show "\<exists>d' c' objs' n. array_iteratorNextObject array c objs kIteratorMaxObjects = Inr (d', c', objs', n) \<and>
      length objs' = 10 \<and> unat n = min 10 (length ys) \<and> take (unat n) objs' = take (unat n) ys \<and>
      array_left d' c' (drop (unat n) ys)"
    using f c by (auto simp: array_iteratorNextObject_def kIteratorMaxObjects_def)
qed

section \<open>Properties\<close>

text \<open>
  C30. The dynamic array is a list: on an array that represents \<open>xs\<close>, adding, inserting before an
  index and removing an index give the corresponding lists and never leave the data block; the
  only failure of the growing operations is the panic after a failed allocation, and shrinking
  tolerates failed allocations.
\<close>

theorem array_refines_list:
  assumes "array_rep array xs" "good_alloc halloc" "length xs < 2 ^ 28" "unat index < length xs"
  shows "(case array_addObject halloc array x of
            Inr array' \<Rightarrow> array_rep array' (xs @ [x])
          | Inl e \<Rightarrow> e = KernelPanic \<and> (\<exists>n. halloc n = None)) \<and>
         (case array_insertObject halloc array x index of
            Inr array' \<Rightarrow> array_rep array' (take (unat index) xs @ x # drop (unat index) xs)
          | Inl e \<Rightarrow> e = KernelPanic \<and> (\<exists>n. halloc n = None)) \<and>
         (\<exists>array'. array_removeObjectAtIndex halloc array index = Inr array' \<and>
            array_rep array' (take (unat index) xs @ drop (Suc (unat index)) xs)) \<and>
         array_objectAtIndex array index = Inr (xs ! unat index)"
proof -
  have "array_objectAtIndex array index = Inr (xs ! unat index)"
    using assms(1,4) array_rep_data[OF assms(1,4)]
    by (auto simp: array_objectAtIndex_def array_rep_def word_less_nat_alt)
  then show ?thesis
    using array_addObject_rep[OF assms(1-3)] array_insertObject_rep[OF assms]
      array_removeObjectAtIndex_rep[OF assms(1,2,4)] by blast
qed

text \<open>An allocator that always succeeds, and an array with two elements.\<close>

definition zero_alloc :: block_alloc where
  "zero_alloc n = Some (replicate (unat n div 4) 0)"

lemma zero_alloc_good: "good_alloc zero_alloc"
  by (simp add: good_alloc_def zero_alloc_def)

definition example_array :: array_t where
  "example_array = \<lparr> a_count = 2, a_space = 5, a_allocationStep = UINT32_MAX,
     a_data = [0x10, 0x20, 0, 0, 0], a_lock = 0 \<rparr>"

lemma example_array_rep: "array_rep example_array [0x10, 0x20]"
  by (simp add: array_rep_def example_array_def)

theorem array_refines_list_witness:
  "(case array_insertObject zero_alloc example_array 0x30 1 of
      Inr array' \<Rightarrow> array_rep array' [0x10, 0x30, 0x20] | Inl _ \<Rightarrow> False) \<and>
   (\<exists>array'. array_removeObjectAtIndex zero_alloc example_array 1 = Inr array' \<and> array_rep array' [0x10])"
  using array_refines_list[OF example_array_rep zero_alloc_good, of 1 "0x30"]
  by (auto simp: zero_alloc_def split: sum.splits)

text \<open>
  Removing an object removes its first occurrence; for an object that is not in the array the
  index is \<^verbatim>\<open>UINT32_MAX\<close> and the assertion of \<^verbatim>\<open>array_removeObjectAtIndex\<close> stops the kernel.
\<close>

theorem array_removeObject_first:
  assumes "array_rep array xs" "good_alloc halloc"
  shows "if x \<in> set xs
         then \<exists>array'. array_removeObject halloc array x = Inr array' \<and> array_rep array' (remove1 x xs)
         else array_removeObject halloc array x = Inl Assertion"
  by (rule array_removeObject_rep[OF assms])

theorem array_removeObject_first_witness:
  "(\<exists>array'. array_removeObject zero_alloc example_array 0x10 = Inr array' \<and> array_rep array' [0x20]) \<and>
   array_removeObject zero_alloc example_array 0x40 = Inl Assertion"
  using array_removeObject_first[OF example_array_rep zero_alloc_good, of "0x10"]
    array_removeObject_first[OF example_array_rep zero_alloc_good, of "0x40"] by simp

definition array_add :: "block_alloc \<times> array_t \<Rightarrow> ptr \<Rightarrow> (block_alloc \<times> array_t) result" where
  "array_add = (\<lambda>(halloc, array) x. bind_res (array_addObject halloc array x) (\<lambda>array. Inr (halloc, array)))"

definition array_add_rep :: "block_alloc \<times> array_t \<Rightarrow> ptr list \<Rightarrow> bool" where
  "array_add_rep = (\<lambda>(halloc, array) xs. array_rep array xs \<and> good_alloc halloc \<and> (\<forall>n. halloc n \<noteq> None))"

interpretation karray: growing_sequence array_add array_add_rep "\<lambda>xs x. length xs < 2 ^ 28"
proof unfold_locales
  fix s :: "block_alloc \<times> array_t" and xs x
  assume "array_add_rep s xs" "length xs < 2 ^ 28"
  then show "\<exists>s'. array_add s x = Inr s' \<and> array_add_rep s' (xs @ [x])"
    using array_addObject_rep[of "snd s" xs "fst s" x]
    by (auto simp: array_add_def array_add_rep_def simp del: not_None_eq split: prod.splits sum.splits)
qed

lemma array_create_add_all:
  assumes "good_alloc halloc" "\<forall>n. halloc n \<noteq> None" "array_create True halloc = Some array" "length ys < 2 ^ 28"
  shows "\<exists>array'. fold_res (array_addObject halloc) array ys = Inr array' \<and> array_rep array' ys"
proof -
  obtain d where d: "halloc 20 = Some d" "length d = 5"
    using assms(1,2) by (force simp: good_alloc_def)
  have rep: "array_add_rep (halloc, array) []"
    using assms(1-3) d by (auto simp: array_add_rep_def array_create_def block_or_NULL_def array_rep_def)
  have "length as < 2 ^ 28" if "ys = as @ a # bs" for as a bs using that assms(4) by simp
  then obtain s' where s': "fold_res array_add (halloc, array) ys = Inr s'" "array_add_rep s' ys"
    using karray.add_all[OF rep, of ys] by auto
  have "fold_res array_add (halloc, a) ys =
      bind_res (fold_res (array_addObject halloc) a ys) (\<lambda>a. Inr (halloc, a))" for a
    by (induction ys arbitrary: a) (simp_all add: array_add_def bind_res_assoc)
  with s' show ?thesis
    by (cases "fold_res (array_addObject halloc) array ys") (auto simp: array_add_rep_def)
qed

text \<open>
  A fresh array to which objects are added one after the other represents them in order, if the
  allocator never fails.
\<close>

theorem array_add_all:
  assumes "good_alloc halloc" "\<forall>n. halloc n \<noteq> None" "array_create True halloc = Some array" "length ys < 2 ^ 28"
  shows "\<exists>array'. fold_res (array_addObject halloc) array ys = Inr array' \<and> array_rep array' ys"
  by (rule array_create_add_all[OF assms])

theorem array_add_all_witness:
  "\<exists>array array'. array_create True zero_alloc = Some array \<and>
     fold_res (array_addObject zero_alloc) array [7, 6, 5, 4, 3, 2, 1] = Inr array' \<and>
     array_rep array' [7, 6, 5, 4, 3, 2, 1]"
proof -
  obtain array where a: "array_create True zero_alloc = Some array" by (auto simp: array_create_def)
  from array_add_all[OF zero_alloc_good _ this, of "[7, 6, 5, 4, 3, 2, 1]"] a show ?thesis
    by (auto simp: zero_alloc_def)
qed

text \<open>
  An iterator over an array delivers its objects in order, ten per fetch, and then \<open>NULL\<close>.
\<close>

theorem array_iterator_enumerates:
  assumes "array_rep array xs" "length objs = 10" "array_iterator (Some objs) array = Some it"
  shows "\<exists>it'. iterator_take n it = Inr (take n xs @ replicate (n - length xs) NULL, it')"
proof -
  have "array_left array (replicate 5 0) xs" using assms(1) by (auto simp: array_left_def)
  then show ?thesis
    using array_it.take_pending array_it.pending_create assms(2,3) unfolding array_iterator_def by blast
qed

theorem array_iterator_enumerates_witness:
  "\<exists>it it'. array_iterator (Some (replicate 10 0)) example_array = Some it \<and>
     iterator_take 3 it = Inr ([0x10, 0x20, NULL], it')"
proof -
  obtain it where "array_iterator (Some (replicate 10 0)) example_array = Some it"
    by (auto simp: array_iterator_def iterator_create_def)
  with array_iterator_enumerates[OF example_array_rep _ this, of 3] show ?thesis by simp
qed

end
