(* ===== verification/ArraySort.thy ===== *)
theory ArraySort
  imports KArray
begin

text \<open>
  The sorting of \<^verbatim>\<open>src/sys/container/array.c\<close>: a quicksort that falls back to heapsort at a depth limit,
  followed by an insertion sort. The theory shows that \<^verbatim>\<open>array_sort\<close> always ends, stays inside the
  array and leaves a sorted permutation, and that this is owed to the final insertion sort.
\<close>

section \<open>Model\<close>

text \<open>A comparator returns a negative, zero or positive result, as \<^verbatim>\<open>kCompareLesserThan\<close> and so on.\<close>

type_synonym comparator = "ptr \<Rightarrow> ptr \<Rightarrow> int"

definition array_exchangeObjects :: "ptr list \<Rightarrow> u32 \<Rightarrow> u32 \<Rightarrow> ptr list result" where
  "array_exchangeObjects data index1 index2 =
     bind_res (read_cell data (unat index1)) (\<lambda>temp.
     bind_res (read_cell data (unat index2)) (\<lambda>x.
     bind_res (write_cell data (unat index1) x) (\<lambda>data.
     write_cell data (unat index2) temp)))"

function array_isSortedFrom :: "ptr list \<Rightarrow> u32 \<Rightarrow> u32 \<Rightarrow> comparator \<Rightarrow> bool result" where
  "array_isSortedFrom data begin end comparator =
     (if begin < end - 1 then
        bind_res (read_cell data (unat begin)) (\<lambda>x.
        bind_res (read_cell data (unat (begin + 1))) (\<lambda>y.
        if comparator x y < 0 then Inr False else array_isSortedFrom data (begin + 1) end comparator))
      else Inr True)"
  by pat_completeness auto
termination
  by (relation "measure (\<lambda>(data, begin, end, comparator). unat (end - 1) - unat begin)")
    (auto simp: unat_Suc_no_wrap word_less_nat_alt diff_less_mono2)

declare array_isSortedFrom.simps [simp del]

definition array_isSorted :: "ptr list \<Rightarrow> u32 \<Rightarrow> u32 \<Rightarrow> comparator \<Rightarrow> bool result" where
  "array_isSorted data begin end comparator =
     (if end = 0 then Inr True else array_isSortedFrom data begin end comparator)"

text \<open>
  The sift-down loop of \<^verbatim>\<open>__array_heapSortEx\<close>, with fuel because \<open>index * 2 + 1\<close> could wrap around;
  it returns the data and the position for the sifted object.
\<close>

fun array_heapSift ::
  "nat \<Rightarrow> ptr list \<Rightarrow> ptr \<Rightarrow> u32 \<Rightarrow> u32 \<Rightarrow> u32 \<Rightarrow> comparator \<Rightarrow> (ptr list \<times> u32) result" where
  "array_heapSift 0 data temp index index2 len comparator = Inl Diverges"
| "array_heapSift (Suc fuel) data temp index index2 len comparator =
     (if index2 < len then
        bind_res
          (if index2 + 1 < len then
             bind_res (read_cell data (unat index2)) (\<lambda>x.
             bind_res (read_cell data (unat (index2 + 1))) (\<lambda>y.
             Inr (if comparator x y < 0 then index2 + 1 else index2)))
           else Inr index2) (\<lambda>index2.
        bind_res (read_cell data (unat index2)) (\<lambda>x.
        if comparator temp x \<ge> 0 then Inr (data, index)
        else
          bind_res (write_cell data (unat index) x) (\<lambda>data.
          array_heapSift fuel data temp index2 (index2 * 2 + 1) len comparator)))
      else Inr (data, index))"

definition array_heapSortEx :: "ptr list \<Rightarrow> u32 \<Rightarrow> u32 \<Rightarrow> comparator \<Rightarrow> ptr list result" where
  "array_heapSortEx data index len comparator =
     bind_res (read_cell data (unat index)) (\<lambda>temp.
     bind_res (array_heapSift (Suc (unat len)) data temp index (index * 2 + 1) len comparator) (\<lambda>(data, index).
     write_cell data (unat index) temp))"

text \<open>The two loops of \<^verbatim>\<open>__array_heapSort\<close>.\<close>

function array_heapBuild :: "ptr list \<Rightarrow> u32 \<Rightarrow> u32 \<Rightarrow> comparator \<Rightarrow> ptr list result" where
  "array_heapBuild data index len comparator =
     (if index > 0 then
        bind_res (array_heapSortEx data (index - 1) len comparator) (\<lambda>data.
        array_heapBuild data (index - 1) len comparator)
      else Inr data)"
  by pat_completeness auto
termination
  by (relation "measure (\<lambda>(data, index, len, comparator). unat index)")
    (auto simp: word_less_nat_alt unat_pred_pos)

declare array_heapBuild.simps [simp del]

function array_heapExtract :: "ptr list \<Rightarrow> u32 \<Rightarrow> comparator \<Rightarrow> ptr list result" where
  "array_heapExtract data len comparator =
     (if len \<noteq> 0 \<and> len - 1 > 0 then
        bind_res (array_exchangeObjects data 0 (len - 1)) (\<lambda>data.
        bind_res (array_heapSortEx data 0 (len - 1) comparator) (\<lambda>data.
        array_heapExtract data (len - 1) comparator))
      else Inr data)"
  by pat_completeness auto
termination
  by (relation "measure (\<lambda>(data, len, comparator). unat len)")
    (auto simp: word_less_nat_alt unat_pred_pos unat_gt_0)

declare array_heapExtract.simps [simp del]

definition array_heapSort :: "ptr list \<Rightarrow> u32 \<Rightarrow> comparator \<Rightarrow> ptr list result" where
  "array_heapSort data len comparator =
     bind_res (array_heapBuild data (len div 2) len comparator) (\<lambda>data.
     if len = 0 then Inr data else array_heapExtract data len comparator)"

text \<open>The loop of \<^verbatim>\<open>__array_quickSortPartition\<close>, and the whole function.\<close>

function array_partitionLoop ::
  "ptr list \<Rightarrow> u32 \<Rightarrow> u32 \<Rightarrow> u32 \<Rightarrow> comparator \<Rightarrow> (ptr list \<times> u32) result" where
  "array_partitionLoop data pivot begin end comparator =
     (if begin < end then
        bind_res (read_cell data (unat begin)) (\<lambda>x.
        bind_res (read_cell data (unat end)) (\<lambda>y.
        if comparator x y \<le> 0 then
          bind_res (array_exchangeObjects data pivot begin) (\<lambda>data.
          array_partitionLoop data (pivot + 1) (begin + 1) end comparator)
        else array_partitionLoop data pivot (begin + 1) end comparator))
      else Inr (data, pivot))"
  by pat_completeness auto
termination
  by (relation "measure (\<lambda>(data, pivot, begin, end, comparator). unat end - unat begin)")
    (auto simp: unat_Suc_no_wrap word_less_nat_alt diff_less_mono2)

declare array_partitionLoop.simps [simp del]

definition array_quickSortPartition ::
  "ptr list \<Rightarrow> u32 \<Rightarrow> u32 \<Rightarrow> comparator \<Rightarrow> (ptr list \<times> u32) result" where
  "array_quickSortPartition data begin end comparator =
     (let middle = (begin + end) div 2 in
      bind_res (read_cell data (unat middle)) (\<lambda>m.
      bind_res (read_cell data (unat begin)) (\<lambda>b.
      let pivot = (if comparator m b \<ge> 0 then middle else begin) in
      bind_res (read_cell data (unat pivot)) (\<lambda>p.
      bind_res (read_cell data (unat end)) (\<lambda>e.
      let pivot = (if comparator p e \<ge> 0 then end else pivot) in
      bind_res (array_exchangeObjects data pivot begin) (\<lambda>data.
      bind_res (array_partitionLoop data begin begin end comparator) (\<lambda>(data, pivot).
      bind_res (array_exchangeObjects data pivot end) (\<lambda>data. Inr (data, pivot)))))))))"

fun array_quickSort :: "nat \<Rightarrow> ptr list \<Rightarrow> u32 \<Rightarrow> u32 \<Rightarrow> comparator \<Rightarrow> ptr list result" where
  "array_quickSort 0 data begin end comparator =
     (if begin < end \<and> end \<noteq> UINT32_MAX
      then array_heapSort data (end - begin + 1) comparator else Inr data)"
| "array_quickSort (Suc depth) data begin end comparator =
     (if begin < end \<and> end \<noteq> UINT32_MAX then
        bind_res (array_isSorted data begin end comparator) (\<lambda>sorted.
        if sorted then Inr data
        else
          bind_res (array_quickSortPartition data begin end comparator) (\<lambda>(data, pivot).
          bind_res (array_quickSort depth data begin (pivot - 1) comparator) (\<lambda>data.
          array_quickSort depth data (pivot + 1) end comparator)))
      else Inr data)"

text \<open>The inner and the outer loop of \<^verbatim>\<open>__array_insertionSort\<close>.\<close>

function array_insertLoop :: "ptr list \<Rightarrow> ptr \<Rightarrow> u32 \<Rightarrow> comparator \<Rightarrow> (ptr list \<times> u32) result" where
  "array_insertLoop data temp j comparator =
     (if j \<ge> 1 then
        bind_res (read_cell data (unat (j - 1))) (\<lambda>x.
        if comparator x temp \<le> 0 then Inr (data, j)
        else
          bind_res (write_cell data (unat j) x) (\<lambda>data.
          array_insertLoop data temp (j - 1) comparator))
      else Inr (data, j))"
  by pat_completeness auto
termination
  by (relation "measure (\<lambda>(data, temp, j, comparator). unat j)")
    (auto simp: word_le_nat_alt unat_pred_pos)

declare array_insertLoop.simps [simp del]

function array_insertionFrom :: "ptr list \<Rightarrow> u32 \<Rightarrow> u32 \<Rightarrow> comparator \<Rightarrow> ptr list result" where
  "array_insertionFrom data i cnt comparator =
     (if i < cnt then
        bind_res (read_cell data (unat i)) (\<lambda>temp.
        bind_res (array_insertLoop data temp i comparator) (\<lambda>(data, j).
        bind_res (write_cell data (unat j) temp) (\<lambda>data.
        array_insertionFrom data (i + 1) cnt comparator)))
      else Inr data)"
  by pat_completeness auto
termination
  by (relation "measure (\<lambda>(data, i, cnt, comparator). unat cnt - unat i)")
    (auto simp: unat_Suc_no_wrap word_less_nat_alt diff_less_mono2)

declare array_insertionFrom.simps [simp del]

definition array_insertionSort :: "ptr list \<Rightarrow> u32 \<Rightarrow> comparator \<Rightarrow> ptr list result" where
  "array_insertionSort data cnt comparator = array_insertionFrom data 1 cnt comparator"

function array_logBase2From :: "u32 \<Rightarrow> u32 \<Rightarrow> u32" where
  "array_logBase2From cnt result =
     (let cnt = drop_bit 1 cnt in if cnt \<noteq> 0 then array_logBase2From cnt (result + 1) else result)"
  by pat_completeness auto
termination
  by (relation "measure (\<lambda>(cnt, result). unat cnt)")
    (auto simp: drop_bit_eq_div unat_div unat_half_less)

declare array_logBase2From.simps [simp del]

definition array_logBase2 :: "u32 \<Rightarrow> u32" where
  "array_logBase2 cnt = array_logBase2From cnt 0"

definition array_sort :: "array_t \<Rightarrow> comparator \<Rightarrow> array_t result" where
  "array_sort array comparator =
     (if a_count array = 0 then Inr array
      else
        bind_res (if a_count array > 5
                  then array_quickSort (unat (2 * array_logBase2 (a_count array))) (a_data array) 0
                         (a_count array - 1) comparator
                  else Inr (a_data array)) (\<lambda>data.
        bind_res (array_insertionSort data (a_count array) comparator) (\<lambda>data.
        Inr (array\<lparr>a_data := data\<rparr>))))"

section \<open>Permutations of the first cells\<close>

definition perm_upto :: "nat \<Rightarrow> ptr list \<Rightarrow> ptr list \<Rightarrow> bool" where
  "perm_upto n d d' \<longleftrightarrow> length d' = length d \<and> mset (take n d') = mset (take n d) \<and> drop n d' = drop n d"

lemma perm_upto_refl [simp]: "perm_upto n d d"
  by (simp add: perm_upto_def)

lemma perm_upto_trans: "perm_upto n a b \<Longrightarrow> perm_upto n b c \<Longrightarrow> perm_upto n a c"
  by (simp add: perm_upto_def)

lemma perm_upto_length: "perm_upto n d d' \<Longrightarrow> length d' = length d"
  by (simp add: perm_upto_def)

lemma perm_upto_swap:
  assumes "i < n" "j < n" "n \<le> length d"
  shows "perm_upto n d (d[i := d ! j, j := d ! i])"
proof -
  have "take n (d[i := d ! j, j := d ! i]) = (take n d)[i := take n d ! j, j := take n d ! i]"
    using assms by (simp add: take_update_swap)
  then show ?thesis
    using assms mset_swap[of j "take n d" i] by (simp add: perm_upto_def)
qed

lemma array_exchange_perm:
  assumes "unat i < n" "unat j < n" "n \<le> length d"
  shows "\<exists>d'. array_exchangeObjects d i j = Inr d' \<and> perm_upto n d d'"
  using assms perm_upto_swap[of "unat i" n "unat j" d]
  by (auto simp: array_exchangeObjects_def)

text \<open>
  Loops that carry one object past the others: filling the hole at \<open>i\<close> from \<open>j\<close> and putting the
  object \<open>t\<close> into the new hole at \<open>j\<close> is an exchange.
\<close>

lemma hole_moves:
  assumes "i < n" "j < n" "n \<le> length d" "i \<noteq> j"
  shows "perm_upto n (d[i := t]) (d[i := d ! j, j := t])"
proof -
  have "d[i := d ! j, j := t] = (d[i := t])[i := d[i := t] ! j, j := d[i := t] ! i]"
    using assms by simp
  then show ?thesis using perm_upto_swap[of i n j "d[i := t]"] assms by simp
qed

lemma array_heapSift_perm:
  assumes "unat len - unat index < fuel" "unat index < n" "unat len \<le> n" "n \<le> length d" "n < 2 ^ 30"
    "index2 = index * 2 + 1"
  shows "\<exists>d' i. array_heapSift fuel d t index index2 len comparator = Inr (d', i) \<and> unat i < n \<and>
           perm_upto n (d[unat index := t]) (d'[unat i := t])"
  using assms
proof (induction fuel d t index index2 len comparator rule: array_heapSift.induct)
  case (1 d t index index2 len comparator)
  then show ?case by simp
next
  case (2 fuel d t index index2 len comparator)
  note IH = 2(1) and prems = 2(2-7)
  show ?case
  proof (cases "index2 < len")
    case False
    then show ?thesis using prems by auto
  next
    case True
    have i2: "unat index2 = 2 * unat index + 1"
      using prems by (simp add: unat_word_ariths)
    define k where "k = (if index2 + 1 < len \<and> comparator (d ! unat index2) (d ! unat (index2 + 1)) < 0
      then index2 + 1 else index2)"
    have s: "unat (index2 + 1) = Suc (unat index2)" by (rule unat_Suc_no_wrap[OF True])
    have k: "unat index < unat k" "unat k < unat len"
      using True i2 s by (auto simp: k_def word_less_nat_alt)
    let ?d = "d[unat index := d ! unat k]"
    have sel: "(if index2 + 1 < len then
             bind_res (read_cell d (unat index2)) (\<lambda>x.
             bind_res (read_cell d (unat (index2 + 1))) (\<lambda>y.
             Inr (if comparator x y < 0 then index2 + 1 else index2)))
           else Inr index2) = Inr k"
      using True prems s by (auto simp: k_def word_less_nat_alt)
    show ?thesis
    proof (cases "comparator t (d ! unat k) \<ge> 0")
      case ge: True
      then show ?thesis
        unfolding array_heapSift.simps sel using True k prems(1-5) by auto
    next
      case False
      have r: "array_heapSift (Suc fuel) d t index index2 len comparator =
          array_heapSift fuel ?d t k (k * 2 + 1) len comparator"
        unfolding array_heapSift.simps sel using True False k prems(1-5) by (simp add: write_cell_def)
      have "\<exists>d' i. array_heapSift fuel ?d t k (k * 2 + 1) len comparator = Inr (d', i) \<and> unat i < n \<and>
          perm_upto n (?d[unat k := t]) (d'[unat i := t])"
        using IH[OF True sel _ False] k prems(1-5) by (simp add: write_cell_def)
      moreover have "perm_upto n (d[unat index := t]) (?d[unat k := t])"
        using k prems by (intro hole_moves) auto
      ultimately show ?thesis unfolding r using perm_upto_trans by blast
    qed
  qed
qed

lemma array_heapSortEx_perm:
  assumes "unat index < n" "unat len \<le> n" "n \<le> length d" "n < 2 ^ 30"
  shows "\<exists>d'. array_heapSortEx d index len comparator = Inr d' \<and> perm_upto n d d'"
proof -
  obtain d' i where s: "array_heapSift (Suc (unat len)) d (d ! unat index) index (index * 2 + 1) len comparator = Inr (d', i)"
    "unat i < n" "perm_upto n (d[unat index := d ! unat index]) (d'[unat i := d ! unat index])"
    using array_heapSift_perm[OF _ assms refl, of "Suc (unat len)" "d ! unat index" comparator]
    by (auto simp del: array_heapSift.simps simp: less_Suc_eq_le)
  moreover have "unat i < length d'" using s(2) perm_upto_length[OF s(3)] assms(3) by simp
  ultimately show ?thesis
    using assms by (auto simp: array_heapSortEx_def simp del: array_heapSift.simps)
qed

lemma array_heapBuild_perm:
  "unat index \<le> n \<Longrightarrow> unat len \<le> n \<Longrightarrow> n \<le> length d \<Longrightarrow> n < 2 ^ 30 \<Longrightarrow>
   \<exists>d'. array_heapBuild d index len comparator = Inr d' \<and> perm_upto n d d'"
proof (induction d index len comparator rule: array_heapBuild.induct)
  case (1 d index len comparator)
  show ?case
  proof (cases "index > 0")
    case True
    then have lt: "unat (index - 1) < n" using 1(2) by (simp add: unat_pred_pos word_less_nat_alt)
    then obtain d1 where d1: "array_heapSortEx d (index - 1) len comparator = Inr d1" "perm_upto n d d1"
      using array_heapSortEx_perm[OF lt 1(3-5)] by blast
    then obtain d2 where d2: "array_heapBuild d1 (index - 1) len comparator = Inr d2" "perm_upto n d1 d2"
      using 1(1)[OF True d1(1)] 1(3-5) lt perm_upto_length[OF d1(2)] by auto
    then show ?thesis
      using True d1(1) perm_upto_trans[OF d1(2) d2(2)] by (subst array_heapBuild.simps) simp
  next
    case False
    then show ?thesis by (subst array_heapBuild.simps) auto
  qed
qed

lemma array_heapExtract_perm:
  "unat len \<le> n \<Longrightarrow> n \<le> length d \<Longrightarrow> n < 2 ^ 30 \<Longrightarrow>
   \<exists>d'. array_heapExtract d len comparator = Inr d' \<and> perm_upto n d d'"
proof (induction d len comparator rule: array_heapExtract.induct)
  case (1 d len comparator)
  show ?case
  proof (cases "len \<noteq> 0 \<and> len - 1 > 0")
    case True
    have "0 < unat len" using True by (simp add: unat_gt_0)
    then have lt: "unat (len - 1) < n" "0 < n"
      using 1(2) unat_pred_pos[of len] by simp_all
    obtain d1 where d1: "array_exchangeObjects d 0 (len - 1) = Inr d1" "perm_upto n d d1"
      using array_exchange_perm[of 0 n "len - 1" d] lt 1(3) by auto
    obtain d2 where d2: "array_heapSortEx d1 0 (len - 1) comparator = Inr d2" "perm_upto n d1 d2"
      using array_heapSortEx_perm[of 0 n "len - 1" d1] lt 1(3,4) perm_upto_length[OF d1(2)] by auto
    obtain d3 where d3: "array_heapExtract d2 (len - 1) comparator = Inr d3" "perm_upto n d2 d3"
      using 1(1)[OF True d1(1) d2(1)] lt 1(3,4) perm_upto_length[OF d1(2)] perm_upto_length[OF d2(2)] by auto
    have "perm_upto n d d3" by (rule perm_upto_trans[OF d1(2) perm_upto_trans[OF d2(2) d3(2)]])
    then show ?thesis
      using True d1(1) d2(1) d3(1) by (subst array_heapExtract.simps) simp
  next
    case False
    then show ?thesis by (subst array_heapExtract.simps) auto
  qed
qed

lemma array_heapSort_perm:
  assumes "unat len \<le> n" "n \<le> length d" "n < 2 ^ 30"
  shows "\<exists>d'. array_heapSort d len comparator = Inr d' \<and> perm_upto n d d'"
proof -
  have "unat (len div 2) \<le> n" using assms(1) by (simp add: unat_div)
  then obtain d1 where d1: "array_heapBuild d (len div 2) len comparator = Inr d1" "perm_upto n d d1"
    using array_heapBuild_perm[OF _ assms, of "len div 2" comparator] by blast
  obtain d2 where "array_heapExtract d1 len comparator = Inr d2" "perm_upto n d1 d2"
    using array_heapExtract_perm[of len n d1] assms perm_upto_length[OF d1(2)] by auto
  then show ?thesis using d1 perm_upto_trans by (auto simp: array_heapSort_def)
qed

lemma array_isSorted_Inr:
  assumes "unat end < length d"
  shows "\<exists>b. array_isSorted d begin end comparator = Inr b"
proof -
  have "end \<noteq> 0 \<Longrightarrow> \<exists>b. array_isSortedFrom d begin end comparator = Inr b"
    using assms
  proof (induction d "begin" "end" comparator rule: array_isSortedFrom.induct)
    case (1 d "begin" "end" comparator)
    show ?case
    proof (cases "begin < end - 1")
      case True
      have "unat (end - 1) < unat end" using 1(2) by (simp add: unat_pred_pos unat_gt_0)
      then have "unat begin < length d" "unat (begin + 1) < length d"
        using True 1(3) by (auto simp: unat_Suc_no_wrap[OF True] word_less_nat_alt)
      then show ?thesis using 1 True by (subst array_isSortedFrom.simps) auto
    next
      case False
      then show ?thesis by (subst array_isSortedFrom.simps) auto
    qed
  qed
  then show ?thesis by (cases "end = 0") (auto simp: array_isSorted_def)
qed

lemma array_partitionLoop_perm:
  "unat end < n \<Longrightarrow> n \<le> length d \<Longrightarrow> pivot \<le> begin \<Longrightarrow> begin \<le> end \<Longrightarrow>
   \<exists>d' p. array_partitionLoop d pivot begin end comparator = Inr (d', p) \<and> perm_upto n d d' \<and>
     pivot \<le> p \<and> p \<le> end"
proof (induction d pivot "begin" "end" comparator rule: array_partitionLoop.induct)
  case (1 d pivot "begin" "end" comparator)
  show ?case
  proof (cases "begin < end")
    case True
    have sb: "unat (begin + 1) = Suc (unat begin)" by (rule unat_Suc_no_wrap[OF True])
    have sp: "unat (pivot + 1) = Suc (unat pivot)"
      using 1(5) True by (intro unat_Suc_no_wrap[of pivot "end"]) simp
    have lt: "unat begin < n" "unat pivot < n" "begin + 1 \<le> end" "pivot \<le> begin + 1" "pivot + 1 \<le> begin + 1" "pivot \<le> pivot + 1"
      using True 1(3,5) sb sp by (auto simp: word_less_nat_alt word_le_nat_alt)
    have rd: "read_cell d (unat begin) = Inr (d ! unat begin)" "read_cell d (unat end) = Inr (d ! unat end)"
      using lt 1(3,4) by auto
    show ?thesis
    proof (cases "comparator (d ! unat begin) (d ! unat end) \<le> 0")
      case le: True
      obtain d1 where d1: "array_exchangeObjects d pivot begin = Inr d1" "perm_upto n d d1"
        using array_exchange_perm[OF lt(2,1) 1(4)] by blast
      obtain d2 p where d2: "array_partitionLoop d1 (pivot + 1) (begin + 1) end comparator = Inr (d2, p)"
        "perm_upto n d1 d2" "pivot + 1 \<le> p" "p \<le> end"
        using 1(1)[OF True rd le d1(1)] 1(3,4) lt perm_upto_length[OF d1(2)] by auto
      then show ?thesis
        using True rd le d1 perm_upto_trans[OF d1(2) d2(2)] lt(6)
        by (subst array_partitionLoop.simps) (auto intro: order_trans)
    next
      case False
      then show ?thesis
        using 1(2)[OF True rd False] 1(3,4) lt True rd by (subst array_partitionLoop.simps) auto
    qed
  next
    case False
    then show ?thesis using 1(5,6) by (subst array_partitionLoop.simps) auto
  qed
qed

lemma middle_le: "unat begin \<le> unat end \<Longrightarrow> unat end < 2 ^ 30 \<Longrightarrow> unat ((begin + end) div 2) \<le> unat end"
  for "begin" :: u32 and "end" :: u32
  using unat_add_no_wrap[of "begin" "end"] by (simp add: unat_div)

lemma array_partition_perm:
  assumes "unat end < n" "n \<le> length d" "begin \<le> end" "n < 2 ^ 30"
  shows "\<exists>d' p. array_quickSortPartition d begin end comparator = Inr (d', p) \<and> perm_upto n d d' \<and>
           begin \<le> p \<and> p \<le> end"
proof -
  define middle where "middle = (begin + end) div 2"
  have m: "unat middle < n" "unat begin < n"
    using middle_le[of "begin" "end"] assms by (auto simp: middle_def word_le_nat_alt)
  define p1 where "p1 = (if comparator (d ! unat middle) (d ! unat begin) \<ge> 0 then middle else begin)"
  define p2 where "p2 = (if comparator (d ! unat p1) (d ! unat end) \<ge> 0 then end else p1)"
  have p: "unat p1 < n" "unat p2 < n" using m assms(1) by (auto simp: p1_def p2_def)
  obtain d1 where d1: "array_exchangeObjects d p2 begin = Inr d1" "perm_upto n d d1"
    using array_exchange_perm[OF p(2) m(2) assms(2)] by blast
  obtain d2 q where d2: "array_partitionLoop d1 begin begin end comparator = Inr (d2, q)" "perm_upto n d1 d2"
    "begin \<le> q" "q \<le> end"
    using array_partitionLoop_perm[of "end" n d1 "begin" "begin" comparator] assms perm_upto_length[OF d1(2)] by auto
  have q: "unat q < n" using d2(4) assms(1) by (simp add: word_le_nat_alt)
  obtain d3 where d3: "array_exchangeObjects d2 q end = Inr d3" "perm_upto n d2 d3"
    using array_exchange_perm[OF q assms(1), of d2] assms(2) perm_upto_length[OF d1(2)] perm_upto_length[OF d2(2)]
    by auto
  have rd: "read_cell d (unat middle) = Inr (d ! unat middle)" "read_cell d (unat begin) = Inr (d ! unat begin)"
    "read_cell d (unat p1) = Inr (d ! unat p1)" "read_cell d (unat end) = Inr (d ! unat end)"
    using m p assms by auto
  have "array_quickSortPartition d begin end comparator = Inr (d3, q)"
    unfolding array_quickSortPartition_def Let_def
    by (fold middle_def) (simp only: rd bind_res_simps p1_def[symmetric] p2_def[symmetric] d1(1) d2(1) d3(1) prod.case)
  moreover have "perm_upto n d d3"
    by (rule perm_upto_trans[OF d1(2) perm_upto_trans[OF d2(2) d3(2)]])
  ultimately show ?thesis using d2 by blast
qed

text \<open>Quicksort with its heapsort fallback ends and permutes, whatever the comparator.\<close>

lemma array_quickSort_perm:
  "n \<le> length d \<Longrightarrow> n < 2 ^ 30 \<Longrightarrow> end \<noteq> UINT32_MAX \<longrightarrow> unat end < n \<Longrightarrow>
   \<exists>d'. array_quickSort depth d begin end comparator = Inr d' \<and> perm_upto n d d'"
proof (induction depth arbitrary: d "begin" "end")
  case 0
  show ?case
  proof (cases "begin < end \<and> end \<noteq> UINT32_MAX")
    case True
    have "unat (end - begin + 1) \<le> n"
      using True 0(2,3) unat_add_no_wrap[of "end - begin" 1]
      by (simp add: unat_sub_if' word_less_nat_alt)
    then show ?thesis using array_heapSort_perm[OF _ 0(1,2)] True by simp
  qed auto
next
  case (Suc depth)
  show ?case
  proof (cases "begin < end \<and> end \<noteq> UINT32_MAX")
    case True
    then have e: "unat end < n" and le: "begin \<le> end" using Suc.prems(3) by auto
    obtain b where b: "array_isSorted d begin end comparator = Inr b"
      using array_isSorted_Inr[of "end" d] e Suc.prems(1) by fastforce
    show ?thesis
    proof (cases b)
      case False
      obtain d1 p where d1: "array_quickSortPartition d begin end comparator = Inr (d1, p)" "perm_upto n d d1" "p \<le> end"
        using array_partition_perm[OF e Suc.prems(1) le Suc.prems(2)] by blast
      have "p - 1 \<noteq> UINT32_MAX \<longrightarrow> unat (p - 1) < n"
        using d1(3) e by (cases "p = 0") (auto simp: word_le_nat_alt unat_pred_pos unat_gt_0)
      then obtain d2 where d2: "array_quickSort depth d1 begin (p - 1) comparator = Inr d2" "perm_upto n d1 d2"
        using Suc.IH[of d1 "p - 1" "begin"] Suc.prems(1,2) perm_upto_length[OF d1(2)] by auto
      obtain d3 where d3: "array_quickSort depth d2 (p + 1) end comparator = Inr d3" "perm_upto n d2 d3"
        using Suc.IH[of d2 "end" "p + 1"] Suc.prems perm_upto_length[OF d1(2)] perm_upto_length[OF d2(2)] by auto
      have "perm_upto n d d3" by (rule perm_upto_trans[OF d1(2) perm_upto_trans[OF d2(2) d3(2)]])
      then show ?thesis using True b False d1(1) d2(1) d3(1) by simp
    qed (use True b in simp)
  qed auto
qed

section \<open>The insertion sort\<close>

definition total_preorder :: "comparator \<Rightarrow> bool" where
  "total_preorder comparator \<longleftrightarrow>
     (\<forall>x y. comparator x y \<le> 0 \<or> comparator y x \<le> 0) \<and>
     (\<forall>x y z. comparator x y \<le> 0 \<longrightarrow> comparator y z \<le> 0 \<longrightarrow> comparator x z \<le> 0)"

abbreviation cmp_sorted :: "comparator \<Rightarrow> ptr list \<Rightarrow> bool" where
  "cmp_sorted comparator \<equiv> sorted_wrt (\<lambda>x y. comparator x y \<le> 0)"

text \<open>
  The inner loop looks for the place of \<open>temp\<close> from the right: it ends with a hole at \<open>j\<close>, the
  objects before the hole not above \<open>temp\<close>, those behind it shifted.
\<close>

fun insert_right :: "comparator \<Rightarrow> ptr \<Rightarrow> ptr list \<Rightarrow> ptr list" where
  "insert_right comparator t xs =
     (if xs = [] then [t]
      else if comparator (last xs) t \<le> 0 then xs @ [t]
      else insert_right comparator t (butlast xs) @ [last xs])"

declare insert_right.simps [simp del]

lemma insert_right_Nil: "insert_right comparator t [] = [t]"
  by (simp add: insert_right.simps)

lemma insert_right_snoc:
  "insert_right comparator t (xs @ [x]) =
     (if comparator x t \<le> 0 then xs @ [x, t] else insert_right comparator t xs @ [x])"
  by (subst insert_right.simps) simp

lemma mset_insert_right: "mset (insert_right comparator t xs) = add_mset t (mset xs)"
  by (induction xs rule: rev_induct) (auto simp: insert_right_Nil insert_right_snoc)

lemma length_insert_right: "length (insert_right comparator t xs) = Suc (length xs)"
  by (induction xs rule: rev_induct) (auto simp: insert_right_Nil insert_right_snoc)

lemma sorted_insert_right:
  assumes "total_preorder comparator" "cmp_sorted comparator xs"
  shows "cmp_sorted comparator (insert_right comparator t xs)"
  using assms(2)
proof (induction xs rule: rev_induct)
  case Nil
  then show ?case by (simp add: insert_right_Nil)
next
  case (snoc x xs)
  have sorted: "cmp_sorted comparator xs" "\<And>y. y \<in> set xs \<Longrightarrow> comparator y x \<le> 0"
    using snoc.prems by (auto simp: sorted_wrt_append)
  have set: "set (insert_right comparator t xs) = insert t (set xs)"
    using mset_insert_right[of comparator t xs] by (metis set_mset_mset set_mset_add_mset_insert)
  show ?case
  proof (cases "comparator x t \<le> 0")
    case True
    then have "comparator y t \<le> 0" if "y \<in> set xs" for y
      using sorted(2)[OF that] assms(1) unfolding total_preorder_def by blast
    then show ?thesis using True snoc.prems by (auto simp: insert_right_snoc sorted_wrt_append)
  next
    case False
    then have "comparator t x \<le> 0" using assms(1) unfolding total_preorder_def by blast
    then show ?thesis
      using False snoc.IH[OF sorted(1)] sorted(2) set by (auto simp: insert_right_snoc sorted_wrt_append)
  qed
qed

lemma array_insertLoop_spec:
  "unat j < length d \<Longrightarrow>
   \<exists>d' j'. array_insertLoop d t j comparator = Inr (d', j') \<and> unat j' \<le> unat j \<and> length d' = length d \<and>
     d'[unat j' := t] = insert_right comparator t (take (unat j) d) @ drop (Suc (unat j)) d"
proof (induction d t j comparator rule: array_insertLoop.induct)
  case (1 d t j comparator)
  show ?case
  proof (cases "j \<ge> 1")
    case False
    then have "unat j = 0" by (simp add: word_le_nat_alt)
    then show ?thesis
      using False 1(2) by (subst array_insertLoop.simps) (cases d, auto simp: insert_right_Nil)
  next
    case True
    then have pos: "0 < unat j" by (simp add: word_le_nat_alt)
    then obtain k where k: "unat j = Suc k" "unat (j - 1) = k"
      using unat_pred_pos[of j] by (cases "unat j") auto
    have tk: "take (unat j) d = take k d @ [d ! k]" using 1(2) k by (simp add: take_Suc_conv_app_nth)
    have rd: "read_cell d (unat (j - 1)) = Inr (d ! k)" using 1(2) k by simp
    show ?thesis
    proof (cases "comparator (d ! k) t \<le> 0")
      case le: True
      then have "d[unat j := t] = insert_right comparator t (take (unat j) d) @ drop (Suc (unat j)) d"
        unfolding tk insert_right_snoc using 1(2) k tk by (simp add: upd_conv_take_nth_drop)
      then show ?thesis using True le rd by (subst array_insertLoop.simps) auto
    next
      case False
      let ?d = "d[unat j := d ! k]"
      obtain d' j' where r: "array_insertLoop ?d t (j - 1) comparator = Inr (d', j')" "unat j' \<le> k"
        "length d' = length d" "d'[unat j' := t] = insert_right comparator t (take k ?d) @ drop (Suc k) ?d"
        using 1(1)[OF True rd False, of ?d] 1(2) k by auto
      moreover have "drop (Suc k) ?d = d ! k # drop (Suc (unat j)) d"
        using 1(2) k by (simp add: Cons_nth_drop_Suc[symmetric] drop_update_cancel)
      ultimately show ?thesis
        using True False rd 1(2) k tk
        by (subst array_insertLoop.simps) (auto simp: insert_right_snoc take_update_cancel)
    qed
  qed
qed

lemma perm_upto_insert_right:
  assumes "i < n" "n \<le> length d"
    "e = insert_right comparator (d ! i) (take i d) @ drop (Suc i) d"
  shows "perm_upto n d e" "take (Suc i) e = insert_right comparator (d ! i) (take i d)"
proof -
  have len: "length (insert_right comparator (d ! i) (take i d)) = Suc i"
    using assms by (simp add: length_insert_right)
  have d: "d = take i d @ d ! i # drop (Suc i) d" using assms by (simp add: id_take_nth_drop)
  have n: "take n e = insert_right comparator (d ! i) (take i d) @ take (n - Suc i) (drop (Suc i) d)"
    "drop n e = drop n d" "length e = length d"
    using assms len by auto
  have "mset (take n d) = add_mset (d ! i) (mset (take i d)) + mset (take (n - Suc i) (drop (Suc i) d))"
    using arg_cong[OF d, of "\<lambda>d. mset (take n d)"] assms(1,2) by (simp add: take_Cons' min_def)
  then show "perm_upto n d e"
    using n by (simp add: perm_upto_def mset_insert_right)
  show "take (Suc i) e = insert_right comparator (d ! i) (take i d)" using len assms(3) by simp
qed

lemma array_insertionFrom_spec:
  assumes "total_preorder comparator"
  shows "i \<le> cnt \<Longrightarrow> unat cnt \<le> length d \<Longrightarrow> cmp_sorted comparator (take (unat i) d) \<Longrightarrow>
    \<exists>d'. array_insertionFrom d i cnt comparator = Inr d' \<and> perm_upto (unat cnt) d d' \<and>
      cmp_sorted comparator (take (unat cnt) d')"
  using assms
proof (induction d i cnt comparator rule: array_insertionFrom.induct)
  case (1 d i cnt comparator)
  show ?case
  proof (cases "i < cnt")
    case True
    have si: "unat (i + 1) = Suc (unat i)" by (rule unat_Suc_no_wrap[OF True])
    have lt: "unat i < unat cnt" "unat i < length d" using True 1(3) by (auto simp: word_less_nat_alt)
    obtain d1 j where l: "array_insertLoop d (d ! unat i) i comparator = Inr (d1, j)" "unat j \<le> unat i"
      "length d1 = length d"
      "d1[unat j := d ! unat i] = insert_right comparator (d ! unat i) (take (unat i) d) @ drop (Suc (unat i)) d"
      using array_insertLoop_spec[OF lt(2)] by blast
    let ?e = "d1[unat j := d ! unat i]"
    note e = perm_upto_insert_right[OF lt(1) 1(3) l(4)]
    have w: "write_cell d1 (unat j) (d ! unat i) = Inr ?e" using l lt by simp
    have rd: "read_cell d (unat i) = Inr (d ! unat i)" using lt by simp
    have "cmp_sorted comparator (take (unat (i + 1)) ?e)"
      using sorted_insert_right[OF 1(5) 1(4)] e(2) si by simp
    moreover have "i + 1 \<le> cnt" using lt si by (simp add: word_le_nat_alt)
    ultimately obtain d' where d': "array_insertionFrom ?e (i + 1) cnt comparator = Inr d'"
      "perm_upto (unat cnt) ?e d'" "cmp_sorted comparator (take (unat cnt) d')"
      using 1(1)[OF True rd l(1) refl w] 1(3,5) l(3) by auto
    have "array_insertionFrom d i cnt comparator = Inr d'"
      using True rd l(1) w d'(1) by (subst array_insertionFrom.simps) simp
    then show ?thesis using perm_upto_trans[OF e(1) d'(2)] d'(3) by blast
  next
    case False
    then show ?thesis using 1(2,4) by (subst array_insertionFrom.simps) simp
  qed
qed

section \<open>Properties\<close>

lemma array_rep_perm:
  assumes "array_rep array xs" "perm_upto (length xs) (a_data array) d"
  shows "array_rep (array\<lparr>a_data := d\<rparr>) (take (length xs) d)" "mset (take (length xs) d) = mset xs"
  using assms by (auto simp: array_rep_def perm_upto_def)

text \<open>
  C29. \<^verbatim>\<open>array_sort\<close> sorts: for a comparator that is a total preorder it returns, stays inside the
  array, and leaves a permutation of the objects that is sorted with respect to the comparator.
\<close>

theorem array_sort_sorts:
  assumes rep: "array_rep array xs" and cmp: "total_preorder comparator"
  shows "\<exists>array' ys. array_sort array comparator = Inr array' \<and> array_rep array' ys \<and>
           mset ys = mset xs \<and> cmp_sorted comparator ys"
proof (cases "a_count array = 0")
  case True
  then show ?thesis using rep by (auto simp: array_sort_def array_rep_def)
next
  case False
  let ?n = "length xs" and ?d = "a_data array"
  have cnt: "unat (a_count array) = ?n" and n: "?n \<le> length ?d" "?n < 2 ^ 30"
    using rep by (auto simp: array_rep_def)
  have pos: "0 < ?n" using False cnt by (metis unat_gt_0 word_neq_0_conv)
  have c1: "unat (a_count array - 1) < ?n" using cnt pos by (simp add: unat_pred_pos)
  obtain d1 where d1: "(if a_count array > 5
      then array_quickSort (unat (2 * array_logBase2 (a_count array))) ?d 0 (a_count array - 1) comparator
      else Inr ?d) = Inr d1" "perm_upto ?n ?d d1"
    using array_quickSort_perm[OF n, of "a_count array - 1" "unat (2 * array_logBase2 (a_count array))" 0 comparator] c1
    by (cases "a_count array > 5") auto
  have le1: "1 \<le> a_count array" using cnt pos by (simp add: word_le_nat_alt Suc_le_eq)
  have "cmp_sorted comparator (take (unat 1) d1)" by (cases d1) auto
  then obtain d2 where d2: "array_insertionSort d1 (a_count array) comparator = Inr d2" "perm_upto ?n d1 d2"
    "cmp_sorted comparator (take ?n d2)"
    using array_insertionFrom_spec[OF cmp le1, of d1] cnt n perm_upto_length[OF d1(2)]
    by (auto simp: array_insertionSort_def)
  have "array_sort array comparator = Inr (array\<lparr>a_data := d2\<rparr>)"
    using False d1(1) d2(1) by (simp add: array_sort_def del: array_quickSort.simps)
  then show ?thesis
    using array_rep_perm[OF rep perm_upto_trans[OF d1(2) d2(2)]] d2(3) by blast
qed

definition address_order :: comparator where
  "address_order x y = (if x < y then -1 else if x = y then 0 else 1)"

lemma address_order_total: "total_preorder address_order"
  by (auto simp: total_preorder_def address_order_def split: if_splits)

theorem array_sort_sorts_witness:
  "\<exists>array' ys. array_sort (example_array\<lparr>a_data := [9, 4, 0, 0, 0]\<rparr>) address_order = Inr array' \<and>
     array_rep array' ys \<and> mset ys = mset [9, 4] \<and> cmp_sorted address_order ys"
  by (rule array_sort_sorts[OF _ address_order_total]) (simp add: array_rep_def example_array_def)

text \<open>
  The quicksort does nothing on descending objects: \<^verbatim>\<open>__array_isSorted\<close> tests the wrong direction
  and reports a range in which every object but the last is not below its successor as sorted.
\<close>

theorem array_quickSort_skips_descending:
  assumes "unat end < length d" "end \<noteq> UINT32_MAX"
    "\<forall>k. Suc k < unat end \<longrightarrow> comparator (d ! k) (d ! Suc k) \<ge> 0"
  shows "array_isSorted d begin end comparator = Inr True \<and>
         array_quickSort (Suc depth) d begin end comparator = Inr d"
proof -
  have "end \<noteq> 0 \<Longrightarrow> array_isSortedFrom d begin end comparator = Inr True"
    using assms(1,3)
  proof (induction d "begin" "end" comparator rule: array_isSortedFrom.induct)
    case (1 d "begin" "end" comparator)
    show ?case
    proof (cases "begin < end - 1")
      case True
      have "unat (end - 1) < unat end" using 1(2) by (simp add: unat_pred_pos unat_gt_0)
      then have lt: "Suc (unat begin) < unat end" "unat (begin + 1) = Suc (unat begin)"
        using True unat_Suc_no_wrap[OF True] unat_pred_pos[of "end"] by (auto simp: word_less_nat_alt)
      then have ge: "\<not> comparator (d ! unat begin) (d ! unat (begin + 1)) < 0" using 1(4) by fastforce
      have rd: "read_cell d (unat begin) = Inr (d ! unat begin)"
        "read_cell d (unat (begin + 1)) = Inr (d ! unat (begin + 1))" using lt 1(3) by auto
      show ?thesis
        using 1(1)[OF True rd ge 1(2-4)] True rd ge by (subst array_isSortedFrom.simps) simp
    next
      case False
      then show ?thesis by (subst array_isSortedFrom.simps) simp
    qed
  qed
  then have "array_isSorted d begin end comparator = Inr True" by (simp add: array_isSorted_def)
  then show ?thesis by simp
qed

theorem array_quickSort_skips_descending_witness:
  "array_quickSort (Suc 5) [9, 8, 7, 6, 5, 4, 3] 0 6 address_order = Inr [9, 8, 7, 6, 5, 4, 3]"
proof -
  have "address_order ([9, 8, 7, 6, 5, 4, 3] ! k) ([9, 8, 7, 6, 5, 4, 3] ! Suc k) \<ge> 0" if "Suc k < 6" for k
  proof -
    have "k \<in> {0, 1, 2, 3, 4}" using that by auto
    then show ?thesis by (auto simp: address_order_def)
  qed
  then show ?thesis
    using array_quickSort_skips_descending[of 6 "[9, 8, 7, 6, 5, 4, 3]" address_order 0 5]
    by (simp del: array_quickSort.simps)
qed

end
