(* ===== verification/Hashset.thy ===== *)
theory Hashset
  imports KArray
begin

text \<open>
  \<^verbatim>\<open>src/sys/container/hashset.c\<close>: the hash table with chained buckets, tombstones and a table of prime
  capacities. The theory shows that it is a finite map through growing and shrinking, that its
  iterator and \<^verbatim>\<open>hashset_allObjects\<close> deliver the objects, and what happens to a \<open>NULL\<close> key.
\<close>

section \<open>Model\<close>

definition hashset_capacities :: "u32 list" where
  "hashset_capacities =
    [5, 11, 23, 41, 67, 113, 199, 317, 521, 839, 1361, 2207, 3571, 5779, 9349, 15121,
     24473, 39607, 64081, 103681, 167759, 271429, 439199, 710641, 1149857, 1860503, 3010349,
     4870843, 7881193, 12752029, 20633237, 33385273, 54018521, 87403763, 141422317, 228826121,
     370248451, 599074561, 969323023, 1568397599, 2537720629, 4106118251]"

definition hashset_maxCount :: "u32 list" where
  "hashset_maxCount =
    [4, 8, 17, 29, 47, 76, 123, 199, 322, 521, 843, 1364, 2207, 3571, 5778, 9349,
     15127, 24476, 39603, 64079, 103682, 167761, 271443, 439204, 710647, 1149851, 1860498,
     3010349, 4870847, 7881196, 12752043, 20633239, 33385282, 54018521, 87403803, 141422324,
     228826127, 370248451, 599074578, 969323029, 1568397607, 2537720636]"

text \<open>
  A bucket with the address of its block; the chain along the \<^verbatim>\<open>overflow\<close> pointers is a list.
\<close>

record bucket =
  b_self :: ptr
  b_key :: ptr
  b_data :: ptr

record hashset_t =
  hs_capacity :: u32
  hs_count :: u32
  hs_buckets :: "bucket list list"
  hs_hash :: "ptr \<Rightarrow> u32"
  hs_compare :: "ptr \<Rightarrow> ptr \<Rightarrow> bool"
  hs_lock :: spinlock

definition hash_pointerCompare :: "ptr \<Rightarrow> ptr \<Rightarrow> bool" where
  "hash_pointerCompare key1 key2 = (key1 = key2)"

definition hash_integerCompare :: "ptr \<Rightarrow> ptr \<Rightarrow> bool" where
  "hash_integerCompare key1 key2 = (key1 = key2)"

definition hash_pointer :: "ptr \<Rightarrow> u32" where
  "hash_pointer key = key"

definition hash_integer :: "ptr \<Rightarrow> u32" where
  "hash_integer key =
     (let ikey = (drop_bit 16 key XOR key) * 0x45D9F3B;
          ikey = (drop_bit 16 ikey XOR ikey) * 0x45D9F3B
      in drop_bit 16 ikey XOR ikey)"

text \<open>Choosing the capacity: the loop over the table from entry \<open>i\<close> on.\<close>

fun hashset_chooseCapacity :: "nat \<Rightarrow> nat \<Rightarrow> u32 \<Rightarrow> u32" where
  "hashset_chooseCapacity 0 i capacity = capacity"
| "hashset_chooseCapacity (Suc n) i capacity =
     (if hashset_capacities ! i > capacity \<or> i = 41 then hashset_capacities ! (i - 1)
      else hashset_chooseCapacity n (i + 1) capacity)"

text \<open>
  \<open>al\<close> tells which sizes the allocator can serve. A fresh bucket array has as many cells as
  \<open>capacity * sizeof(pointer)\<close> bytes, computed in 32 bits, hold.
\<close>

definition empty_buckets :: "u32 \<Rightarrow> bucket list list" where
  "empty_buckets capacity = replicate (unat (capacity * 4) div 4) []"

definition hashset_create ::
  "bool \<Rightarrow> (u32 \<Rightarrow> bool) \<Rightarrow> u32 \<Rightarrow> (ptr \<Rightarrow> u32) \<Rightarrow> (ptr \<Rightarrow> ptr \<Rightarrow> bool) option \<Rightarrow> hashset_t option" where
  "hashset_create ok al capacity hashFunction compareFunction =
     (if \<not> ok then None
      else
        (let capacity = hashset_chooseCapacity 41 1 capacity
         in if \<not> al (capacity * 4) then None
            else Some \<lparr> hs_capacity = capacity, hs_count = 0, hs_buckets = empty_buckets capacity,
              hs_hash = hashFunction,
              hs_compare = (case compareFunction of None \<Rightarrow> hash_pointerCompare | Some f \<Rightarrow> f),
              hs_lock = SPINLOCK_INIT \<rparr>))"

definition hashset_lock :: "hashset_t \<Rightarrow> hashset_t result" where
  "hashset_lock hs = bind_res (spinlock_lock (hs_lock hs)) (\<lambda>l. Inr (hs\<lparr>hs_lock := l\<rparr>))"

definition hashset_unlock :: "hashset_t \<Rightarrow> hashset_t" where
  "hashset_unlock hs = hs\<lparr>hs_lock := spinlock_unlock (hs_lock hs)\<rparr>"

text \<open>The blocks of buckets that \<^verbatim>\<open>hashset_destroy\<close> releases, in order.\<close>

definition hashset_destroy :: "hashset_t \<Rightarrow> ptr list" where
  "hashset_destroy hs = map b_self (concat (take (unat (hs_capacity hs)) (hs_buckets hs)))"

text \<open>The chain of a key, and the walk along a chain.\<close>

definition hashset_index :: "hashset_t \<Rightarrow> ptr \<Rightarrow> nat" where
  "hashset_index hs key = unat (hs_hash hs key mod hs_capacity hs)"

fun chain_find :: "(ptr \<Rightarrow> ptr \<Rightarrow> bool) \<Rightarrow> ptr \<Rightarrow> bucket list \<Rightarrow> bucket option" where
  "chain_find compare key [] = None"
| "chain_find compare key (b # bs) = (if compare (b_key b) key then Some b else chain_find compare key bs)"

definition hashset_findBucket1 :: "hashset_t \<Rightarrow> ptr \<Rightarrow> bucket option result" where
  "hashset_findBucket1 hs key =
     bind_res (read_cell (hs_buckets hs) (hashset_index hs key)) (\<lambda>chain.
     Inr (chain_find (hs_compare hs) key chain))"

text \<open>\<open>blk\<close> is the address of a new bucket, \<open>NULL\<close> if the allocation fails.\<close>

definition hashset_findBucket2 :: "hashset_t \<Rightarrow> ptr \<Rightarrow> ptr \<Rightarrow> (bucket option \<times> hashset_t) result" where
  "hashset_findBucket2 hs key blk =
     (let index = hashset_index hs key in
      bind_res (read_cell (hs_buckets hs) index) (\<lambda>chain.
      case chain_find (hs_compare hs) key chain of
        Some b \<Rightarrow> Inr (Some b, hs)
      | None \<Rightarrow>
          if blk = NULL then Inr (None, hs)
          else
            (let b = \<lparr> b_self = blk, b_key = key, b_data = NULL \<rparr>
             in Inr (Some b, hs\<lparr>hs_buckets := (hs_buckets hs)[index := b # chain]\<rparr>))))"

text \<open>The inner statement of the rehash loop: a bucket moves to its new chain or is released.\<close>

definition hashset_moveBucket :: "(ptr \<Rightarrow> u32) \<Rightarrow> u32 \<Rightarrow> bucket list list \<Rightarrow> bucket \<Rightarrow> bucket list list result" where
  "hashset_moveBucket hash capacity buckets b =
     (if b_key b \<noteq> NULL then
        (let index = unat (hash (b_key b) mod capacity) in
         bind_res (read_cell buckets index) (\<lambda>chain. write_cell buckets index (b # chain)))
      else Inr buckets)"

definition hashset_rehash :: "(u32 \<Rightarrow> bool) \<Rightarrow> hashset_t \<Rightarrow> u32 \<Rightarrow> hashset_t result" where
  "hashset_rehash al hs capacity =
     (if \<not> al (capacity * 4) then Inr hs
      else
        bind_res (fold_res (hashset_moveBucket (hs_hash hs) capacity) (empty_buckets capacity)
                    (concat (take (unat (hs_capacity hs)) (hs_buckets hs)))) (\<lambda>buckets.
        Inr (hs\<lparr>hs_capacity := capacity, hs_buckets := buckets\<rparr>)))"

fun hashset_expandFrom :: "nat \<Rightarrow> nat \<Rightarrow> (u32 \<Rightarrow> bool) \<Rightarrow> hashset_t \<Rightarrow> hashset_t result" where
  "hashset_expandFrom 0 i al hs = Inr hs"
| "hashset_expandFrom (Suc n) i al hs =
     (if hs_capacity hs = hashset_capacities ! i then
        (if hs_count hs \<ge> hashset_maxCount ! i
         then hashset_rehash al hs (hashset_capacities ! (i + 1)) else Inr hs)
      else hashset_expandFrom n (i + 1) al hs)"

definition hashset_expandIfNeeded :: "(u32 \<Rightarrow> bool) \<Rightarrow> hashset_t \<Rightarrow> hashset_t result" where
  "hashset_expandIfNeeded = hashset_expandFrom 41 0"

fun hashset_shrinkFrom :: "nat \<Rightarrow> nat \<Rightarrow> (u32 \<Rightarrow> bool) \<Rightarrow> hashset_t \<Rightarrow> hashset_t result" where
  "hashset_shrinkFrom 0 i al hs = Inr hs"
| "hashset_shrinkFrom (Suc n) i al hs =
     bind_res
       (if hs_capacity hs = hashset_capacities ! i \<and> hs_count hs \<le> hashset_maxCount ! (i - 1)
        then hashset_rehash al hs (hashset_capacities ! (i - 1)) else Inr hs)
       (\<lambda>hs. hashset_shrinkFrom n (i + 1) al hs)"

definition hashset_shrinkIfNeeded :: "(u32 \<Rightarrow> bool) \<Rightarrow> hashset_t \<Rightarrow> hashset_t result" where
  "hashset_shrinkIfNeeded = hashset_shrinkFrom 40 1"

definition hashset_objectForKey :: "hashset_t \<Rightarrow> ptr \<Rightarrow> ptr result" where
  "hashset_objectForKey hs key =
     bind_res (hashset_findBucket1 hs key) (\<lambda>bucket.
     Inr (case bucket of None \<Rightarrow> NULL | Some b \<Rightarrow> b_data b))"

text \<open>An assignment through the bucket pointer the walk returned.\<close>

definition chain_update :: "ptr \<Rightarrow> (bucket \<Rightarrow> bucket) \<Rightarrow> bucket list \<Rightarrow> bucket list" where
  "chain_update self f = map (\<lambda>b. if b_self b = self then f b else b)"

definition hashset_updateBucket :: "hashset_t \<Rightarrow> ptr \<Rightarrow> (bucket \<Rightarrow> bucket) \<Rightarrow> hashset_t" where
  "hashset_updateBucket hs self f = hs\<lparr>hs_buckets := map (chain_update self f) (hs_buckets hs)\<rparr>"

definition hashset_removeObjectForKey :: "(u32 \<Rightarrow> bool) \<Rightarrow> hashset_t \<Rightarrow> ptr \<Rightarrow> hashset_t result" where
  "hashset_removeObjectForKey al hs key =
     bind_res (hashset_findBucket1 hs key) (\<lambda>bucket.
     case bucket of
       None \<Rightarrow> Inr hs
     | Some b \<Rightarrow>
         (let hs = hashset_updateBucket hs (b_self b) (\<lambda>b. b\<lparr>b_key := NULL, b_data := NULL\<rparr>)
          in hashset_shrinkIfNeeded al (hs\<lparr>hs_count := hs_count hs - 1\<rparr>)))"

text \<open>Without memory for a new bucket the pointer that is dereferenced is \<open>NULL\<close>.\<close>

definition hashset_setObjectForKey :: "(u32 \<Rightarrow> bool) \<Rightarrow> ptr \<Rightarrow> hashset_t \<Rightarrow> ptr \<Rightarrow> ptr \<Rightarrow> hashset_t result" where
  "hashset_setObjectForKey al blk hs data key =
     (if data = NULL then hashset_removeObjectForKey al hs key
      else
        bind_res (hashset_findBucket2 hs key blk) (\<lambda>(bucket, hs).
        case bucket of
          None \<Rightarrow> Inl OutOfBounds
        | Some b \<Rightarrow>
            if b_data b = NULL then
              (let hs = hashset_updateBucket hs (b_self b) (\<lambda>b. b\<lparr>b_data := data\<rparr>)
               in hashset_expandIfNeeded al (hs\<lparr>hs_count := hs_count hs + 1\<rparr>))
            else Inr hs))"

section \<open>The map a hash set represents\<close>

text \<open>
  What the hash and compare functions have to satisfy: comparing is an equivalence on the keys in
  use, equal keys have equal hashes, and the \<open>NULL\<close> key of a tombstone matches no key.
\<close>

definition key_ok :: "(ptr \<Rightarrow> u32) \<Rightarrow> (ptr \<Rightarrow> ptr \<Rightarrow> bool) \<Rightarrow> bool" where
  "key_ok hash compare \<longleftrightarrow>
     (\<forall>k. k \<noteq> NULL \<longrightarrow> compare k k) \<and>
     (\<forall>k l. compare k l \<longrightarrow> compare l k) \<and>
     (\<forall>k l m. compare k l \<longrightarrow> compare l m \<longrightarrow> compare k m) \<and>
     (\<forall>k l. compare k l \<longrightarrow> hash k = hash l) \<and>
     (\<forall>k. k \<noteq> NULL \<longrightarrow> \<not> compare NULL k)"

definition hs_all :: "hashset_t \<Rightarrow> bucket list" where
  "hs_all hs = concat (hs_buckets hs)"

definition hs_live :: "hashset_t \<Rightarrow> bucket set" where
  "hs_live hs = {b \<in> set (hs_all hs). b_key b \<noteq> NULL}"

definition hs_inv :: "hashset_t \<Rightarrow> bool" where
  "hs_inv hs \<longleftrightarrow>
     key_ok (hs_hash hs) (hs_compare hs) \<and>
     0 < unat (hs_capacity hs) \<and> unat (hs_capacity hs) < 2 ^ 30 \<and>
     length (hs_buckets hs) = unat (hs_capacity hs) \<and>
     distinct (map b_self (hs_all hs)) \<and> NULL \<notin> set (map b_self (hs_all hs)) \<and>
     (\<forall>b \<in> set (hs_all hs). b_key b = NULL \<longleftrightarrow> b_data b = NULL) \<and>
     (\<forall>i < length (hs_buckets hs). \<forall>b \<in> set (hs_buckets hs ! i). b_key b \<noteq> NULL \<longrightarrow> hashset_index hs (b_key b) = i) \<and>
     (\<forall>b \<in> hs_live hs. \<forall>c \<in> hs_live hs. hs_compare hs (b_key b) (b_key c) \<longrightarrow> b = c) \<and>
     hs_count hs = of_nat (card (hs_live hs))"

text \<open>The object a key is mapped to, \<open>NULL\<close> if there is none.\<close>

definition hs_maps :: "hashset_t \<Rightarrow> ptr \<Rightarrow> ptr \<Rightarrow> bool" where
  "hs_maps hs key d \<longleftrightarrow>
     (if d = NULL then \<forall>b \<in> hs_live hs. \<not> hs_compare hs (b_key b) key
      else \<exists>b \<in> hs_live hs. hs_compare hs (b_key b) key \<and> b_data b = d)"

lemma chain_find_Some:
  "chain_find compare key bs = Some b \<Longrightarrow> b \<in> set bs \<and> compare (b_key b) key"
  by (induction bs) (auto split: if_splits)

lemma chain_find_None: "chain_find compare key bs = None \<longleftrightarrow> (\<forall>b \<in> set bs. \<not> compare (b_key b) key)"
  by (induction bs) auto

lemma hs_index_less: "hs_inv hs \<Longrightarrow> hashset_index hs key < length (hs_buckets hs)"
  by (simp add: hs_inv_def hashset_index_def unat_mod)

lemma hs_in_all: "i < length (hs_buckets hs) \<Longrightarrow> b \<in> set (hs_buckets hs ! i) \<Longrightarrow> b \<in> set (hs_all hs)"
  by (auto simp: hs_all_def)

lemma hs_key_ok: "hs_inv hs \<Longrightarrow> key_ok (hs_hash hs) (hs_compare hs)"
  by (simp add: hs_inv_def)

lemma hs_all_in_chain:
  assumes "b \<in> set (hs_all hs)"
  obtains i where "i < length (hs_buckets hs)" "b \<in> set (hs_buckets hs ! i)"
  using assms unfolding hs_all_def set_concat by (metis UN_E in_set_conv_nth)

text \<open>Live buckets that match a key are in its chain.\<close>

lemma hs_live_in_chain:
  assumes inv: "hs_inv hs" and b: "b \<in> hs_live hs" "hs_compare hs (b_key b) key"
  shows "b \<in> set (hs_buckets hs ! hashset_index hs key)"
proof -
  obtain i where i: "i < length (hs_buckets hs)" "b \<in> set (hs_buckets hs ! i)"
    using b(1) hs_all_in_chain[of b hs] by (auto simp: hs_live_def)
  have "hashset_index hs (b_key b) = i"
    using inv i b(1) by (auto simp: hs_inv_def hs_live_def)
  moreover have "hs_hash hs (b_key b) = hs_hash hs key"
    using hs_key_ok[OF inv] b(2) unfolding key_ok_def by blast
  ultimately show ?thesis using i(2) by (simp add: hashset_index_def)
qed

lemma hashset_findBucket1_spec:
  assumes inv: "hs_inv hs" and key: "key \<noteq> NULL"
  shows "\<exists>r. hashset_findBucket1 hs key = Inr r \<and>
           (case r of None \<Rightarrow> \<forall>b \<in> hs_live hs. \<not> hs_compare hs (b_key b) key
            | Some b \<Rightarrow> b \<in> hs_live hs \<and> hs_compare hs (b_key b) key)"
proof -
  let ?chain = "hs_buckets hs ! hashset_index hs key"
  have r: "hashset_findBucket1 hs key = Inr (chain_find (hs_compare hs) key ?chain)"
    using hs_index_less[OF inv] by (simp add: hashset_findBucket1_def)
  show ?thesis
  proof (cases "chain_find (hs_compare hs) key ?chain")
    case None
    then have "\<not> hs_compare hs (b_key b) key" if "b \<in> hs_live hs" for b
      using hs_live_in_chain[OF inv that, of key] by (auto simp: chain_find_None)
    then show ?thesis using r None by auto
  next
    case (Some b)
    note f = chain_find_Some[OF Some]
    have "b_key b \<noteq> NULL" using f key hs_key_ok[OF inv] unfolding key_ok_def by metis
    then show ?thesis
      using r Some f hs_in_all[OF hs_index_less[OF inv]] by (auto simp: hs_live_def)
  qed
qed

lemma hs_live_data: "hs_inv hs \<Longrightarrow> b \<in> hs_live hs \<Longrightarrow> b_data b \<noteq> NULL"
  by (auto simp: hs_inv_def hs_live_def)

lemma hashset_objectForKey_maps:
  assumes "hs_inv hs" "key \<noteq> NULL"
  shows "\<exists>d. hashset_objectForKey hs key = Inr d \<and> hs_maps hs key d"
proof -
  obtain r where r: "hashset_findBucket1 hs key = Inr r"
    "case r of None \<Rightarrow> \<forall>b \<in> hs_live hs. \<not> hs_compare hs (b_key b) key
     | Some b \<Rightarrow> b \<in> hs_live hs \<and> hs_compare hs (b_key b) key"
    using hashset_findBucket1_spec[OF assms] by blast
  show ?thesis
  proof (cases r)
    case None
    then show ?thesis using r by (simp add: hashset_objectForKey_def hs_maps_def)
  next
    case (Some b)
    then show ?thesis
      using r hs_live_data[OF assms(1), of b] by (auto simp: hashset_objectForKey_def hs_maps_def)
  qed
qed

lemma hs_live_unique:
  assumes "hs_inv hs" "b \<in> hs_live hs" "c \<in> hs_live hs" "hs_compare hs (b_key b) key" "hs_compare hs (b_key c) key"
  shows "b = c"
proof -
  have "hs_compare hs (b_key b) (b_key c)"
    using hs_key_ok[OF assms(1)] assms(4,5) unfolding key_ok_def by blast
  then show ?thesis using assms(1-3) by (auto simp: hs_inv_def)
qed

lemma hs_maps_live:
  assumes inv: "hs_inv hs" and b: "b \<in> hs_live hs" "hs_compare hs (b_key b) key"
  shows "hs_maps hs key d \<longleftrightarrow> d = b_data b"
proof
  assume "d = b_data b"
  then show "hs_maps hs key d" using b hs_live_data[OF inv b(1)] unfolding hs_maps_def by metis
next
  assume m: "hs_maps hs key d"
  then obtain c where "c \<in> hs_live hs" "hs_compare hs (b_key c) key" "b_data c = d"
    using b unfolding hs_maps_def by metis
  then show "d = b_data b" using hs_live_unique[OF inv b(1) _ b(2)] by metis
qed

lemma hs_maps_none:
  assumes "\<forall>b \<in> hs_live hs. \<not> hs_compare hs (b_key b) key"
  shows "hs_maps hs key d \<longleftrightarrow> d = NULL"
  unfolding hs_maps_def using assms by metis

lemma hs_maps_unique: "hs_inv hs \<Longrightarrow> hs_maps hs key d \<Longrightarrow> hs_maps hs key e \<Longrightarrow> d = e"
  using hs_maps_live hs_maps_none by metis

text \<open>Looking up is the map.\<close>

lemma hashset_objectForKey_iff:
  assumes "hs_inv hs" "key \<noteq> NULL"
  shows "hashset_objectForKey hs key = Inr d \<longleftrightarrow> hs_maps hs key d"
  using hashset_objectForKey_maps[OF assms] hs_maps_unique[OF assms(1)] by auto

section \<open>Rehashing\<close>

lemma mset_concat_push:
  "i < length xss \<Longrightarrow> mset (concat (xss[i := x # xss ! i])) = add_mset x (mset (concat xss))"
proof (induction xss arbitrary: i)
  case (Cons xs xss)
  then show ?case by (cases i) auto
qed simp

definition placed :: "(ptr \<Rightarrow> u32) \<Rightarrow> u32 \<Rightarrow> bucket list list \<Rightarrow> bool" where
  "placed hash capacity buckets \<longleftrightarrow>
     (\<forall>i < length buckets. \<forall>b \<in> set (buckets ! i). b_key b \<noteq> NULL \<longrightarrow> unat (hash (b_key b) mod capacity) = i)"

lemma fold_moveBucket:
  assumes "0 < unat capacity"
  shows "length buckets = unat capacity \<Longrightarrow> placed hash capacity buckets \<Longrightarrow>
    \<exists>buckets'. fold_res (hashset_moveBucket hash capacity) buckets bs = Inr buckets' \<and>
      length buckets' = unat capacity \<and> placed hash capacity buckets' \<and>
      mset (concat buckets') = mset (concat buckets) + mset (filter (\<lambda>b. b_key b \<noteq> NULL) bs)"
proof (induction bs arbitrary: buckets)
  case (Cons b bs)
  show ?case
  proof (cases "b_key b = NULL")
    case True
    then show ?thesis using Cons.IH[OF Cons.prems] by (simp add: hashset_moveBucket_def)
  next
    case False
    let ?i = "unat (hash (b_key b) mod capacity)"
    let ?buckets = "buckets[?i := b # buckets ! ?i]"
    have i: "?i < length buckets" using assms Cons.prems(1) by (simp add: unat_mod)
    have step: "hashset_moveBucket hash capacity buckets b = Inr ?buckets"
      using False i by (simp add: hashset_moveBucket_def Let_def)
    have "placed hash capacity ?buckets"
      using Cons.prems(2) i by (auto simp: placed_def nth_list_update)
    then obtain buckets' where "fold_res (hashset_moveBucket hash capacity) ?buckets bs = Inr buckets'"
      "length buckets' = unat capacity" "placed hash capacity buckets'"
      "mset (concat buckets') = mset (concat ?buckets) + mset (filter (\<lambda>b. b_key b \<noteq> NULL) bs)"
      using Cons.IH[of ?buckets] Cons.prems(1) by auto
    then show ?thesis
      using step False mset_concat_push[OF i, of b] by (simp del: mset_concat)
  qed
qed simp

text \<open>Two hash sets with the same live buckets are the same map.\<close>

definition same_map :: "hashset_t \<Rightarrow> hashset_t \<Rightarrow> bool" where
  "same_map hs hs' \<longleftrightarrow> hs_live hs' = hs_live hs \<and> hs_compare hs' = hs_compare hs \<and>
     hs_hash hs' = hs_hash hs \<and> hs_count hs' = hs_count hs"

lemma same_map_refl [simp]: "same_map hs hs"
  by (simp add: same_map_def)

lemma same_map_trans: "same_map a b \<Longrightarrow> same_map b c \<Longrightarrow> same_map a c"
  by (simp add: same_map_def)

lemma same_map_maps: "same_map hs hs' \<Longrightarrow> hs_maps hs' key d \<longleftrightarrow> hs_maps hs key d"
  by (simp add: same_map_def hs_maps_def)

lemma hashset_rehash_inv:
  assumes inv: "hs_inv hs" and cap: "0 < unat capacity" "unat capacity < 2 ^ 30"
  shows "\<exists>hs'. hashset_rehash al hs capacity = Inr hs' \<and> hs_inv hs' \<and> same_map hs hs'"
proof (cases "al (capacity * 4)")
  case False
  then show ?thesis using inv by (auto simp: hashset_rehash_def)
next
  case True
  let ?live = "filter (\<lambda>b. b_key b \<noteq> NULL) (hs_all hs)"
  have all: "concat (take (unat (hs_capacity hs)) (hs_buckets hs)) = hs_all hs"
    using inv by (simp add: hs_inv_def hs_all_def)
  have e: "length (empty_buckets capacity) = unat capacity" "placed (hs_hash hs) capacity (empty_buckets capacity)"
    "concat (empty_buckets capacity) = []"
    using unat_times4[OF cap(2)] by (auto simp: empty_buckets_def placed_def)
  obtain buckets where b: "fold_res (hashset_moveBucket (hs_hash hs) capacity) (empty_buckets capacity) (hs_all hs) = Inr buckets"
    "length buckets = unat capacity" "placed (hs_hash hs) capacity buckets" "mset (concat buckets) = mset ?live"
    using fold_moveBucket[OF cap(1) e(1,2), of "hs_all hs"] e(3) by auto
  let ?hs = "hs\<lparr>hs_capacity := capacity, hs_buckets := buckets\<rparr>"
  have r: "hashset_rehash al hs capacity = Inr ?hs" using True all b(1) by (simp add: hashset_rehash_def)
  have set: "set (hs_all ?hs) = set ?live" using mset_eq_setD[OF b(4)] by (simp add: hs_all_def)
  have live: "hs_live ?hs = hs_live hs" unfolding hs_live_def set by auto
  have "mset (map b_self (hs_all ?hs)) = mset (map b_self ?live)" using b(4) by (simp add: hs_all_def)
  moreover have "distinct (map b_self ?live)" using inv by (auto simp: hs_inv_def distinct_map_filter)
  ultimately have d: "distinct (map b_self (hs_all ?hs))" using mset_eq_imp_distinct_iff by blast
  have "\<forall>i < length buckets. \<forall>b \<in> set (buckets ! i). b_key b \<noteq> NULL \<longrightarrow> hashset_index ?hs (b_key b) = i"
    using b(3) by (simp add: placed_def hashset_index_def)
  then have "hs_inv ?hs"
    using inv cap b(2) d set live unfolding hs_inv_def by auto
  then show ?thesis using r live by (auto simp: same_map_def)
qed

section \<open>Growing and shrinking\<close>

lemma hashset_expandFrom_cases:
  "hashset_expandFrom n i al hs = Inr hs \<or>
   (\<exists>j < i + n. hs_count hs \<ge> hashset_maxCount ! j \<and>
      hashset_expandFrom n i al hs = hashset_rehash al hs (hashset_capacities ! (j + 1)))"
proof (induction n arbitrary: i)
  case (Suc n)
  show ?case
  proof (cases "hs_capacity hs = hashset_capacities ! i")
    case True
    then show ?thesis
      by (cases "hs_count hs \<ge> hashset_maxCount ! i") (auto intro!: disjI2 exI[of _ i])
  next
    case False
    then show ?thesis using Suc.IH[of "i + 1"] by auto
  qed
qed simp

text \<open>The entries of the tables that a set of fewer than \<open>2 ^ 29\<close> objects can reach.\<close>

lemma expand_table:
  "j < 41 \<Longrightarrow> hashset_maxCount ! j < 0x20000000 \<Longrightarrow>
   0 < hashset_capacities ! (j + 1) \<and> hashset_capacities ! (j + 1) < 0x40000000"
proof -
  have "list_all (\<lambda>j. hashset_maxCount ! j < 0x20000000 \<longrightarrow>
      0 < hashset_capacities ! (j + 1) \<and> hashset_capacities ! (j + 1) < 0x40000000) [0..<41]"
    by code_simp
  then show "j < 41 \<Longrightarrow> hashset_maxCount ! j < 0x20000000 \<Longrightarrow>
      0 < hashset_capacities ! (j + 1) \<and> hashset_capacities ! (j + 1) < 0x40000000"
    by (simp add: list_all_iff)
qed

lemma shrink_table:
  "1 \<le> j \<Longrightarrow> j < 41 \<Longrightarrow> hashset_capacities ! j < 0x40000000 \<Longrightarrow>
   0 < hashset_capacities ! (j - 1) \<and> hashset_capacities ! (j - 1) < 0x40000000"
proof -
  have "list_all (\<lambda>j. hashset_capacities ! j < 0x40000000 \<longrightarrow>
      0 < hashset_capacities ! (j - 1) \<and> hashset_capacities ! (j - 1) < 0x40000000) [1..<41]"
    by code_simp
  then show "1 \<le> j \<Longrightarrow> j < 41 \<Longrightarrow> hashset_capacities ! j < 0x40000000 \<Longrightarrow>
      0 < hashset_capacities ! (j - 1) \<and> hashset_capacities ! (j - 1) < 0x40000000"
    by (simp add: list_all_iff)
qed

lemma word_bounds:
  "0 < x \<and> x < 0x40000000 \<Longrightarrow> 0 < unat x \<and> unat x < 2 ^ 30" for x :: u32
  by (simp add: word_less_nat_alt)

lemma hashset_expandIfNeeded_inv:
  assumes inv: "hs_inv hs" and small: "card (hs_live hs) < 2 ^ 29"
  shows "\<exists>hs'. hashset_expandIfNeeded al hs = Inr hs' \<and> hs_inv hs' \<and> same_map hs hs'"
proof -
  have cnt: "hs_count hs < 0x20000000"
    using inv small by (simp add: hs_inv_def word_less_nat_alt unat_of_nat)
  consider "hashset_expandIfNeeded al hs = Inr hs"
    | j where "j < 41" "hs_count hs \<ge> hashset_maxCount ! j"
      "hashset_expandIfNeeded al hs = hashset_rehash al hs (hashset_capacities ! (j + 1))"
    using hashset_expandFrom_cases[of 41 0 al hs] unfolding hashset_expandIfNeeded_def by auto
  then show ?thesis
  proof cases
    case 1
    then show ?thesis using inv by auto
  next
    case (2 j)
    have "hashset_maxCount ! j < 0x20000000" using 2(2) cnt by (rule order_le_less_trans)
    from word_bounds[OF expand_table[OF 2(1) this]] show ?thesis
      using hashset_rehash_inv[OF inv] 2(3) by auto
  qed
qed

lemma hashset_shrinkFrom_inv:
  "hs_inv hs \<Longrightarrow> 1 \<le> i \<Longrightarrow> i + n \<le> 41 \<Longrightarrow>
   \<exists>hs'. hashset_shrinkFrom n i al hs = Inr hs' \<and> hs_inv hs' \<and> same_map hs hs'"
proof (induction n arbitrary: i hs)
  case (Suc n)
  have "\<exists>hs1. (if hs_capacity hs = hashset_capacities ! i \<and> hs_count hs \<le> hashset_maxCount ! (i - 1)
      then hashset_rehash al hs (hashset_capacities ! (i - 1)) else Inr hs) = Inr hs1 \<and> hs_inv hs1 \<and> same_map hs hs1"
  proof (cases "hs_capacity hs = hashset_capacities ! i \<and> hs_count hs \<le> hashset_maxCount ! (i - 1)")
    case True
    have "hashset_capacities ! i < 0x40000000"
      using True Suc.prems(1) by (simp add: hs_inv_def word_less_nat_alt)
    from word_bounds[OF shrink_table[OF Suc.prems(2) _ this]] show ?thesis
      using hashset_rehash_inv[OF Suc.prems(1)] Suc.prems(3) True by auto
  next
    case False
    then show ?thesis using Suc.prems(1) by auto
  qed
  then obtain hs1 where hs1: "(if hs_capacity hs = hashset_capacities ! i \<and> hs_count hs \<le> hashset_maxCount ! (i - 1)
      then hashset_rehash al hs (hashset_capacities ! (i - 1)) else Inr hs) = Inr hs1" "hs_inv hs1" "same_map hs hs1"
    by blast
  obtain hs2 where "hashset_shrinkFrom n (i + 1) al hs1 = Inr hs2" "hs_inv hs2" "same_map hs1 hs2"
    using Suc.IH[OF hs1(2), of "i + 1"] Suc.prems(2,3) by auto
  then show ?case using hs1 same_map_trans unfolding hashset_shrinkFrom.simps hs1(1) by auto
qed auto

lemma hashset_shrinkIfNeeded_inv:
  "hs_inv hs \<Longrightarrow> \<exists>hs'. hashset_shrinkIfNeeded al hs = Inr hs' \<and> hs_inv hs' \<and> same_map hs hs'"
  unfolding hashset_shrinkIfNeeded_def by (rule hashset_shrinkFrom_inv) auto

section \<open>Removing and inserting\<close>

lemma hs_all_update:
  "hs_all (hashset_updateBucket hs self f) = map (\<lambda>b. if b_self b = self then f b else b) (hs_all hs)"
  by (simp add: hs_all_def hashset_updateBucket_def chain_update_def map_concat)

lemma hs_self_inj:
  "hs_inv hs \<Longrightarrow> b \<in> set (hs_all hs) \<Longrightarrow> c \<in> set (hs_all hs) \<Longrightarrow> b_self b = b_self c \<Longrightarrow> b = c"
  by (auto simp: hs_inv_def distinct_map dest: inj_onD)

lemma map_self_update:
  "(\<And>b. b_self (f b) = b_self b) \<Longrightarrow> map b_self (map (\<lambda>b. if b_self b = self then f b else b) bs) = map b_self bs"
  by (induction bs) auto

lemma finite_hs_live [simp]: "finite (hs_live hs)"
  by (simp add: hs_live_def)

text \<open>Turning a live bucket into a tombstone.\<close>

lemma hs_inv_tombstone:
  assumes inv: "hs_inv hs" and b: "b \<in> hs_live hs"
  defines "hs1 \<equiv> hashset_updateBucket hs (b_self b) (\<lambda>b. b\<lparr>b_key := NULL, b_data := NULL\<rparr>)"
  defines "hs2 \<equiv> hs1\<lparr>hs_count := hs_count hs1 - 1\<rparr>"
  shows "hs_inv hs2" "hs_live hs2 = hs_live hs - {b}"
proof -
  let ?f = "\<lambda>b. b\<lparr>b_key := NULL, b_data := NULL\<rparr>"
  let ?g = "\<lambda>c. if b_self c = b_self b then ?f c else c"
  have all: "hs_all hs2 = map ?g (hs_all hs)"
    using hs_all_update[of hs "b_self b" ?f] by (simp add: hs2_def hs1_def hs_all_def)
  have ball: "b \<in> set (hs_all hs)" using b by (simp add: hs_live_def)
  show live: "hs_live hs2 = hs_live hs - {b}"
  proof (intro set_eqI iffI)
    fix c assume "c \<in> hs_live hs2"
    then obtain c' where "c' \<in> set (hs_all hs)" "c = ?g c'" "b_key c \<noteq> NULL" by (auto simp: hs_live_def all)
    then show "c \<in> hs_live hs - {b}" by (auto simp: hs_live_def split: if_splits)
  next
    fix c assume "c \<in> hs_live hs - {b}"
    then show "c \<in> hs_live hs2"
      using hs_self_inj[OF inv ball, of c] by (force simp: hs_live_def all)
  qed
  have "card (hs_live hs) = Suc (card (hs_live hs2))"
    using b live card_Suc_Diff1[OF finite_hs_live b] by simp
  moreover have "hs_count hs2 = hs_count hs - 1" "hs_count hs = of_nat (card (hs_live hs))"
    using inv by (simp_all add: hs2_def hs1_def hashset_updateBucket_def hs_inv_def)
  ultimately have cnt: "hs_count hs2 = of_nat (card (hs_live hs2))" by simp
  have self: "map b_self (hs_all hs2) = map b_self (hs_all hs)"
    unfolding all by (rule map_self_update) simp
  have fields: "hs_capacity hs2 = hs_capacity hs" "hs_hash hs2 = hs_hash hs" "hs_compare hs2 = hs_compare hs"
    "hs_buckets hs2 = map (chain_update (b_self b) ?f) (hs_buckets hs)"
    by (simp_all add: hs2_def hs1_def hashset_updateBucket_def)
  have "\<forall>i < length (hs_buckets hs2). \<forall>c \<in> set (hs_buckets hs2 ! i). b_key c \<noteq> NULL \<longrightarrow> hashset_index hs2 (b_key c) = i"
    using inv by (auto simp: hs_inv_def fields chain_update_def hashset_index_def split: if_splits)
  moreover have "\<forall>c \<in> set (hs_all hs2). b_key c = NULL \<longleftrightarrow> b_data c = NULL"
    using inv by (auto simp: hs_inv_def all)
  ultimately show "hs_inv hs2"
    using inv cnt live unfolding hs_inv_def self fields by auto
qed

lemma hashset_removeObjectForKey_spec:
  assumes inv: "hs_inv hs" and key: "key \<noteq> NULL"
  shows "\<exists>hs'. hashset_removeObjectForKey al hs key = Inr hs' \<and> hs_inv hs' \<and>
           hs_live hs' = {b \<in> hs_live hs. \<not> hs_compare hs (b_key b) key} \<and> hs_compare hs' = hs_compare hs"
proof -
  obtain r where r: "hashset_findBucket1 hs key = Inr r"
    "case r of None \<Rightarrow> \<forall>b \<in> hs_live hs. \<not> hs_compare hs (b_key b) key
     | Some b \<Rightarrow> b \<in> hs_live hs \<and> hs_compare hs (b_key b) key"
    using hashset_findBucket1_spec[OF assms] by blast
  show ?thesis
  proof (cases r)
    case None
    then show ?thesis using r inv by (auto simp: hashset_removeObjectForKey_def)
  next
    case (Some b)
    then have b: "b \<in> hs_live hs" "hs_compare hs (b_key b) key" using r(2) by auto
    define hs1 where "hs1 = hashset_updateBucket hs (b_self b) (\<lambda>b. b\<lparr>b_key := NULL, b_data := NULL\<rparr>)"
    define hs2 where "hs2 = hs1\<lparr>hs_count := hs_count hs1 - 1\<rparr>"
    note t = hs_inv_tombstone[OF inv b(1), folded hs1_def, folded hs2_def]
    have "hs_live hs - {b} = {b \<in> hs_live hs. \<not> hs_compare hs (b_key b) key}"
      using b hs_live_unique[OF inv b(1) _ b(2)] by blast
    moreover have "hs_compare hs2 = hs_compare hs"
      by (simp add: hs2_def hs1_def hashset_updateBucket_def)
    moreover obtain hs3 where "hashset_shrinkIfNeeded al hs2 = Inr hs3" "hs_inv hs3" "same_map hs2 hs3"
      using hashset_shrinkIfNeeded_inv[OF t(1)] by blast
    moreover have "hashset_removeObjectForKey al hs key = hashset_shrinkIfNeeded al hs2"
      using r(1) Some by (simp add: hashset_removeObjectForKey_def hs1_def hs2_def Let_def)
    ultimately show ?thesis using t(2) by (auto simp: same_map_def)
  qed
qed

text \<open>Pushing a new live bucket.\<close>

lemma chain_update_other: "self \<notin> b_self ` set chain \<Longrightarrow> chain_update self f chain = chain"
  by (auto simp: chain_update_def intro!: map_idI)

lemma hs_inv_push:
  assumes inv: "hs_inv hs" and new: "key \<noteq> NULL" "data \<noteq> NULL" "blk \<noteq> NULL" "blk \<notin> set (map b_self (hs_all hs))"
    and absent: "\<forall>b \<in> hs_live hs. \<not> hs_compare hs (b_key b) key"
  defines "b \<equiv> \<lparr> b_self = blk, b_key = key, b_data = data \<rparr>"
  defines "i \<equiv> hashset_index hs key"
  defines "hs2 \<equiv> hs\<lparr>hs_buckets := (hs_buckets hs)[i := b # hs_buckets hs ! i], hs_count := hs_count hs + 1\<rparr>"
  shows "hs_inv hs2" "hs_live hs2 = insert b (hs_live hs)" "b \<notin> hs_live hs"
proof -
  have i: "i < length (hs_buckets hs)" unfolding i_def by (rule hs_index_less[OF inv])
  have m: "mset (hs_all hs2) = add_mset b (mset (hs_all hs))"
    using mset_concat_push[OF i, of b] by (simp add: hs_all_def hs2_def del: mset_concat)
  have all: "set (hs_all hs2) = insert b (set (hs_all hs))"
    using arg_cong[OF m, of set_mset] by simp
  show live: "hs_live hs2 = insert b (hs_live hs)"
    unfolding hs_live_def all using new(1) by (auto simp: b_def)
  show nin: "b \<notin> hs_live hs" using new(4) by (force simp: hs_live_def b_def)
  have cnt: "hs_count hs2 = of_nat (card (hs_live hs2))"
    using inv live nin by (simp add: hs2_def hs_inv_def)
  have "mset (map b_self (hs_all hs2)) = mset (blk # map b_self (hs_all hs))"
    using arg_cong[OF m, of "image_mset b_self"] by (simp add: b_def)
  moreover have "distinct (blk # map b_self (hs_all hs))" using inv new(4) by (auto simp: hs_inv_def)
  ultimately have d: "distinct (map b_self (hs_all hs2))" using mset_eq_imp_distinct_iff by metis
  have fields: "hs_capacity hs2 = hs_capacity hs" "hs_hash hs2 = hs_hash hs" "hs_compare hs2 = hs_compare hs"
    "hs_buckets hs2 = (hs_buckets hs)[i := b # hs_buckets hs ! i]" by (simp_all add: hs2_def)
  have "\<forall>j < length (hs_buckets hs2). \<forall>c \<in> set (hs_buckets hs2 ! j). b_key c \<noteq> NULL \<longrightarrow> hashset_index hs2 (b_key c) = j"
    using inv i by (auto simp: hs_inv_def fields hashset_index_def nth_list_update b_def i_def)
  moreover have "\<forall>c \<in> hs_live hs2. \<forall>c' \<in> hs_live hs2. hs_compare hs2 (b_key c) (b_key c') \<longrightarrow> c = c'"
  proof -
    have "hs_compare hs l k" if "hs_compare hs k l" for k l
      using that hs_key_ok[OF inv] unfolding key_ok_def by blast
    then have "\<forall>c \<in> hs_live hs. \<not> hs_compare hs (b_key b) (b_key c) \<and> \<not> hs_compare hs (b_key c) (b_key b)"
      using absent by (auto simp: b_def)
    moreover have "\<forall>c \<in> hs_live hs. \<forall>c' \<in> hs_live hs. hs_compare hs (b_key c) (b_key c') \<longrightarrow> c = c'"
      using inv unfolding hs_inv_def by blast
    ultimately show ?thesis unfolding live fields by blast
  qed
  moreover have "\<forall>c \<in> set (hs_all hs2). b_key c = NULL \<longleftrightarrow> b_data c = NULL" "NULL \<notin> set (map b_self (hs_all hs2))"
    using inv new by (auto simp: hs_inv_def all b_def)
  ultimately show "hs_inv hs2"
    using inv cnt d unfolding hs_inv_def by (auto simp: fields)
qed

lemma hashset_setObjectForKey_spec:
  assumes inv: "hs_inv hs" and key: "key \<noteq> NULL" and data: "data \<noteq> NULL"
    and blk: "blk \<noteq> NULL" "blk \<notin> set (map b_self (hs_all hs))" and small: "card (hs_live hs) + 1 < 2 ^ 29"
  shows "\<exists>hs'. hashset_setObjectForKey al blk hs data key = Inr hs' \<and> hs_inv hs' \<and> hs_compare hs' = hs_compare hs \<and>
           hs_live hs' = (if \<exists>b \<in> hs_live hs. hs_compare hs (b_key b) key then hs_live hs
             else insert \<lparr> b_self = blk, b_key = key, b_data = data \<rparr> (hs_live hs))"
proof -
  let ?i = "hashset_index hs key" and ?chain = "hs_buckets hs ! hashset_index hs key"
  have i: "?i < length (hs_buckets hs)" by (rule hs_index_less[OF inv])
  obtain r where r: "chain_find (hs_compare hs) key ?chain = r"
    "case r of None \<Rightarrow> \<forall>b \<in> hs_live hs. \<not> hs_compare hs (b_key b) key
     | Some b \<Rightarrow> b \<in> hs_live hs \<and> hs_compare hs (b_key b) key"
    using hashset_findBucket1_spec[OF inv key] i by (auto simp: hashset_findBucket1_def)
  show ?thesis
  proof (cases r)
    case (Some b)
    then have "hashset_setObjectForKey al blk hs data key = Inr hs"
      using r i data hs_live_data[OF inv, of b]
      by (simp add: hashset_setObjectForKey_def hashset_findBucket2_def Let_def)
    then show ?thesis using inv Some r(2) by auto
  next
    case None
    let ?b = "\<lparr> b_self = blk, b_key = key, b_data = data \<rparr>"
    define hs2 where "hs2 = hs\<lparr>hs_buckets := (hs_buckets hs)[?i := ?b # ?chain], hs_count := hs_count hs + 1\<rparr>"
    have absent: "\<forall>b \<in> hs_live hs. \<not> hs_compare hs (b_key b) key" using r(2) None by simp
    note p = hs_inv_push[OF inv key data blk absent, folded hs2_def]
    have other: "chain_update blk f c = c" if "c \<in> set (hs_buckets hs)" for f c
      using that blk(2) by (intro chain_update_other) (auto simp: hs_all_def)
    have "map (chain_update blk f) (hs_buckets hs) = hs_buckets hs" for f
      using other by (intro map_idI)
    then have upd: "map (chain_update blk (\<lambda>b. b\<lparr>b_data := data\<rparr>))
        ((hs_buckets hs)[?i := \<lparr> b_self = blk, b_key = key, b_data = NULL \<rparr> # ?chain]) =
        (hs_buckets hs)[?i := ?b # ?chain]"
      using other[of ?chain] i by (simp add: map_update) (simp add: chain_update_def)
    have "hashset_setObjectForKey al blk hs data key = hashset_expandIfNeeded al hs2"
      using r(1) None i data blk(1) upd
      by (simp add: hashset_setObjectForKey_def hashset_findBucket2_def hashset_updateBucket_def Let_def hs2_def)
    moreover have "card (hs_live hs2) < 2 ^ 29" using p(2,3) small by simp
    then obtain hs3 where "hashset_expandIfNeeded al hs2 = Inr hs3" "hs_inv hs3" "same_map hs2 hs3"
      using hashset_expandIfNeeded_inv[OF p(1)] by blast
    moreover have "hs_compare hs2 = hs_compare hs" by (simp add: hs2_def)
    ultimately show ?thesis using p(2) absent by (auto simp: same_map_def)
  qed
qed

text \<open>The laws of a map.\<close>

definition hs_room :: "hashset_t \<Rightarrow> ptr \<Rightarrow> bool" where
  "hs_room hs blk \<longleftrightarrow> blk \<noteq> NULL \<and> blk \<notin> set (map b_self (hs_all hs)) \<and> card (hs_live hs) + 1 < 2 ^ 29"

lemma hashset_get_eqI:
  assumes "hs_inv hs" "hs_inv hs'" "key \<noteq> NULL" "\<And>d. hs_maps hs' key d \<longleftrightarrow> hs_maps hs key d"
  shows "hashset_objectForKey hs' key = hashset_objectForKey hs key"
  using hashset_objectForKey_maps[OF assms(1,3)] hashset_objectForKey_iff[OF assms(2,3)] assms(4) by auto

lemma hashset_put_law:
  assumes inv: "hs_inv hs" and key: "key \<noteq> NULL" and data: "data \<noteq> NULL" and room: "hs_room hs blk"
  shows "\<exists>hs'. hashset_setObjectForKey al blk hs data key = Inr hs' \<and> hs_inv hs' \<and> hs_compare hs' = hs_compare hs \<and>
    (\<forall>j. j \<noteq> NULL \<longrightarrow> hashset_objectForKey hs' j =
       (if hs_compare hs key j \<and> hashset_objectForKey hs key = Inr NULL then Inr data else hashset_objectForKey hs j))"
proof -
  let ?b = "\<lparr> b_self = blk, b_key = key, b_data = data \<rparr>"
  obtain hs' where hs': "hashset_setObjectForKey al blk hs data key = Inr hs'" "hs_inv hs'" "hs_compare hs' = hs_compare hs"
    "hs_live hs' = (if \<exists>b \<in> hs_live hs. hs_compare hs (b_key b) key then hs_live hs else insert ?b (hs_live hs))"
    using hashset_setObjectForKey_spec[OF inv key data] room unfolding hs_room_def by blast
  have "hashset_objectForKey hs' j =
      (if hs_compare hs key j \<and> hashset_objectForKey hs key = Inr NULL then Inr data else hashset_objectForKey hs j)"
    if j: "j \<noteq> NULL" for j
  proof (cases "\<exists>b \<in> hs_live hs. hs_compare hs (b_key b) key")
    case True
    then have "hs_maps hs' j d \<longleftrightarrow> hs_maps hs j d" for d using hs'(3,4) by (simp add: hs_maps_def)
    moreover have "hashset_objectForKey hs key \<noteq> Inr NULL"
      using hashset_objectForKey_iff[OF inv key, of NULL] True by (auto simp: hs_maps_def)
    ultimately show ?thesis using hashset_get_eqI[OF inv hs'(2) j] by simp
  next
    case False
    then have null: "hashset_objectForKey hs key = Inr NULL"
      using hashset_objectForKey_iff[OF inv key, of NULL] by (auto simp: hs_maps_def)
    have live: "hs_live hs' = insert ?b (hs_live hs)" using hs'(4) False by simp
    show ?thesis
    proof (cases "hs_compare hs key j")
      case True
      then have "hs_maps hs' j data" using data live hs'(3) by (simp add: hs_maps_def)
      then show ?thesis using True null hashset_objectForKey_iff[OF hs'(2) j] by simp
    next
      case nc: False
      then have "hs_maps hs' j d \<longleftrightarrow> hs_maps hs j d" for d using live hs'(3) by (simp add: hs_maps_def)
      then show ?thesis using nc hashset_get_eqI[OF inv hs'(2) j] by simp
    qed
  qed
  then show ?thesis using hs' by blast
qed

lemma hs_compare_sym: "hs_inv hs \<Longrightarrow> hs_compare hs k l \<Longrightarrow> hs_compare hs l k"
  using hs_key_ok[of hs] unfolding key_ok_def by blast

lemma hs_compare_trans: "hs_inv hs \<Longrightarrow> hs_compare hs k l \<Longrightarrow> hs_compare hs l m \<Longrightarrow> hs_compare hs k m"
  using hs_key_ok[of hs] unfolding key_ok_def by metis

lemma hs_compare_eq: "hs_inv hs \<Longrightarrow> hs_compare hs k j \<Longrightarrow> hs_compare hs l k \<longleftrightarrow> hs_compare hs l j"
  using hs_compare_sym hs_compare_trans by metis

lemma hashset_del_law:
  assumes inv: "hs_inv hs" and key: "key \<noteq> NULL"
  shows "\<exists>hs'. hashset_removeObjectForKey al hs key = Inr hs' \<and> hs_inv hs' \<and> hs_compare hs' = hs_compare hs \<and>
    (\<forall>j. j \<noteq> NULL \<longrightarrow> hashset_objectForKey hs' j =
       (if hs_compare hs key j then Inr NULL else hashset_objectForKey hs j))"
proof -
  obtain hs' where hs': "hashset_removeObjectForKey al hs key = Inr hs'" "hs_inv hs'" "hs_compare hs' = hs_compare hs"
    "hs_live hs' = {b \<in> hs_live hs. \<not> hs_compare hs (b_key b) key}"
    using hashset_removeObjectForKey_spec[OF assms] by blast
  note eq = hs_compare_eq[OF inv]
  have "hashset_objectForKey hs' j = (if hs_compare hs key j then Inr NULL else hashset_objectForKey hs j)"
    if j: "j \<noteq> NULL" for j
  proof (cases "hs_compare hs key j")
    case True
    then have "hs_maps hs' j NULL" using hs'(3,4) eq[OF True] by (simp add: hs_maps_def)
    then show ?thesis using True hashset_objectForKey_iff[OF hs'(2) j] by simp
  next
    case False
    have "\<not> hs_compare hs k key" if "hs_compare hs k j" for k
      using that False hs_compare_sym[OF inv] hs_compare_trans[OF inv] by metis
    then have "hs_maps hs' j d \<longleftrightarrow> hs_maps hs j d" for d
      unfolding hs_maps_def hs'(3,4) by (cases "d = NULL") (simp_all, blast+)
    then show ?thesis using False hashset_get_eqI[OF inv hs'(2) j] by simp
  qed
  then show ?thesis using hs' by blast
qed

interpretation hs_map: object_map hashset_objectForKey "hashset_setObjectForKey al" "hashset_removeObjectForKey al"
    hs_inv hs_compare "\<lambda>key. key \<noteq> NULL" hs_room NULL for al
proof unfold_locales
  fix hs k j
  assume "hs_inv hs" "k \<noteq> NULL" "j \<noteq> NULL" "hs_compare hs k j"
  then show "hashset_objectForKey hs j = hashset_objectForKey hs k"
  proof -
    have "hs_compare hs l j \<longleftrightarrow> hs_compare hs l k" for l
      using hs_compare_eq[OF \<open>hs_inv hs\<close> \<open>hs_compare hs k j\<close>] by simp
    then have "hs_maps hs j d \<longleftrightarrow> hs_maps hs k d" for d by (simp add: hs_maps_def)
    then show ?thesis
      using hashset_objectForKey_maps[OF \<open>hs_inv hs\<close> \<open>k \<noteq> NULL\<close>] hashset_objectForKey_iff[OF \<open>hs_inv hs\<close> \<open>j \<noteq> NULL\<close>]
      by auto
  qed
next
  fix hs k assume "hs_inv hs" "k \<noteq> NULL"
  then show "hs_compare hs k k" using hs_key_ok unfolding key_ok_def by blast
qed (rule hashset_put_law hashset_del_law; assumption)+

section \<open>All objects and iteration\<close>

definition hs_objects :: "hashset_t \<Rightarrow> ptr list" where
  "hs_objects hs = map b_data (filter (\<lambda>b. b_data b \<noteq> NULL) (concat (take (unat (hs_capacity hs)) (hs_buckets hs))))"

text \<open>The array may be missing; adding to it then dereferences \<open>NULL\<close>.\<close>

definition hashset_allObjects :: "bool \<Rightarrow> block_alloc \<Rightarrow> hashset_t \<Rightarrow> array_t option result" where
  "hashset_allObjects ok halloc hs =
     (case array_create ok halloc of
        None \<Rightarrow> if hs_objects hs = [] then Inr None else Inl OutOfBounds
      | Some array \<Rightarrow>
          bind_res (fold_res (array_addObject halloc) array (hs_objects hs)) (\<lambda>array. Inr (Some array)))"

text \<open>
  The rest of the chain that starts at a bucket pointer, and the first bucket of a chain that has an
  object, together with its \<^verbatim>\<open>overflow\<close> pointer.
\<close>

fun suffix_at :: "ptr \<Rightarrow> bucket list list \<Rightarrow> bucket list" where
  "suffix_at p [] = []"
| "suffix_at p (c # cs) = (if p \<in> b_self ` set c then dropWhile (\<lambda>b. b_self b \<noteq> p) c else suffix_at p cs)"

definition chain_ptr :: "bucket list \<Rightarrow> ptr" where
  "chain_ptr bs = (case bs of [] \<Rightarrow> NULL | b # _ \<Rightarrow> b_self b)"

fun hashset_scanChain :: "bucket list \<Rightarrow> (bucket \<times> ptr) option" where
  "hashset_scanChain [] = None"
| "hashset_scanChain (b # bs) = (if b_data b \<noteq> NULL then Some (b, chain_ptr bs) else hashset_scanChain bs)"

definition bucket_value :: "bool \<Rightarrow> bucket \<Rightarrow> ptr" where
  "bucket_value object b = (if object then b_data b else b_key b)"

text \<open>The second loop; \<open>index0\<close> is the value the index keeps when nothing is found.\<close>

function hashset_scanFrom :: "hashset_t \<Rightarrow> u32 \<Rightarrow> u32 \<Rightarrow> bool \<Rightarrow> (ptr \<times> ptr \<times> u32) result" where
  "hashset_scanFrom hs index0 index object =
     (if index < hs_capacity hs then
        bind_res (read_cell (hs_buckets hs) (unat index)) (\<lambda>chain.
        case hashset_scanChain chain of
          Some (b, overflow) \<Rightarrow> Inr (bucket_value object b, overflow, index + 1)
        | None \<Rightarrow> hashset_scanFrom hs index0 (index + 1) object)
      else Inr (NULL, 0, index0))"
  by pat_completeness auto
termination
  by (relation "measure (\<lambda>(hs, index0, index, object). unat (hs_capacity hs) - unat index)")
    (auto simp: unat_Suc_no_wrap word_less_nat_alt diff_less_mono2)

declare hashset_scanFrom.simps [simp del]

definition hashset_iteratorGetNextObject :: "hashset_t \<Rightarrow> ptr \<Rightarrow> u32 \<Rightarrow> bool \<Rightarrow> (ptr \<times> ptr \<times> u32) result" where
  "hashset_iteratorGetNextObject hs bucket index object =
     (case hashset_scanChain (suffix_at bucket (hs_buckets hs)) of
        Some (b, overflow) \<Rightarrow> Inr (bucket_value object b, overflow, index)
      | None \<Rightarrow> hashset_scanFrom hs index index object)"

function hashset_fetchFrom ::
  "hashset_t \<Rightarrow> u32 \<Rightarrow> u32 list \<Rightarrow> ptr list \<Rightarrow> u32 \<Rightarrow> (u32 list \<times> ptr list \<times> u32) result" where
  "hashset_fetchFrom hs i custom objects maxObjects =
     (if i < maxObjects then
        bind_res (hashset_iteratorGetNextObject hs (custom ! 0) (custom ! 1) (custom ! 3 = 0))
          (\<lambda>(object, bucket, index).
        let custom = custom[0 := bucket, 1 := index] in
        if object = NULL then Inr (custom, objects, i)
        else
          bind_res (write_cell objects (unat i) object) (\<lambda>objects.
          hashset_fetchFrom hs (i + 1) custom objects maxObjects))
      else Inr (custom, objects, i))"
  by pat_completeness auto
termination
  by (relation "measure (\<lambda>(hs, i, custom, objects, maxObjects). unat maxObjects - unat i)")
    (auto simp: unat_Suc_no_wrap word_less_nat_alt diff_less_mono2)

declare hashset_fetchFrom.simps [simp del]

definition hashset_iteratorNextObject :: "hashset_t iterator_fetch" where
  "hashset_iteratorNextObject hs custom objects maxObjects =
     bind_res (hashset_fetchFrom hs 0 custom objects maxObjects) (\<lambda>(custom, objects, i). Inr (hs, custom, objects, i))"

definition hashset_iterator :: "ptr list option \<Rightarrow> hashset_t \<Rightarrow> hashset_t iterator_t option" where
  "hashset_iterator objs hs = iterator_create objs hashset_iteratorNextObject hs"

text \<open>Setting \<^verbatim>\<open>custom[3]\<close> of an iterator that could not be allocated writes through \<open>NULL\<close>.\<close>

definition hashset_keyIterator :: "ptr list option \<Rightarrow> hashset_t \<Rightarrow> hashset_t iterator_t result" where
  "hashset_keyIterator objs hs =
     (case iterator_create objs hashset_iteratorNextObject hs of
        None \<Rightarrow> Inl OutOfBounds
      | Some it \<Rightarrow> Inr (it\<lparr>it_custom := (it_custom it)[3 := 1]\<rparr>))"

abbreviation with_object :: "bucket list \<Rightarrow> bucket list" where
  "with_object \<equiv> filter (\<lambda>b. b_data b \<noteq> NULL)"

lemma scanChain_None: "hashset_scanChain c = None \<longleftrightarrow> with_object c = []"
  by (induction c) auto

lemma scanChain_Some:
  "hashset_scanChain c = Some (b, q) \<Longrightarrow>
   \<exists>as bs. c = as @ b # bs \<and> q = chain_ptr bs \<and> with_object c = b # with_object bs \<and> b_data b \<noteq> NULL"
proof (induction c)
  case (Cons a c)
  show ?case
  proof (cases "b_data a = NULL")
    case True
    then obtain as bs where "c = as @ b # bs" "q = chain_ptr bs" "with_object c = b # with_object bs" "b_data b \<noteq> NULL"
      using Cons by auto
    with True show ?thesis by (intro exI[of _ "a # as"] exI[of _ bs]) simp
  next
    case False
    with Cons.prems show ?thesis by (auto intro: exI[of _ "[]"])
  qed
qed simp

text \<open>The overflow pointer of a bucket in a chain leads to the rest of that chain.\<close>

lemma suffix_at_NULL: "NULL \<notin> b_self ` set (concat cs) \<Longrightarrow> suffix_at NULL cs = []"
  by (induction cs) auto

lemma suffix_at_chain:
  assumes "distinct (map b_self (concat cs))" "NULL \<notin> b_self ` set (concat cs)" "as @ bs \<in> set cs"
  shows "suffix_at (chain_ptr bs) cs = bs"
proof (cases bs)
  case Nil
  then show ?thesis using suffix_at_NULL[OF assms(2)] by (simp add: chain_ptr_def)
next
  case (Cons b bs')
  with assms(1,3) show ?thesis
  proof (induction cs)
    case (Cons c cs)
    show ?case
    proof (cases "as @ bs = c")
      case True
      have "b_self b \<notin> b_self ` set as" using Cons.prems True by auto
      then have "dropWhile (\<lambda>x. b_self x \<noteq> b_self b) (as @ b # bs') = b # bs'"
        by (subst dropWhile_append2) (force simp: image_iff)+
      then show ?thesis using True Cons.prems(3) by (auto simp: chain_ptr_def)
    next
      case False
      then have "b \<in> set (concat cs)" using Cons.prems by force
      then have "b_self b \<notin> b_self ` set c" using Cons.prems(1) by force
      then show ?thesis using Cons False by (auto simp: chain_ptr_def)
    qed
  qed simp
qed

lemma suffix_at_in_chain: "\<exists>as. as @ suffix_at p cs \<in> set cs \<or> suffix_at p cs = []"
proof (induction cs)
  case (Cons c cs)
  then show ?case
    by (auto intro: exI[of _ "takeWhile (\<lambda>b. b_self b \<noteq> p) c"])
qed simp

text \<open>What is still to come for given \<^verbatim>\<open>custom\<close> words.\<close>

definition hs_rest :: "hashset_t \<Rightarrow> ptr \<Rightarrow> u32 \<Rightarrow> bucket list" where
  "hs_rest hs p i = with_object (suffix_at p (hs_buckets hs) @ concat (drop (unat i) (hs_buckets hs)))"

lemma hs_selfs:
  assumes "hs_inv hs"
  shows "distinct (map b_self (concat (hs_buckets hs)))" "NULL \<notin> b_self ` set (concat (hs_buckets hs))"
    "length (hs_buckets hs) = unat (hs_capacity hs)"
  using assms by (auto simp: hs_inv_def hs_all_def)

lemma hashset_scanFrom_spec:
  assumes inv: "hs_inv hs"
  shows "unat i \<le> unat (hs_capacity hs) \<Longrightarrow>
    \<exists>p' i'. hashset_scanFrom hs i0 i object =
        Inr (case with_object (concat (drop (unat i) (hs_buckets hs))) of [] \<Rightarrow> NULL | b # _ \<Rightarrow> bucket_value object b, p', i') \<and>
      (with_object (concat (drop (unat i) (hs_buckets hs))) = [] \<longrightarrow> p' = NULL \<and> i' = i0) \<and>
      (with_object (concat (drop (unat i) (hs_buckets hs))) \<noteq> [] \<longrightarrow> unat i' \<le> unat (hs_capacity hs) \<and>
         hs_rest hs p' i' = tl (with_object (concat (drop (unat i) (hs_buckets hs)))))"
proof (induction "unat (hs_capacity hs) - unat i" arbitrary: i)
  case 0
  then have "\<not> i < hs_capacity hs" "drop (unat i) (hs_buckets hs) = []"
    using hs_selfs(3)[OF inv] by (auto simp: word_less_nat_alt)
  then show ?case by (subst hashset_scanFrom.simps) simp
next
  case (Suc n)
  have i: "i < hs_capacity hs" "unat i < length (hs_buckets hs)"
    using Suc.hyps(2) hs_selfs(3)[OF inv] by (auto simp: word_less_nat_alt)
  have si: "unat (i + 1) = Suc (unat i)" by (rule unat_Suc_no_wrap[OF i(1)])
  let ?c = "hs_buckets hs ! unat i"
  have dr: "drop (unat i) (hs_buckets hs) = ?c # drop (unat (i + 1)) (hs_buckets hs)"
    using i(2) si by (simp add: Cons_nth_drop_Suc)
  show ?case
  proof (cases "hashset_scanChain ?c")
    case None
    then have "with_object ?c = []" by (simp add: scanChain_None)
    moreover have "hashset_scanFrom hs i0 i object = hashset_scanFrom hs i0 (i + 1) object"
      using None i by (subst hashset_scanFrom.simps) simp
    ultimately show ?thesis
      using Suc.hyps(1)[of "i + 1"] Suc.hyps(2) si i(2) hs_selfs(3)[OF inv] unfolding dr by simp
  next
    case (Some r)
    obtain b q where r: "r = (b, q)" by fastforce
    obtain as bs where c: "?c = as @ b # bs" "q = chain_ptr bs" "with_object ?c = b # with_object bs"
      using scanChain_Some[of ?c b q] Some r by auto
    have "(as @ [b]) @ bs \<in> set (hs_buckets hs)" using c(1) i(2) nth_mem[of "unat i" "hs_buckets hs"] by simp
    from suffix_at_chain[OF hs_selfs(1,2)[OF inv] this]
    have "hs_rest hs q (i + 1) = with_object bs @ with_object (concat (drop (unat (i + 1)) (hs_buckets hs)))"
      by (simp add: hs_rest_def c(2))
    moreover have "hashset_scanFrom hs i0 i object = Inr (bucket_value object b, q, i + 1)"
      using Some r i by (subst hashset_scanFrom.simps) simp
    ultimately show ?thesis unfolding dr using c(3) si i(2) hs_selfs(3)[OF inv] by simp
  qed
qed

lemma hashset_getNext_spec:
  assumes inv: "hs_inv hs" and i: "unat i \<le> unat (hs_capacity hs)"
  shows "\<exists>p' i'. hashset_iteratorGetNextObject hs p i object =
      Inr (case hs_rest hs p i of [] \<Rightarrow> NULL | b # _ \<Rightarrow> bucket_value object b, p', i') \<and>
      unat i' \<le> unat (hs_capacity hs) \<and> hs_rest hs p' i' = tl (hs_rest hs p i)"
proof (cases "hashset_scanChain (suffix_at p (hs_buckets hs))")
  case None
  then have e: "with_object (suffix_at p (hs_buckets hs)) = []" by (simp add: scanChain_None)
  then have rest: "hs_rest hs p i = with_object (concat (drop (unat i) (hs_buckets hs)))" by (simp add: hs_rest_def)
  have z: "hs_rest hs NULL i = with_object (concat (drop (unat i) (hs_buckets hs)))"
    using suffix_at_NULL[OF hs_selfs(2)[OF inv]] by (simp add: hs_rest_def)
  obtain p' i' where s: "hashset_scanFrom hs i i object =
        Inr (case hs_rest hs p i of [] \<Rightarrow> NULL | b # _ \<Rightarrow> bucket_value object b, p', i')"
      "hs_rest hs p i = [] \<longrightarrow> p' = NULL \<and> i' = i"
      "hs_rest hs p i \<noteq> [] \<longrightarrow> unat i' \<le> unat (hs_capacity hs) \<and> hs_rest hs p' i' = tl (hs_rest hs p i)"
    using hashset_scanFrom_spec[OF inv i, of i object] unfolding rest by blast
  have "unat i' \<le> unat (hs_capacity hs) \<and> hs_rest hs p' i' = tl (hs_rest hs p i)"
    using s(2,3) i rest z by (cases "hs_rest hs p i = []") auto
  then show ?thesis using None s(1) by (simp add: hashset_iteratorGetNextObject_def)
next
  case (Some r)
  obtain b q where r: "r = (b, q)" by fastforce
  obtain as bs where c: "suffix_at p (hs_buckets hs) = as @ b # bs" "q = chain_ptr bs"
    "with_object (suffix_at p (hs_buckets hs)) = b # with_object bs"
    using scanChain_Some[of "suffix_at p (hs_buckets hs)" b q] Some r by auto
  obtain cs where "cs @ suffix_at p (hs_buckets hs) \<in> set (hs_buckets hs)"
    using suffix_at_in_chain[of p "hs_buckets hs"] c(1) by auto
  then have "(cs @ as @ [b]) @ bs \<in> set (hs_buckets hs)" using c(1) by simp
  from suffix_at_chain[OF hs_selfs(1,2)[OF inv] this]
  have "hs_rest hs q i = tl (hs_rest hs p i)" "hs_rest hs p i = b # tl (hs_rest hs p i)"
    using c(2,3) by (simp_all add: hs_rest_def)
  then show ?thesis
    using Some r i by (auto simp: hashset_iteratorGetNextObject_def split: list.splits)
qed

lemma hs_rest_value:
  assumes "hs_inv hs" "b \<in> set (hs_rest hs p i)"
  shows "bucket_value object b \<noteq> NULL"
proof -
  have "b_data b \<noteq> NULL" "b \<in> set (hs_all hs)"
  proof -
    show "b_data b \<noteq> NULL" using assms(2) by (auto simp: hs_rest_def)
    have "set (suffix_at p cs) \<subseteq> set (concat cs)" for cs
      by (induction cs) (auto dest: set_dropWhileD)
    then show "b \<in> set (hs_all hs)"
      using assms(2) by (auto simp: hs_rest_def hs_all_def dest: in_set_dropD)
  qed
  then show ?thesis using assms(1) by (auto simp: hs_inv_def bucket_value_def)
qed

definition hs_left :: "hashset_t \<Rightarrow> u32 list \<Rightarrow> ptr list \<Rightarrow> bool" where
  "hs_left hs custom ys \<longleftrightarrow> hs_inv hs \<and> length custom = 5 \<and> unat (custom ! 1) \<le> unat (hs_capacity hs) \<and>
     ys = map (bucket_value (custom ! 3 = 0)) (hs_rest hs (custom ! 0) (custom ! 1))"

lemma hashset_fetchFrom_spec:
  "hs_left hs custom ys \<Longrightarrow> length objects = 10 \<Longrightarrow> unat i \<le> 10 \<Longrightarrow>
   \<exists>custom' objects' n. hashset_fetchFrom hs i custom objects 10 = Inr (custom', objects', n) \<and> length objects' = 10 \<and>
     unat n = min 10 (unat i + length ys) \<and>
     take (unat n) objects' = take (unat i) objects @ take (10 - unat i) ys \<and>
     hs_left hs custom' (drop (10 - unat i) ys)"
proof (induction "10 - unat i" arbitrary: i custom objects ys)
  case 0
  then have "unat i = 10" by simp
  then show ?case using 0 by (subst hashset_fetchFrom.simps) (auto simp: word_less_nat_alt)
next
  case (Suc m)
  have i: "i < 10" "unat i < 10" using Suc.hyps(2) by (auto simp: word_less_nat_alt)
  have si: "unat (i + 1) = Suc (unat i)" by (rule unat_Suc_no_wrap[OF i(1)])
  have inv: "hs_inv hs" and len: "length custom = 5" and ci: "unat (custom ! 1) \<le> unat (hs_capacity hs)"
    and ys: "ys = map (bucket_value (custom ! 3 = 0)) (hs_rest hs (custom ! 0) (custom ! 1))"
    using Suc.prems(1) by (auto simp: hs_left_def)
  obtain p' i' where g: "hashset_iteratorGetNextObject hs (custom ! 0) (custom ! 1) (custom ! 3 = 0) =
      Inr (case hs_rest hs (custom ! 0) (custom ! 1) of [] \<Rightarrow> NULL | b # _ \<Rightarrow> bucket_value (custom ! 3 = 0) b, p', i')"
    "unat i' \<le> unat (hs_capacity hs)" "hs_rest hs p' i' = tl (hs_rest hs (custom ! 0) (custom ! 1))"
    using hashset_getNext_spec[OF inv ci] by blast
  let ?custom = "custom[0 := p', 1 := i']"
  have left: "hs_left hs ?custom (tl ys)"
    using inv len g(2,3) ys by (simp add: hs_left_def map_tl)
  show ?case
  proof (cases "hs_rest hs (custom ! 0) (custom ! 1)")
    case Nil
    then have "ys = []" using ys by simp
    then show ?thesis using Nil g(1) i left Suc.prems(2) by (subst hashset_fetchFrom.simps) (simp add: Let_def)
  next
    case (Cons b bs)
    then have v: "bucket_value (custom ! 3 = 0) b \<noteq> NULL" using hs_rest_value[OF inv, of b "custom ! 0" "custom ! 1"] by simp
    let ?objs = "objects[unat i := bucket_value (custom ! 3 = 0) b]"
    have ysc: "ys = bucket_value (custom ! 3 = 0) b # tl ys" using Cons ys by simp
    have step: "hashset_fetchFrom hs i custom objects 10 = hashset_fetchFrom hs (i + 1) ?custom ?objs 10"
      using Cons g(1) i v Suc.prems(2) by (subst hashset_fetchFrom.simps) (simp add: Let_def)
    have m: "m = 10 - unat (i + 1)" and le: "unat (i + 1) \<le> 10" using Suc.hyps(2) si i by auto
    obtain custom' objects' n where f: "hashset_fetchFrom hs (i + 1) ?custom ?objs 10 = Inr (custom', objects', n)"
      "length objects' = 10" "unat n = min 10 (unat (i + 1) + length (tl ys))"
      "take (unat n) objects' = take (unat (i + 1)) ?objs @ take (10 - unat (i + 1)) (tl ys)"
      "hs_left hs custom' (drop (10 - unat (i + 1)) (tl ys))"
      using Suc.hyps(1)[OF m left _ le, of ?objs] Suc.prems(2) by (metis length_list_update)
    have "take (unat (i + 1)) ?objs = take (unat i) objects @ [bucket_value (custom ! 3 = 0) b]"
      using Suc.prems(2) i si by (simp add: take_Suc_conv_app_nth)
    moreover have "10 - unat i = Suc (10 - unat (i + 1))" using si i by simp
    moreover have "length ys = Suc (length (tl ys))" using ysc by (metis length_Cons)
    moreover have "take (10 - unat i) ys = bucket_value (custom ! 3 = 0) b # take (10 - unat (i + 1)) (tl ys)"
      "drop (10 - unat i) ys = drop (10 - unat (i + 1)) (tl ys)"
      using ysc calculation(2) by (metis take_Suc_Cons, metis drop_Suc_Cons)
    ultimately show ?thesis unfolding step using f si by simp
  qed
qed

interpretation hs_it: fetcher hashset_iteratorNextObject hs_left
proof unfold_locales
  fix hs c ys objs assume "hs_left hs c ys" "length (objs :: ptr list) = 10"
  from hashset_fetchFrom_spec[OF this, of 0]
  show "\<exists>d' c' objs' n. hashset_iteratorNextObject hs c objs kIteratorMaxObjects = Inr (d', c', objs', n) \<and>
      length objs' = 10 \<and> unat n = min 10 (length ys) \<and> take (unat n) objs' = take (unat n) ys \<and>
      hs_left d' c' (drop (unat n) ys)"
    by (fastforce simp: hashset_iteratorNextObject_def kIteratorMaxObjects_def min_def)
qed

section \<open>Creation\<close>

lemma chooseCapacity_bound:
  "1 \<le> i \<Longrightarrow> i + n = 42 \<Longrightarrow> 0 < n \<Longrightarrow> capacity < 0x40000000 \<Longrightarrow>
   hashset_capacities ! (i - 1) < 0x40000000 \<Longrightarrow> 0 < hashset_capacities ! (i - 1) \<Longrightarrow>
   0 < hashset_chooseCapacity n i capacity \<and> hashset_chooseCapacity n i capacity < 0x40000000"
proof (induction n arbitrary: i)
  case (Suc n)
  show ?case
  proof (cases "hashset_capacities ! i > capacity \<or> i = 41")
    case True
    then show ?thesis using Suc.prems by simp
  next
    case False
    then have "hashset_capacities ! i < 0x40000000" using Suc.prems(4) by auto
    moreover have "0 < hashset_capacities ! i"
    proof -
      have "list_all (\<lambda>c. 0 < c) hashset_capacities" "length hashset_capacities = 42" by code_simp+
      then show ?thesis using Suc.prems(2) by (simp add: list_all_length)
    qed
    ultimately show ?thesis using Suc.IH[of "i + 1"] Suc.prems False by auto
  qed
qed simp

lemma hashset_create_inv:
  assumes "key_ok hash (case cmp of None \<Rightarrow> hash_pointerCompare | Some f \<Rightarrow> f)" "capacity < 0x40000000"
    "hashset_create True al capacity hash cmp = Some hs"
  shows "hs_inv hs" "hs_live hs = {}"
    "hs_compare hs = (case cmp of None \<Rightarrow> hash_pointerCompare | Some f \<Rightarrow> f)"
proof -
  let ?c = "hashset_chooseCapacity 41 1 capacity"
  have "hashset_capacities ! 0 = 5" by (simp add: hashset_capacities_def)
  then have "0 < ?c \<and> ?c < 0x40000000" using chooseCapacity_bound[of 1 41 capacity] assms(2) by simp
  then have c: "0 < unat ?c" "unat ?c < 2 ^ 30" using word_bounds[of ?c] by auto
  have hs: "hs = \<lparr> hs_capacity = ?c, hs_count = 0, hs_buckets = empty_buckets ?c, hs_hash = hash,
      hs_compare = (case cmp of None \<Rightarrow> hash_pointerCompare | Some f \<Rightarrow> f), hs_lock = SPINLOCK_INIT \<rparr>"
    using assms(3) by (simp add: hashset_create_def Let_def del: hashset_chooseCapacity.simps split: if_splits)
  have e: "concat (empty_buckets ?c) = []" "length (empty_buckets ?c) = unat ?c"
    using unat_times4[OF c(2)] by (simp_all add: empty_buckets_def del: hashset_chooseCapacity.simps)
  have nth: "empty_buckets ?c ! i = []" if "i < unat ?c" for i
    using that e(2) by (simp add: empty_buckets_def del: hashset_chooseCapacity.simps)
  have all: "hs_all hs = []" unfolding hs hs_all_def using e(1) by simp
  then show live: "hs_live hs = {}" by (simp add: hs_live_def)
  show "hs_inv hs" 
    using assms(1) c e(2) nth live all by (simp add: hs_inv_def) (simp add: hs del: hashset_chooseCapacity.simps)
  show "hs_compare hs = (case cmp of None \<Rightarrow> hash_pointerCompare | Some f \<Rightarrow> f)" by (simp add: hs)
qed

section \<open>Properties\<close>

text \<open>
  C28. The hash set is a map. On a well-formed set, for keys other than \<open>NULL\<close>: looking up, setting an
  object (with memory for a bucket) and removing a key return and keep the set well-formed, through
  any growing, shrinking or failed rehash; after setting, the key has the new object if it had
  none, and every other key what it had; after removing, the key has no object.
\<close>

theorem hashset_is_map:
  assumes "hs_inv hs" "key \<noteq> NULL" "data \<noteq> NULL" "hs_room hs blk"
  shows "(\<exists>hs'. hashset_setObjectForKey al blk hs data key = Inr hs' \<and> hs_inv hs' \<and>
            (\<forall>j. j \<noteq> NULL \<longrightarrow> hashset_objectForKey hs' j =
               (if hs_compare hs key j \<and> hashset_objectForKey hs key = Inr NULL then Inr data
                else hashset_objectForKey hs j))) \<and>
         (\<exists>hs'. hashset_removeObjectForKey al hs key = Inr hs' \<and> hs_inv hs' \<and>
            (\<forall>j. j \<noteq> NULL \<longrightarrow> hashset_objectForKey hs' j =
               (if hs_compare hs key j then Inr NULL else hashset_objectForKey hs j)))"
  using hashset_put_law[OF assms] hashset_del_law[OF assms(1,2)] by blast

definition example_set :: hashset_t where
  "example_set = the (hashset_create True (\<lambda>_. True) 5 hash_integer (Some hash_integerCompare))"

lemma integer_key_ok: "key_ok hash_integer hash_integerCompare"
  by (auto simp: key_ok_def hash_integerCompare_def)

lemma example_set_inv: "hs_inv example_set" "hs_live example_set = {}" "hs_compare example_set = hash_integerCompare"
proof -
  have "hashset_create True (\<lambda>_. True) 5 hash_integer (Some hash_integerCompare) = Some example_set"
    by (simp add: example_set_def hashset_create_def Let_def del: hashset_chooseCapacity.simps)
  from hashset_create_inv[OF _ _ this] integer_key_ok
  show "hs_inv example_set" "hs_live example_set = {}" "hs_compare example_set = hash_integerCompare" by auto
qed

lemma example_set_room: "hs_room example_set 0x100"
proof -
  have "hs_all example_set = []"
    using example_set_inv by (auto simp: example_set_def hashset_create_def Let_def hs_all_def empty_buckets_def
        simp del: hashset_chooseCapacity.simps)
  then show ?thesis using example_set_inv(2) by (simp add: hs_room_def)
qed

lemma example_set_empty: "k \<noteq> NULL \<Longrightarrow> hashset_objectForKey example_set k = Inr NULL"
  using hashset_objectForKey_iff[OF example_set_inv(1)] example_set_inv(2) by (simp add: hs_maps_def)

theorem hashset_is_map_witness:
  "\<exists>hs'. hashset_setObjectForKey (\<lambda>_. True) 0x100 example_set 0x200 7 = Inr hs' \<and>
     hashset_objectForKey hs' 7 = Inr 0x200 \<and> hashset_objectForKey hs' 8 = Inr NULL"
  using hashset_is_map[OF example_set_inv(1) _ _ example_set_room, of 7 "0x200" "\<lambda>_. True"]
  by (auto simp: example_set_inv(3) hash_integerCompare_def example_set_empty)

text \<open>
  Setting an object under a free key and removing the key again gives every key what it had
  before; removing a key first makes the new object replace the old one.
\<close>

theorem hashset_set_remove:
  assumes "hs_inv hs" "key \<noteq> NULL" "data \<noteq> NULL" "hs_room hs blk" "hashset_objectForKey hs key = Inr NULL"
  shows "\<exists>hs'. bind_res (hashset_setObjectForKey al blk hs data key) (\<lambda>hs. hashset_removeObjectForKey al hs key) = Inr hs' \<and>
           hs_inv hs' \<and> (\<forall>j. j \<noteq> NULL \<longrightarrow> hashset_objectForKey hs' j = hashset_objectForKey hs j)"
  by (rule hs_map.put_del[OF assms])

theorem hashset_set_remove_witness:
  "\<exists>hs'. bind_res (hashset_setObjectForKey (\<lambda>_. True) 0x100 example_set 0x200 7)
       (\<lambda>hs. hashset_removeObjectForKey (\<lambda>_. True) hs 7) = Inr hs' \<and> hashset_objectForKey hs' 7 = Inr NULL"
  using hashset_set_remove[OF example_set_inv(1) _ _ example_set_room, of 7 "0x200" "\<lambda>_. True"]
  by (auto simp: example_set_empty)

text \<open>The objects of a well-formed set are those of its live buckets, one for each.\<close>

lemma hs_objects_live:
  assumes inv: "hs_inv hs"
  shows "length (hs_objects hs) = card (hs_live hs)" "set (hs_objects hs) = b_data ` hs_live hs"
    "hs_rest hs NULL 0 = filter (\<lambda>b. b_data b \<noteq> NULL) (hs_all hs)"
proof -
  have all: "concat (take (unat (hs_capacity hs)) (hs_buckets hs)) = hs_all hs"
    using inv by (simp add: hs_inv_def hs_all_def)
  have f: "filter (\<lambda>b. b_data b \<noteq> NULL) (hs_all hs) = filter (\<lambda>b. b_key b \<noteq> NULL) (hs_all hs)"
    using inv by (intro filter_cong) (auto simp: hs_inv_def)
  have "distinct (hs_all hs)" using inv by (simp add: hs_inv_def distinct_map)
  then have "card (hs_live hs) = length (filter (\<lambda>b. b_key b \<noteq> NULL) (hs_all hs))"
    by (simp add: hs_live_def distinct_card[symmetric])
  then show "length (hs_objects hs) = card (hs_live hs)" unfolding hs_objects_def all f by simp
  show "set (hs_objects hs) = b_data ` hs_live hs" unfolding hs_objects_def all f by (auto simp: hs_live_def)
  show "hs_rest hs NULL 0 = filter (\<lambda>b. b_data b \<noteq> NULL) (hs_all hs)"
    using suffix_at_NULL[OF hs_selfs(2)[OF inv]] by (simp add: hs_rest_def hs_all_def)
qed

text \<open>
  C32. The iterator of a well-formed set delivers the objects of the live buckets, each once, and then
  \<open>NULL\<close>; the count of the set is their number, and \<^verbatim>\<open>hashset_allObjects\<close> returns an array of them
  if the allocator never fails.
\<close>

theorem hashset_enumerates:
  assumes inv: "hs_inv hs" and objs: "length objs = 10" and it: "hashset_iterator (Some objs) hs = Some it"
    and al: "good_alloc halloc" "\<forall>n. halloc n \<noteq> None" and small: "card (hs_live hs) < 2 ^ 28"
  shows "(\<exists>it'. iterator_take n it = Inr (take n (hs_objects hs) @ replicate (n - length (hs_objects hs)) NULL, it')) \<and>
         hs_count hs = of_nat (length (hs_objects hs)) \<and> set (hs_objects hs) = b_data ` hs_live hs \<and>
         (\<exists>array. hashset_allObjects True halloc hs = Inr (Some array) \<and> array_rep array (hs_objects hs))"
proof -
  have "map (bucket_value True) (hs_rest hs NULL 0) = hs_objects hs"
    unfolding hs_objects_live(3)[OF inv] using inv
    by (simp add: hs_objects_def hs_inv_def hs_all_def bucket_value_def)
  then have "hs_left hs (replicate 5 0) (hs_objects hs)" using inv by (simp add: hs_left_def)
  then have "\<exists>it'. iterator_take n it = Inr (take n (hs_objects hs) @ replicate (n - length (hs_objects hs)) NULL, it')"
    using hs_it.take_pending hs_it.pending_create objs it unfolding hashset_iterator_def by blast
  moreover obtain array where c: "array_create True halloc = Some array" by (simp add: array_create_def)
  obtain array' where "fold_res (array_addObject halloc) array (hs_objects hs) = Inr array'" "array_rep array' (hs_objects hs)"
    using array_create_add_all[OF al c, of "hs_objects hs"] small hs_objects_live(1)[OF inv] by auto
  ultimately show ?thesis
    using c hs_objects_live[OF inv] inv by (simp add: hashset_allObjects_def hs_inv_def)
qed

theorem hashset_enumerates_witness:
  "\<exists>it it'. hashset_iterator (Some (replicate 10 0)) example_set = Some it \<and>
     iterator_take 2 it = Inr ([NULL, NULL], it') \<and> hs_count example_set = 0"
proof -
  obtain it where it: "hashset_iterator (Some (replicate 10 0)) example_set = Some it"
    by (simp add: hashset_iterator_def iterator_create_def)
  have "hs_objects example_set = []"
    using hs_objects_live(1)[OF example_set_inv(1)] example_set_inv(2) by simp
  then show ?thesis
    using hashset_enumerates[OF example_set_inv(1) _ it zero_alloc_good, of 2] it example_set_inv(2)
    by (auto simp: zero_alloc_def numeral_2_eq_2)
qed

text \<open>
  An object stored under the integer key 0 is lost when the table is rehashed: the rehash takes
  every bucket whose key is \<open>NULL\<close> for a tombstone and releases it, so afterwards the key has no
  object, while the count still includes it.
\<close>

theorem hashset_rehash_drops_key_0:
  assumes "hs_compare hs = hash_integerCompare" "0 < unat capacity" "unat capacity < 2 ^ 30" "al (capacity * 4)"
  shows "\<exists>hs'. hashset_rehash al hs capacity = Inr hs' \<and> hashset_objectForKey hs' 0 = Inr NULL \<and>
           hs_count hs' = hs_count hs"
proof -
  let ?bs = "concat (take (unat (hs_capacity hs)) (hs_buckets hs))"
  have e: "length (empty_buckets capacity) = unat capacity" "placed (hs_hash hs) capacity (empty_buckets capacity)"
    "concat (empty_buckets capacity) = []"
    using unat_times4[OF assms(3)] by (auto simp: empty_buckets_def placed_def)
  obtain buckets where b: "fold_res (hashset_moveBucket (hs_hash hs) capacity) (empty_buckets capacity) ?bs = Inr buckets"
    "length buckets = unat capacity" "mset (concat buckets) = mset (filter (\<lambda>b. b_key b \<noteq> NULL) ?bs)"
    using fold_moveBucket[OF assms(2) e(1,2), of ?bs] e(3) by auto
  let ?hs = "hs\<lparr>hs_capacity := capacity, hs_buckets := buckets\<rparr>"
  have i: "hashset_index ?hs 0 < length buckets" using assms(2) b(2) by (simp add: hashset_index_def unat_mod)
  have "b_key c \<noteq> NULL" if "c \<in> set (buckets ! hashset_index ?hs 0)" for c
  proof -
    have "c \<in> set (concat buckets)" using that i by auto
    then show ?thesis using mset_eq_setD[OF b(3)] by auto
  qed
  then have "chain_find (hs_compare hs) 0 (buckets ! hashset_index ?hs 0) = None"
    using assms(1) by (auto simp: chain_find_None hash_integerCompare_def)
  then have "hashset_objectForKey ?hs 0 = Inr NULL"
    using i by (simp add: hashset_objectForKey_def hashset_findBucket1_def)
  then show ?thesis using assms(4) b(1) by (auto simp: hashset_rehash_def)
qed

theorem hashset_rehash_drops_key_0_witness:
  "\<exists>hs'. hashset_rehash (\<lambda>_. True) (example_set\<lparr>hs_buckets := [[\<lparr>b_self = 0x100, b_key = 0, b_data = 0x200\<rparr>], [], [], [], []],
      hs_count := 1\<rparr>) 11 = Inr hs' \<and> hashset_objectForKey hs' 0 = Inr NULL \<and> hs_count hs' = 1"
  using hashset_rehash_drops_key_0[of "example_set\<lparr>hs_buckets := [[\<lparr>b_self = 0x100, b_key = 0, b_data = 0x200\<rparr>], [], [], [], []],
      hs_count := 1\<rparr>" 11 "\<lambda>_. True"] example_set_inv(3) by simp

end
