(* ===== verification/ATree.thy ===== *)
theory ATree
  imports Prelude
begin

text \<open>
  \<^verbatim>\<open>src/sys/container/atree.c\<close>: the AA tree. A tree is a value; the nil node, which is its own child and
  has level 0, is the constructor \<open>Nil\<close>. The arrays of ancestors that insertion and removal keep are
  lists of the steps taken, the last one first. The theory shows that insertion keeps the balance
  invariant, that the ancestors fit into their array, and what removal does to the keys.
\<close>

section \<open>Model\<close>

definition kAtreeMaxHeight :: nat where "kAtreeMaxHeight = 64"

datatype atree_node =
    Nil
  | Node (node_level: int) (link0: atree_node) (node_key: ptr) (node_data: ptr) (link1: atree_node)

type_synonym atree_compare = "ptr \<Rightarrow> ptr \<Rightarrow> int"

fun level :: "atree_node \<Rightarrow> int" where
  "level Nil = 0"
| "level (Node l a k d b) = l"

fun right :: "atree_node \<Rightarrow> atree_node" where
  "right Nil = Nil"
| "right (Node l a k d b) = b"

fun atree_skew :: "atree_node \<Rightarrow> atree_node" where
  "atree_skew Nil = Nil"
| "atree_skew (Node l a k d b) =
     (if level a = l \<and> l > 0 then
        (case a of
           Node la a0 ka da a1 \<Rightarrow> Node la a0 ka da (Node l a1 k d b)
         | Nil \<Rightarrow> Node l a k d b)
      else Node l a k d b)"

fun atree_split :: "atree_node \<Rightarrow> atree_node" where
  "atree_split Nil = Nil"
| "atree_split (Node l a k d b) =
     (if level (right b) = l \<and> l > 0 then
        (case b of
           Node lb b0 kb db b1 \<Rightarrow> Node (lb + 1) (Node l a k d b0) kb db b1
         | Nil \<Rightarrow> Node l a k d b)
      else Node l a k d b)"

record atree_t =
  at_root :: atree_node
  at_comparison :: atree_compare
  at_nodes :: u32

text \<open>\<open>ok\<close> and \<open>ok_nil\<close> are the two allocations.\<close>

definition atree_create :: "bool \<Rightarrow> bool \<Rightarrow> atree_compare \<Rightarrow> atree_t option" where
  "atree_create ok ok_nil comparator =
     (if ok \<and> ok_nil then Some \<lparr> at_root = Nil, at_comparison = comparator, at_nodes = 0 \<rparr> else None)"

definition atree_count :: "atree_t \<Rightarrow> u32" where
  "atree_count tree = at_nodes tree"

fun atree_findFrom :: "atree_compare \<Rightarrow> ptr \<Rightarrow> atree_node \<Rightarrow> ptr" where
  "atree_findFrom cmp key Nil = NULL"
| "atree_findFrom cmp key (Node l a k d b) =
     (let result = cmp k key in
      if result = 0 then d
      else if result < 0 then atree_findFrom cmp key b else atree_findFrom cmp key a)"

definition atree_find :: "atree_t \<Rightarrow> ptr \<Rightarrow> ptr" where
  "atree_find tree key = atree_findFrom (at_comparison tree) key (at_root tree)"

text \<open>
  A step of a path: the node that was passed, without the child the path goes into. Putting the
  child back is the assignment to \<^verbatim>\<open>link[0]\<close> or \<^verbatim>\<open>link[1]\<close>.
\<close>

datatype step =
    Into0 int ptr ptr atree_node
  | Into1 int atree_node ptr ptr

fun plug :: "step \<Rightarrow> atree_node \<Rightarrow> atree_node" where
  "plug (Into0 l k d b) t = Node l t k d b"
| "plug (Into1 l a k d) t = Node l a k d t"

text \<open>A write to the array of ancestors.\<close>

definition push_path :: "step \<Rightarrow> step list \<Rightarrow> step list result" where
  "push_path s path = (if length path < kAtreeMaxHeight then Inr (s # path) else Inl OutOfBounds)"

fun atree_insertPath :: "atree_compare \<Rightarrow> ptr \<Rightarrow> atree_node \<Rightarrow> step list \<Rightarrow> step list result" where
  "atree_insertPath cmp key Nil path = Inr path"
| "atree_insertPath cmp key (Node l a k d b) path =
     (if cmp k key < 0
      then bind_res (push_path (Into1 l a k d) path) (atree_insertPath cmp key b)
      else bind_res (push_path (Into0 l k d b) path) (atree_insertPath cmp key a))"

text \<open>The loop back up to the root.\<close>

fun atree_rebuild :: "(atree_node \<Rightarrow> atree_node) \<Rightarrow> step list \<Rightarrow> atree_node \<Rightarrow> atree_node" where
  "atree_rebuild fix_up [] t = t"
| "atree_rebuild fix_up (s # path) t = atree_rebuild fix_up path (fix_up (plug s t))"

definition insert_fix :: "atree_node \<Rightarrow> atree_node" where
  "insert_fix t = atree_split (atree_skew t)"

definition atree_createNode :: "ptr \<Rightarrow> ptr \<Rightarrow> atree_node" where
  "atree_createNode data key = Node 1 Nil key data Nil"

text \<open>\<open>ok\<close> is the allocation of the node; without it the tree is left as it was.\<close>

definition atree_insert :: "bool \<Rightarrow> atree_t \<Rightarrow> ptr \<Rightarrow> ptr \<Rightarrow> atree_t result" where
  "atree_insert ok tree data key =
     (if at_root tree = Nil then
        (if ok then Inr (tree\<lparr>at_root := atree_createNode data key, at_nodes := at_nodes tree + 1\<rparr>)
         else Inr tree)
      else
        bind_res (atree_insertPath (at_comparison tree) key (at_root tree) []) (\<lambda>path.
        if ok then
          Inr (tree\<lparr>at_root := atree_rebuild insert_fix path (atree_createNode data key),
                    at_nodes := at_nodes tree + 1\<rparr>)
        else Inr tree))"

text \<open>
  Removal. The search pushes every node it visits, also the nil node and the node with the key;
  \<open>Inl\<close> of the inner sum is the early return for a key that is not in the tree.
\<close>

fun atree_removePath ::
  "atree_compare \<Rightarrow> ptr \<Rightarrow> atree_node \<Rightarrow> step list \<Rightarrow> (unit + (atree_node \<times> step list)) result" where
  "atree_removePath cmp key Nil path =
     (if length path < kAtreeMaxHeight then Inr (Inl ()) else Inl OutOfBounds)"
| "atree_removePath cmp key (Node l a k d b) path =
     (if length path < kAtreeMaxHeight then
        (let result = cmp k key in
         if result = 0 then Inr (Inr (Node l a k d b, path))
         else if result < 0 then atree_removePath cmp key b (Into1 l a k d # path)
         else atree_removePath cmp key a (Into0 l k d b # path))
      else Inl OutOfBounds)"

text \<open>The walk to the leftmost node of the right subtree; it returns the heir and the path.\<close>

fun atree_heirPath :: "atree_node \<Rightarrow> step list \<Rightarrow> (atree_node \<times> step list) result" where
  "atree_heirPath Nil path = Inl OutOfBounds"
| "atree_heirPath (Node l a k d b) path =
     (if a \<noteq> Nil
      then bind_res (push_path (Into0 l k d b) path) (atree_heirPath a)
      else Inr (Node l a k d b, path))"

fun set_level :: "int \<Rightarrow> atree_node \<Rightarrow> atree_node" where
  "set_level l Nil = Nil"
| "set_level l (Node l' a k d b) = Node l a k d b"

fun map_right :: "(atree_node \<Rightarrow> atree_node) \<Rightarrow> atree_node \<Rightarrow> atree_node" where
  "map_right f Nil = Nil"
| "map_right f (Node l a k d b) = Node l a k d (f b)"

fun remove_fix :: "atree_node \<Rightarrow> atree_node" where
  "remove_fix Nil = Nil"
| "remove_fix (Node l a k d b) =
     (if level a < l - 1 \<or> level b < l - 1 then
        (let b = (if level b > l - 1 then set_level (l - 1) b else b);
             up = atree_skew (Node (l - 1) a k d b);
             up = map_right atree_skew up;
             up = map_right (map_right atree_skew) up;
             up = atree_split up
         in map_right atree_split up)
      else Node l a k d b)"

definition atree_remove :: "atree_t \<Rightarrow> ptr \<Rightarrow> atree_t result" where
  "atree_remove tree key =
     (if at_root tree = Nil then Inr tree
      else
        bind_res (atree_removePath (at_comparison tree) key (at_root tree) []) (\<lambda>found.
        case found of
          Inl _ \<Rightarrow> Inr tree
        | Inr (Nil, path) \<Rightarrow> Inr tree
        | Inr (Node l a k d b, path) \<Rightarrow>
            bind_res
              (if a = Nil \<or> b = Nil then
                 Inr (if path \<noteq> [] then atree_rebuild remove_fix path (if a = Nil then b else a) else b)
               else
                 bind_res (atree_heirPath b []) (\<lambda>(heir, path').
                 bind_res (check OutOfBounds (length path + 1 + length path' \<le> kAtreeMaxHeight)) (\<lambda>_.
                 Inr (atree_rebuild remove_fix (path' @ Into1 l a k (node_data heir) # path) (link1 heir)))))
              (\<lambda>root. Inr (tree\<lparr>at_root := root, at_nodes := at_nodes tree - 1\<rparr>))))"

text \<open>
  The nodes \<^verbatim>\<open>atree_destroy\<close> releases, in order: it rotates left children up until there is none,
  releases the node and goes on with its right child.
\<close>

function atree_destroyFrom :: "atree_node \<Rightarrow> (ptr \<times> ptr) list" where
  "atree_destroyFrom Nil = []"
| "atree_destroyFrom (Node l Nil k d b) = (k, d) # atree_destroyFrom b"
| "atree_destroyFrom (Node l (Node la a0 ka da a1) k d b) =
     atree_destroyFrom (Node la a0 ka da (Node l a1 k d b))"
  by pat_completeness auto
termination
  by (relation "measures [size, \<lambda>t. size (case t of Nil \<Rightarrow> Nil | Node l a k d b \<Rightarrow> a)]") auto

definition atree_destroy :: "atree_t \<Rightarrow> (ptr \<times> ptr) list" where
  "atree_destroy tree = atree_destroyFrom (at_root tree)"

section \<open>Contents\<close>

fun inorder :: "atree_node \<Rightarrow> (ptr \<times> ptr) list" where
  "inorder Nil = []"
| "inorder (Node l a k d b) = inorder a @ (k, d) # inorder b"

lemma inorder_skew [simp]: "inorder (atree_skew t) = inorder t"
  by (cases t) (auto split: atree_node.splits)

lemma inorder_split [simp]: "inorder (atree_split t) = inorder t"
  by (cases t) (auto split: atree_node.splits)

lemma inorder_set_level [simp]: "inorder (set_level l t) = inorder t"
  by (cases t) auto

lemma inorder_map_right: "(\<And>t. inorder (f t) = inorder t) \<Longrightarrow> inorder (map_right f t) = inorder t"
  by (cases t) auto

lemma inorder_insert_fix [simp]: "inorder (insert_fix t) = inorder t"
  by (simp add: insert_fix_def)

lemma inorder_remove_fix [simp]: "inorder (remove_fix t) = inorder t"
  by (cases t) (simp_all add: Let_def inorder_map_right del: atree_skew.simps atree_split.simps)

text \<open>What lies to the left and to the right of the hole at the end of a path.\<close>

fun before :: "step list \<Rightarrow> (ptr \<times> ptr) list" where
  "before [] = []"
| "before (Into0 l k d b # path) = before path"
| "before (Into1 l a k d # path) = before path @ inorder a @ [(k, d)]"

fun after :: "step list \<Rightarrow> (ptr \<times> ptr) list" where
  "after [] = []"
| "after (Into0 l k d b # path) = (k, d) # inorder b @ after path"
| "after (Into1 l a k d # path) = after path"

lemma before_append: "before (p @ q) = before q @ before p"
  by (induction p rule: before.induct) auto

lemma after_append: "after (p @ q) = after p @ after q"
  by (induction p rule: after.induct) auto

lemma inorder_rebuild:
  assumes "\<And>t. inorder (f t) = inorder t"
  shows "inorder (atree_rebuild f path t) = before path @ inorder t @ after path"
proof (induction path arbitrary: t)
  case (Cons s path)
  then show ?case by (cases s) (simp_all add: assms)
qed simp

lemma atree_destroyFrom_inorder: "atree_destroyFrom t = inorder t"
  by (induction t rule: atree_destroyFrom.induct) auto

section \<open>Balance\<close>

text \<open>
  The invariant of AA trees: the left child is one level below its parent, the right child at most
  one, and of two consecutive right links at most one stays on a level.
\<close>

fun aa :: "atree_node \<Rightarrow> bool" where
  "aa Nil \<longleftrightarrow> True"
| "aa (Node l a k d b) \<longleftrightarrow> aa a \<and> aa b \<and> level a = l - 1 \<and>
     (level b = l - 1 \<or> level b = l \<and> level (right b) < l)"

lemma aa_level: "aa t \<Longrightarrow> level t \<ge> 0 \<and> (level t = 0 \<longleftrightarrow> t = Nil)"
  by (induction t) auto

lemma aa_right: "aa t \<Longrightarrow> t \<noteq> Nil \<Longrightarrow> level (right t) = level t \<or> level (right t) = level t - 1"
  by (cases t) auto

text \<open>
  What an insertion does to a subtree: its level grows by at most one, and only if its root had a
  right child on its own level; then the new root has both children on the level below.
\<close>

definition grown :: "atree_node \<Rightarrow> atree_node \<Rightarrow> bool" where
  "grown t t' \<longleftrightarrow> aa t' \<and> t' \<noteq> Nil \<and>
     (level t' = level t \<or>
      level t' = level t + 1 \<and> level (right t') = level t \<and> (t = Nil \<or> level (right t) = level t))"

lemma grown_leaf: "grown Nil (atree_createNode data key)"
  by (simp add: grown_def atree_createNode_def)

lemma grown_left:
  assumes aa: "aa (Node l a k d b)" and g: "grown a a'"
  shows "grown (Node l a k d b) (insert_fix (Node l a' k d b))"
proof -
  have l: "l > 0" and la: "level a = l - 1" using aa aa_level[of a] by auto
  have rb: "level (right b) < l" using aa aa_level[of b] aa_right[of b] by (cases b) auto
  consider (same) "level a' = l - 1" | (up) "level a' = l" "level (right a') = l - 1"
    using g la by (auto simp: grown_def)
  then show ?thesis
  proof cases
    case same
    then have "insert_fix (Node l a' k d b) = Node l a' k d b" using rb by (simp add: insert_fix_def)
    then show ?thesis using same g aa by (simp add: grown_def)
  next
    case up
    then obtain a0 ka da a1 where a': "a' = Node l a0 ka da a1" using l by (cases a') auto
    have lv: "level a0 = l - 1" "level a1 = l - 1" "aa a0" "aa a1" using g up by (auto simp: grown_def a')
    show ?thesis using aa lv l rb by (auto simp: grown_def insert_fix_def a')
  qed
qed

lemma grown_right:
  assumes aa: "aa (Node l a k d b)" and g: "grown b b'"
  shows "grown (Node l a k d b) (insert_fix (Node l a k d b'))"
proof -
  have l: "l > 0" and la: "level a = l - 1" using aa aa_level[of a] by auto
  have skew: "atree_skew (Node l a k d b') = Node l a k d b'" using la by simp
  have b': "aa b'" "b' \<noteq> Nil" using g by (auto simp: grown_def)
  consider (low) "level b = l - 1" "level b' = l - 1" | (mid) "level b = l" "level b' = l"
    | (up) "level b = l - 1" "level b' = l" "level (right b') = l - 1"
    using g aa l by (auto simp: grown_def)
  then show ?thesis
  proof cases
    case low
    then have "level (right b') < l" using aa_right[OF b'] by auto
    then show ?thesis using low aa b' by (simp add: grown_def insert_fix_def skew)
  next
    case up
    then show ?thesis using aa b' l by (simp add: grown_def insert_fix_def skew)
  next
    case mid
    then obtain b0 kb db b1 where e: "b' = Node l b0 kb db b1" using l by (cases b') auto
    show ?thesis using mid aa b' l aa_right[OF b'] by (auto simp: grown_def insert_fix_def skew e)
  qed
qed

text \<open>Insertion as a recursion, and that the loops of the code compute it.\<close>

fun ins :: "atree_compare \<Rightarrow> ptr \<Rightarrow> ptr \<Rightarrow> atree_node \<Rightarrow> atree_node" where
  "ins cmp data key Nil = atree_createNode data key"
| "ins cmp data key (Node l a k d b) =
     (if cmp k key < 0 then insert_fix (Node l a k d (ins cmp data key b))
      else insert_fix (Node l (ins cmp data key a) k d b))"

lemma grown_ins: "aa t \<Longrightarrow> grown t (ins cmp data key t)"
proof (induction t)
  case Nil
  then show ?case by (simp add: grown_leaf)
next
  case (Node l a k d b)
  then have "grown a (ins cmp data key a)" "grown b (ins cmp data key b)" by auto
  then show ?case using grown_left[OF Node.prems] grown_right[OF Node.prems] by simp
qed

lemma atree_insertPath_ins:
  "atree_insertPath cmp key t path = Inr path' \<Longrightarrow>
   atree_rebuild insert_fix path' (atree_createNode data key) = atree_rebuild insert_fix path (ins cmp data key t)"
proof (induction t arbitrary: path)
  case Nil
  then show ?case by simp
next
  case (Node l a k d b)
  show ?case
  proof (cases "cmp k key < 0")
    case True
    then show ?thesis using Node.prems Node.IH(2)[of "Into1 l a k d # path"]
      by (simp add: push_path_def split: if_splits)
  next
    case False
    then show ?thesis using Node.prems Node.IH(1)[of "Into0 l k d b # path"]
      by (simp add: push_path_def split: if_splits)
  qed
qed

fun height :: "atree_node \<Rightarrow> nat" where
  "height Nil = 0"
| "height (Node l a k d b) = Suc (max (height a) (height b))"

lemma atree_insertPath_fits:
  "length path + height t \<le> kAtreeMaxHeight \<Longrightarrow> \<exists>path'. atree_insertPath cmp key t path = Inr path'"
proof (induction t arbitrary: path)
  case Nil
  then show ?case by simp
next
  case (Node l a k d b)
  then show ?case
    using Node.IH(1)[of "Into0 l k d b # path"] Node.IH(2)[of "Into1 l a k d # path"]
    by (simp add: push_path_def)
qed

lemma height_le_level: "aa t \<Longrightarrow> int (height t) \<le> 2 * level t - (if t \<noteq> Nil \<and> level (right t) < level t then 1 else 0)"
proof (induction t)
  case (Node l a k d b)
  then have IH: "int (height a) \<le> 2 * level a"
      "int (height b) \<le> 2 * level b - (if b \<noteq> Nil \<and> level (right b) < level b then 1 else 0)"
    by (auto split: if_splits)
  show ?case using IH Node.prems aa_level[of b] aa_level[of a] by (auto split: if_splits)
qed simp

lemma size_ge_level: "aa t \<Longrightarrow> 2 ^ nat (level t) \<le> length (inorder t) + 1"
proof (induction t)
  case (Node l a k d b)
  have l: "level a = l - 1" "level a \<ge> 0" "level b \<ge> l - 1"
    using Node.prems aa_level[of a] by auto
  then obtain m where m: "nat l = Suc m" "nat (level a) = m" "m \<le> nat (level b)"
    by (cases "nat l") auto
  have "(2 :: nat) ^ m \<le> 2 ^ nat (level b)" using m(3) by (simp add: power_increasing)
  also have "\<dots> \<le> length (inorder b) + 1" using Node.IH(2) Node.prems by simp
  finally have "2 ^ m \<le> length (inorder b) + 1" .
  moreover have "2 ^ m \<le> length (inorder a) + 1" using Node.IH(1) Node.prems m(2) by simp
  ultimately show ?case using m(1) by simp
qed simp

text \<open>With fewer than \<open>2 ^ 32 - 1\<close> nodes the path never outgrows its array of 64 entries.\<close>

lemma height_fits:
  assumes "aa t" "length (inorder t) + 1 < 2 ^ 32"
  shows "height t \<le> 62"
proof -
  have "(2 :: nat) ^ nat (level t) < 2 ^ 32" using size_ge_level[OF assms(1)] assms(2) by (rule order_le_less_trans)
  then have "nat (level t) < 32" using power_increasing[of 32 "nat (level t)" "2 :: nat"]
    by (cases "nat (level t) < 32") simp_all
  then show ?thesis using height_le_level[OF assms(1)] by (auto split: if_splits)
qed

section \<open>Order\<close>

definition key_order :: "atree_compare \<Rightarrow> bool" where
  "key_order cmp \<longleftrightarrow> (\<forall>x y. cmp x y < 0 \<longleftrightarrow> cmp y x > 0) \<and>
     (\<forall>x y z. cmp x y \<le> 0 \<longrightarrow> cmp y z \<le> 0 \<longrightarrow> cmp x z \<le> 0)"

definition search_tree :: "atree_compare \<Rightarrow> atree_node \<Rightarrow> bool" where
  "search_tree cmp t \<longleftrightarrow> sorted_wrt (\<lambda>x y. cmp (fst x) (fst y) \<le> 0) (inorder t)"

lemma key_order_less:
  assumes "key_order cmp"
  shows "cmp x y \<le> 0 \<Longrightarrow> cmp y z < 0 \<Longrightarrow> cmp x z < 0" "cmp x y < 0 \<Longrightarrow> cmp y z \<le> 0 \<Longrightarrow> cmp x z < 0"
    "cmp x y > 0 \<Longrightarrow> cmp y x \<le> 0"
proof -
  have flip: "cmp a b < 0 \<longleftrightarrow> cmp b a > 0" for a b using assms by (simp add: key_order_def)
  have tr: "cmp a b \<le> 0 \<Longrightarrow> cmp b c \<le> 0 \<Longrightarrow> cmp a c \<le> 0" for a b c
    using assms unfolding key_order_def by blast
  show "cmp x z < 0" if "cmp x y \<le> 0" "cmp y z < 0"
  proof (rule ccontr)
    assume "\<not> cmp x z < 0"
    then have "cmp z x \<le> 0" using flip[of z x] flip[of x z] by linarith
    then have "cmp z y \<le> 0" using tr that(1) by blast
    then show False using that(2) flip[of y z] by linarith
  qed
  show "cmp x z < 0" if "cmp x y < 0" "cmp y z \<le> 0"
  proof (rule ccontr)
    assume "\<not> cmp x z < 0"
    then have "cmp z x \<le> 0" using flip[of z x] flip[of x z] by linarith
    then have "cmp y x \<le> 0" using tr that(2) by blast
    then show False using that(1) flip[of x y] by linarith
  qed
  show "cmp x y > 0 \<Longrightarrow> cmp y x \<le> 0" using flip[of y x] by linarith
qed

lemma search_tree_Node:
  "search_tree cmp (Node l a k d b) \<longleftrightarrow> search_tree cmp a \<and> search_tree cmp b \<and>
     (\<forall>x \<in> set (inorder a). cmp (fst x) k \<le> 0 \<and> (\<forall>y \<in> set (inorder b). cmp (fst x) (fst y) \<le> 0)) \<and>
     (\<forall>y \<in> set (inorder b). cmp k (fst y) \<le> 0)"
  by (auto simp: search_tree_def sorted_wrt_append)

text \<open>Insertion puts the entry before the first one whose key is not below the new key.\<close>

definition insert_entry :: "atree_compare \<Rightarrow> ptr \<times> ptr \<Rightarrow> (ptr \<times> ptr) list \<Rightarrow> (ptr \<times> ptr) list" where
  "insert_entry cmp e xs =
     takeWhile (\<lambda>x. cmp (fst x) (fst e) < 0) xs @ e # dropWhile (\<lambda>x. cmp (fst x) (fst e) < 0) xs"

lemma takeWhile_stop:
  "\<not> P y \<Longrightarrow> takeWhile P (xs @ y # ys) = takeWhile P xs \<and> dropWhile P (xs @ y # ys) = dropWhile P xs @ y # ys"
  by (induction xs) auto

lemma inorder_ins:
  assumes "key_order cmp"
  shows "search_tree cmp t \<Longrightarrow> inorder (ins cmp data key t) = insert_entry cmp (key, data) (inorder t)"
proof (induction t)
  case Nil
  then show ?case by (simp add: insert_entry_def atree_createNode_def)
next
  case (Node l a k d b)
  note st = Node.prems[unfolded search_tree_Node]
  let ?P = "\<lambda>x. cmp (fst x) key < 0"
  show ?case
  proof (cases "cmp k key < 0")
    case True
    then have "\<And>x. x \<in> set (inorder a) \<Longrightarrow> ?P x" using st key_order_less(1)[OF assms] by blast
    then have "takeWhile ?P (inorder a @ (k, d) # inorder b) = inorder a @ (k, d) # takeWhile ?P (inorder b)"
      "dropWhile ?P (inorder a @ (k, d) # inorder b) = dropWhile ?P (inorder b)"
      using True by (simp_all add: takeWhile_append2 dropWhile_append2)
    then show ?thesis using True Node.IH(2) st by (simp add: insert_entry_def)
  next
    case False
    then have "takeWhile ?P (inorder a @ (k, d) # inorder b) = takeWhile ?P (inorder a)"
      "dropWhile ?P (inorder a @ (k, d) # inorder b) = dropWhile ?P (inorder a) @ (k, d) # inorder b"
      using takeWhile_stop[of ?P "(k, d)"] by simp_all
    then show ?thesis using False Node.IH(1) st by (simp add: insert_entry_def)
  qed
qed

lemma sorted_insert_entry:
  assumes ord: "key_order cmp" and s: "sorted_wrt (\<lambda>x y. cmp (fst x) (fst y) \<le> 0) xs"
  shows "sorted_wrt (\<lambda>x y. cmp (fst x) (fst y) \<le> 0) (insert_entry cmp e xs)"
  using s
proof (induction xs)
  case Nil
  then show ?case by (simp add: insert_entry_def)
next
  case (Cons x xs)
  show ?case
  proof (cases "cmp (fst x) (fst e) < 0")
    case True
    have "set (insert_entry cmp e xs) = insert e (set xs)"
    proof -
      let ?P = "\<lambda>x. cmp (fst x) (fst e) < 0"
      have "set xs = set (takeWhile ?P xs) \<union> set (dropWhile ?P xs)" by (metis set_append takeWhile_dropWhile_id)
      then show ?thesis by (auto simp: insert_entry_def)
    qed
    then have "\<forall>y \<in> set (insert_entry cmp e xs). cmp (fst x) (fst y) \<le> 0" using Cons.prems True by auto
    then show ?thesis using True Cons by (simp add: insert_entry_def)
  next
    case False
    have flip: "cmp (fst e) (fst x) > 0 \<longleftrightarrow> cmp (fst x) (fst e) < 0" using ord by (simp add: key_order_def)
    have tr: "cmp u v \<le> 0 \<Longrightarrow> cmp v w \<le> 0 \<Longrightarrow> cmp u w \<le> 0" for u v w
      using ord unfolding key_order_def by blast
    have ex: "cmp (fst e) (fst x) \<le> 0" using False flip by linarith
    moreover have "cmp (fst e) (fst y) \<le> 0" if "y \<in> set xs" for y
      using tr[OF ex, of "fst y"] that Cons.prems by simp
    ultimately show ?thesis using False Cons.prems by (simp add: insert_entry_def)
  qed
qed

lemma atree_findFrom_spec:
  assumes ord: "key_order cmp"
  shows "search_tree cmp t \<Longrightarrow>
    (if \<exists>x \<in> set (inorder t). cmp (fst x) key = 0
     then \<exists>x \<in> set (inorder t). cmp (fst x) key = 0 \<and> atree_findFrom cmp key t = snd x
     else atree_findFrom cmp key t = NULL)"
proof (induction t)
  case (Node l a k d b)
  note st = Node.prems[unfolded search_tree_Node]
  consider "cmp k key = 0" | (lt) "cmp k key < 0" | (gt) "cmp k key > 0" by linarith
  then show ?case
  proof cases
    case 1
    then show ?thesis by auto
  next
    case lt
    then have "\<forall>x \<in> set (inorder a). cmp (fst x) key \<noteq> 0" using st key_order_less(1)[OF ord] by fastforce
    then show ?thesis using lt Node.IH(2) st by (auto split: if_splits)
  next
    case gt
    then have "cmp key k < 0" using ord by (simp add: key_order_def)
    then have "\<forall>y \<in> set (inorder b). cmp key (fst y) < 0" using st key_order_less(2)[OF ord] by blast
    then have "\<forall>y \<in> set (inorder b). cmp (fst y) key \<noteq> 0" using ord unfolding key_order_def by fastforce
    then show ?thesis using gt Node.IH(1) st by (auto split: if_splits)
  qed
qed simp

section \<open>Removal\<close>

lemma atree_removePath_fits:
  "length path + height t < kAtreeMaxHeight \<Longrightarrow> \<exists>r. atree_removePath cmp key t path = Inr r"
proof (induction t arbitrary: path)
  case (Node l a k d b)
  then show ?case
    using Node.IH(1)[of "Into0 l k d b # path"] Node.IH(2)[of "Into1 l a k d # path"]
    by (simp add: Let_def)
qed simp

lemma atree_removePath_found:
  "atree_removePath cmp key t path = Inr (Inr (n, path')) \<Longrightarrow>
   before path' @ inorder n @ after path' = before path @ inorder t @ after path \<and>
   length path' + height n \<le> length path + height t \<and> (path' = [] \<longrightarrow> n = t)"
proof (induction t arbitrary: path)
  case (Node l a k d b)
  consider "cmp k key = 0" | (lt) "cmp k key < 0" | (gt) "cmp k key > 0" by linarith
  then show ?case
  proof cases
    case 1
    then show ?thesis using Node.prems by (auto split: if_splits)
  next
    case lt
    then have r: "atree_removePath cmp key b (Into1 l a k d # path) = Inr (Inr (n, path'))"
      using Node.prems by (simp split: if_splits)
    have "path' \<noteq> []"
    proof -
      have "atree_removePath cmp key t p = Inr (Inr (n, q)) \<Longrightarrow> length p \<le> length q" for t p n q
        by (induction t arbitrary: p) (fastforce simp: Let_def split: if_splits)+
      from this[OF r] show ?thesis by auto
    qed
    then show ?thesis using Node.IH(2)[OF r] by auto
  next
    case gt
    then have r: "atree_removePath cmp key a (Into0 l k d b # path) = Inr (Inr (n, path'))"
      using Node.prems by (simp split: if_splits)
    have "path' \<noteq> []"
    proof -
      have "atree_removePath cmp key t p = Inr (Inr (n, q)) \<Longrightarrow> length p \<le> length q" for t p n q
        by (induction t arbitrary: p) (fastforce simp: Let_def split: if_splits)+
      from this[OF r] show ?thesis by auto
    qed
    then show ?thesis using Node.IH(1)[OF r] by auto
  qed
qed (simp split: if_splits)

lemma atree_heirPath_spec:
  "b \<noteq> Nil \<Longrightarrow> length path + height b \<le> kAtreeMaxHeight \<Longrightarrow>
   \<exists>lh kh dh bh path'. atree_heirPath b path = Inr (Node lh Nil kh dh bh, path') \<and>
     before path' = before path \<and> (kh, dh) # inorder bh @ after path' = inorder b @ after path \<and>
     length path' < length path + height b"
proof (induction b arbitrary: path)
  case (Node l a k d b)
  show ?case
  proof (cases "a = Nil")
    case True
    then show ?thesis by simp
  next
    case False
    have len: "length path < kAtreeMaxHeight" using Node.prems(2) by simp
    obtain lh kh dh bh path' where "atree_heirPath a (Into0 l k d b # path) = Inr (Node lh Nil kh dh bh, path')"
      "before path' = before path" "(kh, dh) # inorder bh @ after path' = inorder a @ (k, d) # inorder b @ after path"
      "length path' < Suc (length path) + height a"
    proof -
      have "length (Into0 l k d b # path) + height a \<le> kAtreeMaxHeight" using Node.prems(2) by simp
      from Node.IH(1)[OF False this] show ?thesis using that by auto
    qed
    then show ?thesis using False len by (simp add: push_path_def)
  qed
qed simp

lemma aa_no_right: "aa (Node l a k d Nil) \<Longrightarrow> a = Nil"
  using aa_level[of a] by auto

lemma height_root_fits:
  "aa (at_root tree) \<Longrightarrow> length (inorder (at_root tree)) + 1 < 2 ^ 32 \<Longrightarrow>
   height (at_root tree) < kAtreeMaxHeight"
  using height_fits[of "at_root tree"] by (simp add: kAtreeMaxHeight_def)

lemma atree_remove_inner:
  assumes "aa (at_root tree)" "length (inorder (at_root tree)) + 1 < 2 ^ 32"
    and found: "atree_removePath (at_comparison tree) key (at_root tree) [] = Inr (Inr (Node l a k d b, path))"
    and kids: "a \<noteq> Nil" "b \<noteq> Nil"
  shows "\<exists>tree' k' d' ys. atree_remove tree key = Inr tree' \<and>
    inorder (at_root tree) = (before path @ inorder a) @ (k, d) # (k', d') # ys \<and>
    inorder (at_root tree') = (before path @ inorder a) @ (k, d') # ys \<and>
    at_nodes tree' = at_nodes tree - 1"
proof -
  have ne: "at_root tree \<noteq> Nil" using found by (auto split: if_splits)
  have whole: "before path @ inorder (Node l a k d b) @ after path = inorder (at_root tree)"
    and len: "length path + height (Node l a k d b) \<le> height (at_root tree)"
    using atree_removePath_found[OF found] by auto
  have lb: "length path + 1 + height b < kAtreeMaxHeight"
    using len height_root_fits[OF assms(1,2)] by simp
  then obtain lh kh dh bh path' where
    heir: "atree_heirPath b [] = Inr (Node lh Nil kh dh bh, path')" "before path' = []"
      "(kh, dh) # inorder bh @ after path' = inorder b" "length path' < height b"
    using atree_heirPath_spec[OF kids(2), of "[]"] by auto
  have "length path + 1 + length path' \<le> kAtreeMaxHeight" using lb heir(4) by linarith
  then have "atree_remove tree key = Inr (tree\<lparr>
      at_root := atree_rebuild remove_fix (path' @ Into1 l a k dh # path) bh,
      at_nodes := at_nodes tree - 1\<rparr>)"
    using ne found kids heir(1) by (simp add: atree_remove_def check_def)
  moreover have "inorder (at_root tree) = (before path @ inorder a) @ (k, d) # (kh, dh) # inorder bh @ after path' @ after path"
    using whole heir(3)[symmetric] by simp
  ultimately show ?thesis
    using heir(2) by (auto simp: inorder_rebuild before_append after_append)
qed

lemma atree_remove_outer:
  assumes "aa (at_root tree)"
    and found: "atree_removePath (at_comparison tree) key (at_root tree) [] = Inr (Inr (Node l a k d b, path))"
    and kids: "a = Nil \<or> b = Nil"
  shows "\<exists>tree'. atree_remove tree key = Inr tree' \<and>
    inorder (at_root tree) = (before path @ inorder a) @ (k, d) # inorder b @ after path \<and>
    inorder (at_root tree') = (before path @ inorder a) @ inorder b @ after path \<and>
    at_nodes tree' = at_nodes tree - 1"
proof -
  have ne: "at_root tree \<noteq> Nil" using found by (auto split: if_splits)
  have whole: "before path @ inorder (Node l a k d b) @ after path = inorder (at_root tree)"
    and top: "path = [] \<longrightarrow> Node l a k d b = at_root tree"
    using atree_removePath_found[OF found] by auto
  let ?root = "if path \<noteq> [] then atree_rebuild remove_fix path (if a = Nil then b else a) else b"
  have "path = [] \<longrightarrow> a = Nil" using top kids assms(1) aa_no_right[of l a k d] by metis
  then have "inorder ?root = before path @ inorder a @ inorder b @ after path"
    using kids by (auto simp: inorder_rebuild)
  moreover have "atree_remove tree key = Inr (tree\<lparr>at_root := ?root, at_nodes := at_nodes tree - 1\<rparr>)"
    using ne found kids by (simp add: atree_remove_def)
  ultimately show ?thesis using whole by simp
qed

text \<open>What the removal of a node below leaves: at most one level is lost.\<close>

definition shrunk :: "atree_node \<Rightarrow> atree_node \<Rightarrow> bool" where
  "shrunk t t' \<longleftrightarrow> aa t' \<and> (level t' = level t - 1 \<or>
     level t' = level t \<and> (level (right t') = level t' \<longrightarrow> level (right t) = level t \<or> t = Nil))"

lemma atree_skew_aa: "aa t \<Longrightarrow> atree_skew t = t"
  by (cases t) auto

lemma atree_split_aa: "aa t \<Longrightarrow> atree_split t = t"
proof (cases t)
  case (Node l a k d b)
  assume "aa t"
  then show ?thesis using aa_right[of b] aa_level[of b] by (cases b) (auto simp: Node)
qed simp

lemma aa_Node_level:
  "aa t \<Longrightarrow> level t = n \<Longrightarrow> n > 0 \<Longrightarrow>
   \<exists>a k d b. t = Node n a k d b \<and> aa a \<and> aa b \<and> level a = n - 1 \<and>
     (level b = n - 1 \<or> level b = n \<and> level (right b) = n - 1)"
proof (cases t)
  case (Node l a k d b)
  assume *: "aa t" "level t = n" "n > 0"
  then have "level b = n \<longrightarrow> level (right b) = n - 1" using aa_right[of b] by (cases b) (auto simp: Node)
  then show ?thesis using * by (auto simp: Node)
qed auto

lemma aa_Node_flat:
  assumes "aa t" "level t = n" "n > 0" "level (right t) = n - 1"
  shows "\<exists>a k d b. t = Node n a k d b \<and> aa a \<and> aa b \<and> level a = n - 1 \<and> level b = n - 1"
proof -
  obtain a k d b where t: "t = Node n a k d b" "aa a" "aa b" "level a = n - 1"
    using aa_Node_level[OF assms(1-3)] by auto
  then show ?thesis using assms(4) by simp
qed

lemma shrunk_left_low:
  assumes n: "n > 0" and a: "aa a" "level a = n - 1" and b: "aa b" "level b = n"
  shows "shrunk (Node (n + 1) a' k d b) (remove_fix (Node (n + 1) a k d b))"
proof -
  obtain b0 kb db b1 where e: "b = Node n b0 kb db b1" "aa b0" "aa b1" "level b0 = n - 1"
    "level b1 = n - 1 \<or> level b1 = n \<and> level (right b1) = n - 1"
    using aa_Node_level[OF b n] by auto
  from e(5) show ?thesis
  proof
    assume "level b1 = n - 1"
    then show ?thesis using n a b e(2-4)
      using aa_right[OF e(3)] by (auto simp: shrunk_def e(1) atree_skew_aa Let_def split: if_splits atree_node.splits)
  next
    assume "level b1 = n \<and> level (right b1) = n - 1"
    then show ?thesis using n a b e(2-4)
      by (simp add: shrunk_def e(1) atree_skew_aa atree_split_aa Let_def)
  qed
qed

lemma shrunk_left_high:
  assumes n: "n > 0" and a: "aa a" "level a = n - 1"
    and b: "aa b" "level b = n + 1" "level (right b) = n"
  shows "shrunk (Node (n + 1) a' k d b) (remove_fix (Node (n + 1) a k d b))"
proof -
  obtain b0 kb db b1 where e: "b = Node (n + 1) b0 kb db b1" "aa b0" "aa b1" "level b0 = n" "level b1 = n"
    using aa_Node_flat[OF b(1,2)] n b(3) by auto
  obtain c0 kc dc c1 where c: "b0 = Node n c0 kc dc c1" "aa c0" "aa c1" "level c0 = n - 1"
    "level c1 = n - 1 \<or> level c1 = n \<and> level (right c1) = n - 1"
    using aa_Node_level[OF e(2,4) n] by auto
  obtain g0 kg dg g1 where g: "b1 = Node n g0 kg dg g1" "aa g0" "aa g1" "level g0 = n - 1"
    "level g1 = n - 1 \<or> level g1 = n \<and> level (right g1) = n - 1"
    using aa_Node_level[OF e(3,5) n] by auto
  from c(5) show ?thesis
  proof
    assume "level c1 = n - 1"
    then show ?thesis using n a c(2-4) g(2-5)
      by (auto simp: shrunk_def e(1) c(1) g(1))
  next
    assume c1: "level c1 = n \<and> level (right c1) = n - 1"
    then obtain f0 kf df f1 where f: "c1 = Node n f0 kf df f1" "aa f0" "aa f1" "level f0 = n - 1" "level f1 = n - 1"
      using aa_Node_flat[OF c(3) _ n] by blast
    show ?thesis using n a c(2-4) g(2-5) f(2-5)
      by (auto simp: shrunk_def e(1) c(1) g(1) f(1))
  qed
qed

lemma shrunk_left:
  assumes aa: "aa (Node l a k d b)" and s: "shrunk a a'"
  shows "shrunk (Node l a k d b) (remove_fix (Node l a' k d b))"
proof (cases "level a' = l - 1")
  case True
  then show ?thesis using assms by (auto simp: shrunk_def)
next
  case False
  define n where "n = l - 1"
  have l: "l = n + 1" by (simp add: n_def)
  have a': "aa a'" "level a' = n - 1" using aa s False by (auto simp: shrunk_def n_def)
  then have n: "n > 0" using aa_level[of a'] by simp
  have rb: "level b = n + 1 \<Longrightarrow> level (right b) = n"
    using aa aa_right[of b] n by (cases b) (auto simp: l)
  have b: "aa b" "level b = n \<or> level b = n + 1" using aa by (auto simp: l)
  from b(2) show ?thesis
  proof
    assume "level b = n"
    from shrunk_left_low[OF n a' b(1) this] show ?thesis by (simp only: l)
  next
    assume "level b = n + 1"
    from shrunk_left_high[OF n a' b(1) this rb[OF this]] show ?thesis by (simp only: l)
  qed
qed

lemma shrunk_right:
  assumes aa: "aa (Node l a k d b)" and s: "shrunk b b'"
  shows "shrunk (Node l a k d b) (remove_fix (Node l a k d b'))"
proof (cases "level b' < l - 1")
  case False
  have l: "l > 0" "level a = l - 1" using aa aa_level[of a] by auto
  have b': "aa b'" "level b' \<le> level b" using s by (auto simp: shrunk_def)
  have lb: "level b' = l - 1 \<or> level b' = l" using False aa b'(2) by auto
  have "level b' = l \<Longrightarrow> level (right b') < l"
  proof -
    assume up: "level b' = l"
    then have "level b = l" "level (right b) < l" "b \<noteq> Nil" using aa b'(2) l by auto
    then have "level (right b') \<noteq> l" using s up by (auto simp: shrunk_def)
    then show ?thesis using aa_right[OF b'(1)] up l by (cases b') auto
  qed
  moreover have "remove_fix (Node l a k d b') = Node l a k d b'" using False l by simp
  moreover have "level b' = l \<Longrightarrow> level b = l" using aa b'(2) l by auto
  ultimately show ?thesis using lb aa b'(1) l by (auto simp: shrunk_def)
next
  case True
  define n where "n = l - 1"
  have l: "l = n + 1" by (simp add: n_def)
  have b': "aa b'" "level b' = n - 1" using aa s True by (auto simp: shrunk_def n_def)
  then have n: "n > 0" using aa_level[of b'] by simp
  obtain a0 ka da a1 where e: "a = Node n a0 ka da a1" "aa a0" "aa a1" "level a0 = n - 1"
    "level a1 = n - 1 \<or> level a1 = n \<and> level (right a1) = n - 1"
    using aa_Node_level[of a n] aa n by (auto simp: l)
  have rb: "level (right b') < n" using aa_right[OF b'(1)] b'(2) n by (cases b') auto
  from e(5) show ?thesis
  proof
    assume "level a1 = n - 1"
    then show ?thesis using n b' e(2-4) rb
      by (auto simp: shrunk_def e(1) l atree_skew_aa atree_split_aa)
  next
    assume a1: "level a1 = n \<and> level (right a1) = n - 1"
    then obtain g0 kg dg g1 where g: "a1 = Node n g0 kg dg g1" "aa g0" "aa g1" "level g0 = n - 1" "level g1 = n - 1"
      using aa_Node_flat[OF e(3) _ n] by blast
    show ?thesis using n b' e(2-4) g(2-5) rb by (auto simp: shrunk_def e(1) g(1) l)
  qed
qed

text \<open>The tree a path and the subtree at its end were taken from.\<close>

abbreviation close_path :: "step list \<Rightarrow> atree_node \<Rightarrow> atree_node" where
  "close_path path t \<equiv> atree_rebuild (\<lambda>t. t) path t"

lemma atree_rebuild_append: "atree_rebuild f (p @ q) t = atree_rebuild f q (atree_rebuild f p t)"
  by (induction p arbitrary: t) auto

lemma aa_close_path: "aa (close_path path t) \<Longrightarrow> aa t"
proof (induction path arbitrary: t)
  case (Cons s path)
  then have "aa (plug s t)" by simp
  then show ?case by (cases s) auto
qed simp

lemma shrunk_rebuild:
  "aa (close_path path t) \<Longrightarrow> shrunk t t' \<Longrightarrow> shrunk (close_path path t) (atree_rebuild remove_fix path t')"
proof (induction path arbitrary: t t')
  case (Cons s path)
  then have "aa (plug s t)" using aa_close_path[of path "plug s t"] by simp
  then have "shrunk (plug s t) (remove_fix (plug s t'))"
    using Cons.prems(2) by (cases s) (simp_all only: plug.simps shrunk_left shrunk_right)
  then show ?case using Cons by (simp del: remove_fix.simps)
qed simp

lemma shrunk_leaf: "aa (Node l Nil k d b) \<Longrightarrow> shrunk (Node l Nil k d b) b"
  using aa_level[of b] aa_level[of "right b"] by (auto simp: shrunk_def)

lemma atree_removePath_close:
  "atree_removePath cmp key t path = Inr (Inr (n, path')) \<Longrightarrow> close_path path' n = close_path path t"
proof (induction t arbitrary: path)
  case (Node l a k d b)
  then show ?case by (fastforce simp: Let_def split: if_splits)
qed (simp split: if_splits)

lemma atree_heirPath_close:
  "atree_heirPath b path = Inr (heir, path') \<Longrightarrow> close_path path' heir = close_path path b"
proof (induction b arbitrary: path)
  case (Node l a k d b)
  then show ?case by (fastforce simp: push_path_def split: if_splits)
qed simp

lemma shrunk_outer:
  assumes "aa (Node l a k d b)" "a = Nil \<or> b = Nil"
  shows "shrunk (Node l a k d b) (if a = Nil then b else a)"
  using assms aa_no_right[of l a k d] shrunk_leaf[of l k d b] by metis

lemma shrunk_inner:
  assumes aa: "aa (Node l a k d b)" and heir: "atree_heirPath b [] = Inr (heir, path')"
    and left: "link0 heir = Nil" "heir \<noteq> Nil"
  shows "shrunk (Node l a k d b) (remove_fix (Node l a k dh (atree_rebuild remove_fix path' (link1 heir))))"
proof -
  have cl: "close_path path' heir = b" using atree_heirPath_close[OF heir] by simp
  then have "aa (close_path path' heir)" using aa by simp
  moreover from this have "shrunk heir (link1 heir)"
    using aa_close_path[of path' heir] left shrunk_leaf by (cases heir) auto
  ultimately have "shrunk b (atree_rebuild remove_fix path' (link1 heir))"
    using shrunk_rebuild[of path' heir] cl by simp
  then have "shrunk (Node l a k dh b) (remove_fix (Node l a k dh (atree_rebuild remove_fix path' (link1 heir))))"
    using shrunk_right aa by simp
  then show ?thesis by (simp add: shrunk_def del: remove_fix.simps)
qed

lemma atree_heirPath_leaf:
  "atree_heirPath b path = Inr (heir, path') \<Longrightarrow> link0 heir = Nil \<and> heir \<noteq> Nil"
  by (induction b arbitrary: path) (auto simp: push_path_def split: if_splits)

lemma atree_remove_aa:
  assumes aa: "aa (at_root tree)" and r: "atree_remove tree key = Inr tree'"
  shows "aa (at_root tree')"
proof (cases "at_root tree = Nil")
  case True
  then show ?thesis using assms by (simp add: atree_remove_def)
next
  case False
  obtain found where found: "atree_removePath (at_comparison tree) key (at_root tree) [] = Inr found"
    using r False by (auto simp: atree_remove_def bind_res_def split: sum.splits)
  show ?thesis
  proof (cases "\<exists>l a k d b path. found = Inr (Node l a k d b, path)")
    case none: False
    then have "tree' = tree"
      using r False found by (auto simp: atree_remove_def split: sum.splits prod.splits atree_node.splits)
    then show ?thesis using aa by simp
  next
    case True
    then obtain l a k d b path where f: "found = Inr (Node l a k d b, path)" by blast
    have cl: "close_path path (Node l a k d b) = at_root tree"
      using atree_removePath_close[OF found[unfolded f]] by simp
    then have aan: "aa (Node l a k d b)" using aa aa_close_path by metis
    have "shrunk (at_root tree) (at_root tree')"
    proof (cases "a = Nil \<or> b = Nil")
      case True
      let ?t = "if a = Nil then b else a"
      have s: "shrunk (Node l a k d b) ?t" using shrunk_outer[OF aan True] .
      have "path = [] \<Longrightarrow> ?t = b" using True aan aa_no_right[of l a k d] by auto
      then have "at_root tree' = atree_rebuild remove_fix path ?t"
        using r False found f True by (auto simp: atree_remove_def)
      then show ?thesis using shrunk_rebuild[of path "Node l a k d b", OF _ s] aa cl by simp
    next
      case inner: False
      obtain heir path' where heir: "atree_heirPath b [] = Inr (heir, path')"
        using r False found f inner by (auto simp: atree_remove_def bind_res_def split: sum.splits)
      have "at_root tree' = atree_rebuild remove_fix (path' @ Into1 l a k (node_data heir) # path) (link1 heir)"
        using r False found f inner heir by (auto simp: atree_remove_def bind_res_def check_def split: sum.splits if_splits)
      then have "at_root tree' = atree_rebuild remove_fix path
          (remove_fix (Node l a k (node_data heir) (atree_rebuild remove_fix path' (link1 heir))))"
        by (simp add: atree_rebuild_append del: remove_fix.simps)
      then show ?thesis
        using shrunk_rebuild[of path "Node l a k d b"] shrunk_inner[OF aan heir] atree_heirPath_leaf[OF heir] aa cl
        by simp
    qed
    then show ?thesis by (simp add: shrunk_def)
  qed
qed

section \<open>Properties\<close>

definition compare_keys :: "ptr \<Rightarrow> ptr \<Rightarrow> int" where
  "compare_keys x y = uint x - uint y"

lemma key_order_compare_keys: "key_order compare_keys"
  by (auto simp: key_order_def compare_keys_def)

definition example_tree :: atree_t where
  "example_tree = \<lparr>at_root = Node 2 (Node 1 Nil 1 11 Nil) 2 22 (Node 1 Nil 3 33 Nil),
     at_comparison = compare_keys, at_nodes = 3\<rparr>"

lemma find_inserted:
  assumes ord: "key_order cmp" and st: "search_tree cmp t"
    and absent: "\<forall>x \<in> set xs. cmp (fst x) key \<noteq> 0" and io: "inorder t = insert_entry cmp (key, data) xs"
  shows "atree_findFrom cmp key t = data"
proof -
  have self: "cmp key key = 0"
  proof -
    have "cmp key key < 0 \<longleftrightarrow> cmp key key > 0" using ord by (simp add: key_order_def)
    then show ?thesis by linarith
  qed
  have "set (inorder t) = insert (key, data) (set xs)"
  proof -
    let ?P = "\<lambda>x. cmp (fst x) key < 0"
    have "set xs = set (takeWhile ?P xs) \<union> set (dropWhile ?P xs)"
      by (subst (1) takeWhile_dropWhile_id[of ?P, symmetric]) (simp only: set_append)
    then show ?thesis by (auto simp: io insert_entry_def)
  qed
  then show ?thesis using atree_findFrom_spec[OF ord st, of key] absent self by auto
qed

text \<open>
  C22. Inserting into a balanced search tree of fewer than two to the thirty-second minus one entries
  always succeeds when the node can be allocated: the ancestors fit into the array of 64. The
  result is balanced and ordered, holds the new entry before the first one whose key is not
  below it, and counts one more node. A key that was absent is then found with its data.
\<close>

theorem atree_insert_correct:
  assumes "aa (at_root tree)" "search_tree (at_comparison tree) (at_root tree)"
    and "key_order (at_comparison tree)" "length (inorder (at_root tree)) + 1 < 2 ^ 32"
  shows "\<exists>tree'. atree_insert True tree data key = Inr tree' \<and> aa (at_root tree') \<and>
    search_tree (at_comparison tree') (at_root tree') \<and>
    inorder (at_root tree') = insert_entry (at_comparison tree) (key, data) (inorder (at_root tree)) \<and>
    atree_count tree' = atree_count tree + 1 \<and>
    ((\<forall>x \<in> set (inorder (at_root tree)). at_comparison tree (fst x) key \<noteq> 0) \<longrightarrow> atree_find tree' key = data)"
proof -
  let ?cmp = "at_comparison tree" and ?root = "at_root tree"
  let ?new = "ins ?cmp data key ?root"
  let ?tree = "tree\<lparr>at_root := ?new, at_nodes := at_nodes tree + 1\<rparr>"
  obtain path where path: "atree_insertPath ?cmp key ?root [] = Inr path"
    using atree_insertPath_fits[of "[]" ?root ?cmp key] height_root_fits[OF assms(1,4)] by auto
  have r: "atree_insert True tree data key = Inr ?tree"
    using path atree_insertPath_ins[OF path, of data] by (auto simp: atree_insert_def)
  have io: "inorder ?new = insert_entry ?cmp (key, data) (inorder ?root)"
    by (rule inorder_ins[OF assms(3,2)])
  have st: "search_tree ?cmp ?new"
    using sorted_insert_entry[OF assms(3)] assms(2) by (simp add: search_tree_def io)
  have "aa ?new" using grown_ins[OF assms(1)] by (simp add: grown_def)
  then show ?thesis
    using r io st find_inserted[OF assms(3) st _ io] by (simp add: atree_count_def atree_find_def)
qed

theorem atree_insert_correct_witness:
  "\<exists>tree'. atree_insert True example_tree 44 4 = Inr tree' \<and> aa (at_root tree') \<and> atree_find tree' 4 = 44"
  using atree_insert_correct[of example_tree 44 4] key_order_compare_keys
  by (auto simp: example_tree_def search_tree_def compare_keys_def)

text \<open>
  C23. Removal from a balanced tree never runs past its array of ancestors and leaves a balanced tree; a
  key that is not found leaves the tree as it was.
\<close>

theorem atree_remove_balanced:
  assumes "aa (at_root tree)" "length (inorder (at_root tree)) + 1 < 2 ^ 32"
  shows "\<exists>tree'. atree_remove tree key = Inr tree' \<and> aa (at_root tree') \<and>
    (tree' = tree \<or> length (inorder (at_root tree')) + 1 = length (inorder (at_root tree)) \<and>
       at_nodes tree' = at_nodes tree - 1)"
proof -
  have "\<exists>tree'. atree_remove tree key = Inr tree' \<and>
    (tree' = tree \<or> length (inorder (at_root tree')) + 1 = length (inorder (at_root tree)) \<and>
       at_nodes tree' = at_nodes tree - 1)"
  proof (cases "at_root tree = Nil")
    case True
    then show ?thesis by (simp add: atree_remove_def)
  next
    case False
    obtain found where found: "atree_removePath (at_comparison tree) key (at_root tree) [] = Inr found"
      using atree_removePath_fits[of "[]"] height_root_fits[OF assms] by fastforce
    show ?thesis
    proof (cases "\<exists>l a k d b path. found = Inr (Node l a k d b, path)")
      case True
      then obtain l a k d b path where "found = Inr (Node l a k d b, path)" by blast
      note f = found[unfolded this]
      show ?thesis
        using atree_remove_outer[OF assms(1) f] atree_remove_inner[OF assms f]
        by (cases "a = Nil \<or> b = Nil") fastforce+
    next
      case none: False
      then have "atree_remove tree key = Inr tree"
        using False found by (auto simp: atree_remove_def split: sum.splits prod.splits atree_node.splits)
      then show ?thesis by simp
    qed
  qed
  then show ?thesis using atree_remove_aa[OF assms(1)] by blast
qed

theorem atree_remove_balanced_witness:
  "\<exists>tree'. atree_remove example_tree 1 = Inr tree' \<and> aa (at_root tree')"
  using atree_remove_balanced[of example_tree 1] by (auto simp: example_tree_def)

text \<open>
  Removing a key whose node has at most one child removes exactly its entry.
\<close>

theorem atree_remove_leaf:
  assumes "aa (at_root tree)"
    and "atree_removePath (at_comparison tree) key (at_root tree) [] = Inr (Inr (Node l a k d b, path))"
    and "a = Nil \<or> b = Nil"
  shows "\<exists>tree' xs ys. atree_remove tree key = Inr tree' \<and>
    inorder (at_root tree) = xs @ (k, d) # ys \<and> inorder (at_root tree') = xs @ ys"
  using atree_remove_outer[OF assms] by blast

theorem atree_remove_leaf_witness:
  "\<exists>tree' xs ys. atree_remove example_tree 1 = Inr tree' \<and>
     inorder (at_root example_tree) = xs @ (1, 11) # ys \<and> inorder (at_root tree') = xs @ ys"
  by (rule atree_remove_leaf[of _ _ 1 Nil 1 11 Nil "[Into0 2 2 22 (Node 1 Nil 3 33 Nil)]"])
    (simp_all add: example_tree_def compare_keys_def kAtreeMaxHeight_def)

text \<open>
  C24. Removing a key whose node has two children does not remove the key. The data of the next entry
  replaces the node's data, but the key stays: the next entry's key is what disappears, and its
  data is from then on found under the key that was to be removed.
\<close>

theorem atree_remove_inner_keeps_key:
  assumes "aa (at_root tree)" "length (inorder (at_root tree)) + 1 < 2 ^ 32"
    and "atree_removePath (at_comparison tree) key (at_root tree) [] = Inr (Inr (Node l a k d b, path))"
    and "a \<noteq> Nil" "b \<noteq> Nil"
  shows "\<exists>tree' xs k' d' ys. atree_remove tree key = Inr tree' \<and>
    inorder (at_root tree) = xs @ (k, d) # (k', d') # ys \<and> inorder (at_root tree') = xs @ (k, d') # ys"
  using atree_remove_inner[OF assms] by blast

theorem atree_remove_inner_keeps_key_witness:
  "\<exists>tree' xs k' d' ys. atree_remove example_tree 2 = Inr tree' \<and>
     inorder (at_root example_tree) = xs @ (2, 22) # (k', d') # ys \<and> inorder (at_root tree') = xs @ (2, d') # ys"
  by (rule atree_remove_inner_keeps_key[of _ _ 2 "Node 1 Nil 1 11 Nil" 2 22 "Node 1 Nil 3 33 Nil" "[]"])
    (simp_all add: example_tree_def compare_keys_def kAtreeMaxHeight_def)

end
