(* ===== verification/ATreeIterator.thy ===== *)
theory ATreeIterator
  imports ATree Iterator
begin

text \<open>
  The iterators of \<^verbatim>\<open>src/sys/container/atree.c\<close>. An iterator holds a node and the array of its ancestors;
  \<open>direction\<close> is 1 for the forward and 0 for the backwards iterator. The theory shows the sequence
  of objects a client of \<open>iterator_nextObject\<close> gets.
\<close>

section \<open>Model\<close>

record atree_iterator_t =
  ai_tree :: atree_t
  ai_node :: atree_node
  ai_path :: "step list"
  ai_direction :: bool
  ai_first :: bool

fun link :: "bool \<Rightarrow> atree_node \<Rightarrow> atree_node" where
  "link dir Nil = Nil"
| "link dir (Node l a k d b) = (if dir then b else a)"

fun step_into :: "bool \<Rightarrow> atree_node \<Rightarrow> step" where
  "step_into dir Nil = Into0 0 NULL NULL Nil"
| "step_into dir (Node l a k d b) = (if dir then Into1 l a k d else Into0 l k d b)"

text \<open>The data of a node; the nil node has \<open>NULL\<close>.\<close>

fun data_of :: "atree_node \<Rightarrow> ptr" where
  "data_of Nil = NULL"
| "data_of (Node l a k d b) = d"

text \<open>\<^verbatim>\<open>while(node->link[dir] != nil) { path[top ++] = node; node = node->link[dir]; }\<close>\<close>

fun atree_descend :: "bool \<Rightarrow> atree_node \<Rightarrow> step list \<Rightarrow> (atree_node \<times> step list) result" where
  "atree_descend dir Nil path = Inr (Nil, path)"
| "atree_descend dir (Node l a k d b) path =
     (if link dir (Node l a k d b) = Nil then Inr (Node l a k d b, path)
      else
        bind_res (push_path (step_into dir (Node l a k d b)) path) (\<lambda>path.
        if dir then atree_descend dir b path else atree_descend dir a path))"

text \<open>
  The \<^verbatim>\<open>do\<close> loop that climbs while the node is the child in \<open>direction\<close> of its parent. \<open>Inl\<close> is the exit
  at \<^verbatim>\<open>top == 0\<close>, with the node reached.
\<close>

fun went :: "bool \<Rightarrow> step \<Rightarrow> bool" where
  "went dir (Into0 l k d b) = (\<not> dir)"
| "went dir (Into1 l a k d) = dir"

fun atree_ascend :: "bool \<Rightarrow> atree_node \<Rightarrow> step list \<Rightarrow> atree_node + (atree_node \<times> step list)" where
  "atree_ascend dir node [] = Inl node"
| "atree_ascend dir node (s # path) =
     (if went dir s then atree_ascend dir (plug s node) path else Inr (plug s node, path))"

type_synonym fetch_state = "atree_iterator_t \<times> ptr list \<times> nat"

text \<open>One pass of the loop of \<^verbatim>\<open>atree_iteratorNextObject\<close>: the object of a fresh iterator, then the move.\<close>

definition atree_fetchFirst :: "fetch_state \<Rightarrow> fetch_state result" where
  "atree_fetchFirst = (\<lambda>(it, objects, gathered).
     if ai_first it \<and> ai_node it \<noteq> Nil then
       bind_res (write_cell objects gathered (data_of (ai_node it))) (\<lambda>objects.
       Inr (it\<lparr>ai_first := False\<rparr>, objects, gathered + 1))
     else Inr (it, objects, gathered))"

definition atree_fetchMove :: "fetch_state \<Rightarrow> fetch_state result" where
  "atree_fetchMove = (\<lambda>(it, objects, gathered).
     if link (ai_direction it) (ai_node it) \<noteq> Nil then
       bind_res (push_path (step_into (ai_direction it) (ai_node it)) (ai_path it)) (\<lambda>path.
       bind_res (atree_descend (\<not> ai_direction it) (link (ai_direction it) (ai_node it)) path) (\<lambda>(node, path).
       Inr (it\<lparr>ai_node := node, ai_path := path\<rparr>, objects, gathered)))
     else
       (case atree_ascend (ai_direction it) (ai_node it) (ai_path it) of
          Inl node \<Rightarrow>
            bind_res
              (if node = at_root (ai_tree it)
               then bind_res (write_cell objects gathered (data_of node)) (\<lambda>objects. Inr (objects, gathered + 1))
               else Inr (objects, gathered)) (\<lambda>(objects, gathered).
            Inr (it\<lparr>ai_node := Nil, ai_path := []\<rparr>, objects, gathered))
        | Inr (node, path) \<Rightarrow> Inr (it\<lparr>ai_node := node, ai_path := path\<rparr>, objects, gathered)))"

lemma atree_fetchFirst_gathered: "atree_fetchFirst st = Inr (it, objects, g) \<Longrightarrow> snd (snd st) \<le> g"
  by (auto simp: atree_fetchFirst_def bind_res_Inr_iff split: if_splits prod.splits)

lemma atree_fetchMove_gathered: "atree_fetchMove st = Inr (it, objects, g) \<Longrightarrow> snd (snd st) \<le> g"
  by (auto simp: atree_fetchMove_def bind_res_Inr_iff split: if_splits prod.splits sum.splits)

function atree_fetchLoop :: "fetch_state \<Rightarrow> nat \<Rightarrow> fetch_state result" where
  "atree_fetchLoop st maxObjects =
     (if snd (snd st) < maxObjects then
        bind_res (atree_fetchFirst st) (\<lambda>st.
        bind_res (atree_fetchMove st) (\<lambda>(it, objects, gathered).
        if ai_node it = Nil then Inr (it, objects, gathered)
        else
          bind_res (write_cell objects gathered (data_of (ai_node it))) (\<lambda>objects.
          atree_fetchLoop (it, objects, gathered + 1) maxObjects)))
      else Inr st)"
  by pat_completeness auto
termination
  by (relation "measure (\<lambda>(st, maxObjects). maxObjects - snd (snd st))")
    (auto dest!: atree_fetchFirst_gathered atree_fetchMove_gathered)

declare atree_fetchLoop.simps [simp del]

definition atree_iteratorNextObject :: "atree_iterator_t iterator_fetch" where
  "atree_iteratorNextObject aiterator custom objects maxObjects =
     bind_res (atree_fetchLoop (aiterator, objects, 0) (unat maxObjects)) (\<lambda>(aiterator, objects, gathered).
     Inr (aiterator, custom, objects, of_nat gathered))"

text \<open>
  \<open>ok\<close> is the allocation of the iterator's data, \<open>objs\<close> that of the iterator. Setting the destroy
  callback of an iterator that could not be allocated writes through \<open>NULL\<close>.
\<close>

definition atree_iteratorFrom ::
  "bool \<Rightarrow> ptr list option \<Rightarrow> atree_t \<Rightarrow> bool \<Rightarrow> bool \<Rightarrow> atree_iterator_t iterator_t option result" where
  "atree_iteratorFrom ok objs tree direction first =
     (if ok then
        bind_res (atree_descend (\<not> direction) (at_root tree) []) (\<lambda>(node, path).
        case iterator_create objs atree_iteratorNextObject
               \<lparr>ai_tree = tree, ai_node = node, ai_path = path, ai_direction = direction, ai_first = first\<rparr> of
          None \<Rightarrow> Inl OutOfBounds
        | Some it \<Rightarrow> Inr (Some it))
      else Inr None)"

definition atree_iterator :: "bool \<Rightarrow> ptr list option \<Rightarrow> atree_t \<Rightarrow> atree_iterator_t iterator_t option result" where
  "atree_iterator ok objs tree = atree_iteratorFrom ok objs tree True True"

text \<open>The backwards iterator does not set \<^verbatim>\<open>first\<close>: \<open>garbage\<close> is what the allocated block holds there.\<close>

definition atree_backwardsIterator ::
  "bool \<Rightarrow> bool \<Rightarrow> ptr list option \<Rightarrow> atree_t \<Rightarrow> atree_iterator_t iterator_t option result" where
  "atree_backwardsIterator garbage ok objs tree = atree_iteratorFrom ok objs tree False garbage"

section \<open>What is still to come\<close>

definition dlist :: "bool \<Rightarrow> atree_node \<Rightarrow> ptr list" where
  "dlist dir t = map snd (if dir then inorder t else rev (inorder t))"

definition dafter :: "bool \<Rightarrow> step list \<Rightarrow> ptr list" where
  "dafter dir path = map snd (if dir then after path else rev (before path))"

lemma dlist_simps [simp]:
  "dlist dir Nil = []"
  "dlist True (Node l a k d b) = dlist True a @ d # dlist True b"
  "dlist False (Node l a k d b) = dlist False b @ d # dlist False a"
  by (simp_all add: dlist_def)

lemma dafter_simps [simp]:
  "dafter dir [] = []"
  "dafter True (Into0 l k d b # path) = d # dlist True b @ dafter True path"
  "dafter True (Into1 l a k d # path) = dafter True path"
  "dafter False (Into1 l a k d # path) = d # dlist False a @ dafter False path"
  "dafter False (Into0 l k d b # path) = dafter False path"
  by (simp_all add: dlist_def dafter_def)

lemma close_path_height: "close_path path t = root \<Longrightarrow> length path + height t \<le> height root"
proof (induction path arbitrary: t)
  case (Cons s path)
  then have "length path + height (plug s t) \<le> height root" by simp
  then show ?case by (cases s) auto
qed simp

lemma atree_ascend_spec:
  "case atree_ascend dir node path of
     Inl n \<Rightarrow> n = close_path path node \<and> dafter dir path = []
   | Inr (n, p) \<Rightarrow> n \<noteq> Nil \<and> close_path p n = close_path path node \<and>
       dafter dir path = data_of n # dlist dir (link dir n) @ dafter dir p"
proof (induction path arbitrary: node)
  case (Cons s path)
  show ?case
    using Cons[of "plug s node"] by (cases s; cases dir) (auto split: sum.splits)
qed simp

lemma atree_descend_spec:
  assumes "height root \<le> kAtreeMaxHeight"
  shows "t \<noteq> Nil \<Longrightarrow> close_path path t = root \<Longrightarrow>
    \<exists>n p. atree_descend (\<not> dir) t path = Inr (n, p) \<and> n \<noteq> Nil \<and> close_path p n = root \<and>
      dlist dir t @ dafter dir path = data_of n # dlist dir (link dir n) @ dafter dir p"
proof (induction t arbitrary: path)
  case (Node l a k d b)
  have h: "length path < kAtreeMaxHeight" using close_path_height[OF Node.prems(2)] assms by simp
  show ?case
  proof (cases "link (\<not> dir) (Node l a k d b) = Nil")
    case True
    then show ?thesis using Node.prems by (cases dir) auto
  next
    case False
    then show ?thesis
      using h Node.IH(1)[of "Into0 l k d b # path"] Node.IH(2)[of "Into1 l a k d # path"] Node.prems(2)
      by (cases dir) (simp_all add: push_path_def)
  qed
qed simp

text \<open>
  The objects an iterator still delivers: the current one if none was delivered yet, those that
  follow it, and at the end once more the object of the root.
\<close>

definition ai_rest :: "atree_iterator_t \<Rightarrow> ptr list" where
  "ai_rest it = (if ai_first it then [data_of (ai_node it)] else []) @
     dlist (ai_direction it) (link (ai_direction it) (ai_node it)) @ dafter (ai_direction it) (ai_path it) @
     [data_of (at_root (ai_tree it))]"

definition ai_left :: "atree_iterator_t \<Rightarrow> u32 list \<Rightarrow> ptr list \<Rightarrow> bool" where
  "ai_left it custom ys \<longleftrightarrow>
     at_root (ai_tree it) \<noteq> Nil \<and> height (at_root (ai_tree it)) \<le> kAtreeMaxHeight \<and>
     (if ai_node it = Nil then ai_path it = [] \<and> ys = []
      else close_path (ai_path it) (ai_node it) = at_root (ai_tree it) \<and> ys = ai_rest it)"

lemma atree_fetchMove_spec:
  assumes l: "ai_left it custom ys" and f: "\<not> ai_first it" and n: "ai_node it \<noteq> Nil" and g: "g < length objects"
  shows "(\<exists>it'. ys = [data_of (at_root (ai_tree it))] \<and> ai_node it' = Nil \<and> ai_left it' custom [] \<and>
            atree_fetchMove (it, objects, g) = Inr (it', objects[g := hd ys], g + 1)) \<or>
         (\<exists>it'. ys \<noteq> [] \<and> ai_node it' \<noteq> Nil \<and> data_of (ai_node it') = hd ys \<and> \<not> ai_first it' \<and>
            ai_left it' custom (tl ys) \<and> atree_fetchMove (it, objects, g) = Inr (it', objects, g))"
proof -
  let ?dir = "ai_direction it" and ?node = "ai_node it" and ?path = "ai_path it" and ?root = "at_root (ai_tree it)"
  have cl: "close_path ?path ?node = ?root" and h: "height ?root \<le> kAtreeMaxHeight" and r: "?root \<noteq> Nil"
    and ys: "ys = dlist ?dir (link ?dir ?node) @ dafter ?dir ?path @ [data_of ?root]"
    using l n f by (auto simp: ai_left_def ai_rest_def)
  show ?thesis
  proof (cases "link ?dir ?node = Nil")
    case False
    have len: "length ?path < kAtreeMaxHeight" using close_path_height[OF cl] h n by (cases ?node) auto
    have cl': "close_path (step_into ?dir ?node # ?path) (link ?dir ?node) = ?root"
      using cl n by (cases ?node) auto
    have da: "dafter ?dir (step_into ?dir ?node # ?path) = dafter ?dir ?path"
      using n by (cases ?node; cases ?dir) auto
    obtain node path where d: "atree_descend (\<not> ?dir) (link ?dir ?node) (step_into ?dir ?node # ?path) = Inr (node, path)"
      "node \<noteq> Nil" "close_path path node = ?root"
      "dlist ?dir (link ?dir ?node) @ dafter ?dir ?path = data_of node # dlist ?dir (link ?dir node) @ dafter ?dir path"
      using atree_descend_spec[OF h False cl', where dir = ?dir] da by auto
    have ys': "ys = data_of node # dlist ?dir (link ?dir node) @ dafter ?dir path @ [data_of ?root]"
      using d(4) by (simp add: ys flip: append_assoc)
    let ?it = "it\<lparr>ai_node := node, ai_path := path\<rparr>"
    have "atree_fetchMove (it, objects, g) = Inr (?it, objects, g)"
      using False len d(1) by (simp add: atree_fetchMove_def push_path_def)
    moreover have "ai_left ?it custom (tl ys)" using h r d(2,3) f by (simp add: ai_left_def ai_rest_def ys')
    ultimately show ?thesis using d(2) f ys' by (intro disjI2 exI[of _ ?it]) simp
  next
    case True
    show ?thesis
    proof (cases "atree_ascend ?dir ?node ?path")
      case (Inl node)
      then have "node = ?root" "dafter ?dir ?path = []"
        using atree_ascend_spec[where dir = ?dir and node = ?node and path = ?path] cl by auto
      then show ?thesis using Inl True ys g h r
        by (intro disjI1 exI[of _ "it\<lparr>ai_node := Nil, ai_path := []\<rparr>"]) (simp add: atree_fetchMove_def ai_left_def)
    next
      case (Inr r')
      obtain node path where r': "r' = (node, path)" by fastforce
      have a: "node \<noteq> Nil" "close_path path node = ?root"
        "dafter ?dir ?path = data_of node # dlist ?dir (link ?dir node) @ dafter ?dir path"
        using atree_ascend_spec[where dir = ?dir and node = ?node and path = ?path] cl by (auto simp: Inr r')
      then show ?thesis using Inr r' True ys h r f
        by (intro disjI2 exI[of _ "it\<lparr>ai_node := node, ai_path := path\<rparr>"])
          (simp add: atree_fetchMove_def ai_left_def ai_rest_def)
    qed
  qed
qed

lemma atree_fetchLoop_done:
  "ai_left it custom [] \<Longrightarrow> atree_fetchLoop (it, objects, g) m = Inr (it, objects, g)"
  by (subst atree_fetchLoop.simps)
    (auto simp: ai_left_def ai_rest_def atree_fetchFirst_def atree_fetchMove_def split: if_splits)

lemma atree_fetchLoop_spec:
  "ai_left it custom ys \<Longrightarrow> \<not> ai_first it \<Longrightarrow> length objects = 10 \<Longrightarrow> g \<le> 10 \<Longrightarrow>
   \<exists>it' objects' n. atree_fetchLoop (it, objects, g) 10 = Inr (it', objects', n) \<and> length objects' = 10 \<and>
     n = min 10 (g + length ys) \<and> take n objects' = take g objects @ take (10 - g) ys \<and>
     ai_left it' custom (drop (10 - g) ys)"
proof (induction "10 - g" arbitrary: g it objects ys)
  case 0
  then show ?case by (subst atree_fetchLoop.simps) simp
next
  case (Suc m)
  have g: "g < 10" "g < length objects" using Suc.hyps(2) Suc.prems(3) by auto
  have e: "10 - g = Suc (10 - Suc g)" using g by simp
  have f: "atree_fetchFirst (it, objects, g) = Inr (it, objects, g)" using Suc.prems(2) by (simp add: atree_fetchFirst_def)
  show ?case
  proof (cases "ai_node it = Nil")
    case True
    then have "ys = []" using Suc.prems(1) by (simp add: ai_left_def)
    then show ?thesis using Suc.prems atree_fetchLoop_done g by simp
  next
    case False
    from atree_fetchMove_spec[OF Suc.prems(1,2) False g(2)] show ?thesis
    proof (elim disjE exE conjE)
      fix it' assume ys: "ys = [data_of (at_root (ai_tree it))]" and it': "ai_node it' = Nil" "ai_left it' custom []"
        and mv: "atree_fetchMove (it, objects, g) = Inr (it', objects[g := hd ys], g + 1)"
      have "atree_fetchLoop (it, objects, g) 10 = Inr (it', objects[g := hd ys], g + 1)"
        using f mv it' g by (subst atree_fetchLoop.simps) simp
      then show ?thesis using ys it' g Suc.prems(3) by (simp add: e take_Suc_conv_app_nth)
    next
      fix it' assume it': "ys \<noteq> []" "ai_node it' \<noteq> Nil" "data_of (ai_node it') = hd ys" "\<not> ai_first it'"
        "ai_left it' custom (tl ys)" and mv: "atree_fetchMove (it, objects, g) = Inr (it', objects, g)"
      let ?objs = "objects[g := hd ys]"
      have step: "atree_fetchLoop (it, objects, g) 10 = atree_fetchLoop (it', ?objs, Suc g) 10"
        using f mv it' g by (subst atree_fetchLoop.simps) simp
      obtain it'' objects' n where *: "atree_fetchLoop (it', ?objs, Suc g) 10 = Inr (it'', objects', n)" "length objects' = 10"
        "n = min 10 (Suc g + length (tl ys))" "take n objects' = take (Suc g) ?objs @ take (10 - Suc g) (tl ys)"
        "ai_left it'' custom (drop (10 - Suc g) (tl ys))"
      proof -
        have "m = 10 - Suc g" "length ?objs = 10" "Suc g \<le> 10" using Suc.hyps(2) Suc.prems(3) g by auto
        from Suc.hyps(1)[OF this(1) it'(5,4) this(2,3)] show ?thesis using that by blast
      qed
      obtain y ys' where ys: "ys = y # ys'" using it'(1) by (cases ys) auto
      show ?thesis unfolding step using * g Suc.prems(3) by (simp add: ys e take_Suc_conv_app_nth)
    qed
  qed
qed

lemma atree_fetchLoop_first:
  assumes "ai_first it" "ai_node it \<noteq> Nil" "length objects = 10"
  shows "atree_fetchLoop (it, objects, 0) 10 =
    atree_fetchLoop (it\<lparr>ai_first := False\<rparr>, objects[0 := data_of (ai_node it)], 1) 10"
  using assms
  by (subst (1 2) atree_fetchLoop.simps) (simp add: atree_fetchFirst_def)

lemma atree_fetch_spec:
  assumes l: "ai_left it custom ys" and o: "length objects = 10"
  shows "\<exists>it' objects' n. atree_fetchLoop (it, objects, 0) 10 = Inr (it', objects', n) \<and> length objects' = 10 \<and>
     n = min 10 (length ys) \<and> take n objects' = take 10 ys \<and> ai_left it' custom (drop 10 ys)"
proof (cases "ai_first it \<and> ai_node it \<noteq> Nil")
  case False
  show ?thesis
  proof (cases "ai_node it = Nil")
    case True
    then have "ys = []" using l by (simp add: ai_left_def)
    then show ?thesis using atree_fetchLoop_done l o by simp
  next
    case nn: False
    then show ?thesis using atree_fetchLoop_spec[OF l _ o, of 0] False by simp
  qed
next
  case True
  let ?it = "it\<lparr>ai_first := False\<rparr>" and ?objs = "objects[0 := data_of (ai_node it)]"
  have ys: "ys = data_of (ai_node it) # tl ys" and l': "ai_left ?it custom (tl ys)"
    using l True by (auto simp: ai_left_def ai_rest_def)
  obtain x xs where o': "objects = x # xs" using o by (cases objects) auto
  obtain y zs where yz: "ys = y # zs" using ys by (cases ys) auto
  show ?thesis
    using atree_fetchLoop_spec[OF l', of ?objs 1] atree_fetchLoop_first[of it objects] True o ys
    by (auto simp: o' yz)
qed

interpretation atree_it: fetcher atree_iteratorNextObject ai_left
proof unfold_locales
  fix it c ys objs assume "ai_left it c ys" "length (objs :: ptr list) = 10"
  from atree_fetch_spec[OF this]
  show "\<exists>d' c' objs' n. atree_iteratorNextObject it c objs kIteratorMaxObjects = Inr (d', c', objs', n) \<and>
      length objs' = 10 \<and> unat n = min 10 (length ys) \<and> take (unat n) objs' = take (unat n) ys \<and>
      ai_left d' c' (drop (unat n) ys)"
    by (fastforce simp: atree_iteratorNextObject_def kIteratorMaxObjects_def unat_of_nat min_def)
qed

section \<open>Properties\<close>

lemma atree_iteratorFrom_spec:
  assumes "aa (at_root tree)" "length (inorder (at_root tree)) + 1 < 2 ^ 32" "at_root tree \<noteq> Nil" "length objs = 10"
  shows "\<exists>it it'. atree_iteratorFrom True (Some objs) tree dir first = Inr (Some it) \<and>
    (let ys = (if first then dlist dir (at_root tree) else tl (dlist dir (at_root tree))) @ [data_of (at_root tree)]
     in iterator_take n it = Inr (take n ys @ replicate (n - length ys) NULL, it'))"
proof -
  let ?root = "at_root tree"
  have h: "height ?root \<le> kAtreeMaxHeight" using height_root_fits[OF assms(1,2)] by simp
  obtain node path where d: "atree_descend (\<not> dir) ?root [] = Inr (node, path)" "node \<noteq> Nil"
    "close_path path node = ?root" "dlist dir ?root = data_of node # dlist dir (link dir node) @ dafter dir path"
    using atree_descend_spec[OF h assms(3), of "[]" dir] by auto
  let ?ai = "\<lparr>ai_tree = tree, ai_node = node, ai_path = path, ai_direction = dir, ai_first = first\<rparr>"
  let ?ys = "(if first then dlist dir ?root else tl (dlist dir ?root)) @ [data_of ?root]"
  obtain it where it: "iterator_create (Some objs) atree_iteratorNextObject ?ai = Some it"
    by (simp add: iterator_create_def)
  have "ai_left ?ai (replicate 5 0) ?ys" using h assms(3) d by (simp add: ai_left_def ai_rest_def)
  then have "atree_it.pending it ?ys" using atree_it.pending_create[OF _ assms(4) it] by blast
  then obtain it' where "iterator_take n it = Inr (take n ?ys @ replicate (n - length ?ys) NULL, it')"
    using atree_it.take_pending by blast
  then show ?thesis using d(1) it by (auto simp: atree_iteratorFrom_def Let_def)
qed

text \<open>
  C25. An iterator over a balanced tree that is not empty delivers the objects in key order, and then the
  object of the root a second time, before the closing \<open>NULL\<close>.
\<close>

theorem atree_iterator_repeats_root:
  assumes "aa (at_root tree)" "length (inorder (at_root tree)) + 1 < 2 ^ 32" "at_root tree \<noteq> Nil" "length objs = 10"
  shows "\<exists>it it'. atree_iterator True (Some objs) tree = Inr (Some it) \<and>
    (let ys = map snd (inorder (at_root tree)) @ [data_of (at_root tree)]
     in iterator_take n it = Inr (take n ys @ replicate (n - length ys) NULL, it'))"
  using atree_iteratorFrom_spec[OF assms, where n = n and dir = True and first = True]
  by (simp add: atree_iterator_def dlist_def)

theorem atree_iterator_repeats_root_witness:
  "\<exists>it it'. atree_iterator True (Some (replicate 10 0)) example_tree = Inr (Some it) \<and>
     iterator_take 5 it = Inr ([11, 22, 33, 22, NULL], it')"
  using atree_iterator_repeats_root[of example_tree "replicate 10 0" 5]
  by (auto simp: example_tree_def)

text \<open>
  What the backwards iterator delivers depends on memory it never initialised: the objects in
  reverse order if the byte that happens to stand for \<^verbatim>\<open>first\<close> is set, and otherwise all but the
  first of them; in both cases followed by the root's object once more.
\<close>

theorem atree_backwardsIterator_uninitialised:
  assumes "aa (at_root tree)" "length (inorder (at_root tree)) + 1 < 2 ^ 32" "at_root tree \<noteq> Nil" "length objs = 10"
  shows "\<exists>it it'. atree_backwardsIterator garbage True (Some objs) tree = Inr (Some it) \<and>
    (let xs = map snd (rev (inorder (at_root tree)));
         ys = (if garbage then xs else tl xs) @ [data_of (at_root tree)]
     in iterator_take n it = Inr (take n ys @ replicate (n - length ys) NULL, it'))"
  using atree_iteratorFrom_spec[OF assms, where n = n and dir = False and first = garbage]
  by (cases garbage) (simp_all add: atree_backwardsIterator_def dlist_def Let_def)

theorem atree_backwardsIterator_uninitialised_witness:
  "\<exists>it it'. atree_backwardsIterator False True (Some (replicate 10 0)) example_tree = Inr (Some it) \<and>
     iterator_take 4 it = Inr ([22, 11, 22, NULL], it')"
  using atree_backwardsIterator_uninitialised[of example_tree "replicate 10 0" False 4]
  by (auto simp: example_tree_def)

end
