(* ===== verification/CString.thy ===== *)
theory CString
  imports Prelude
begin

text \<open>
  \<^verbatim>\<open>src/sys/libc/string.c\<close>. A pointer that is only read is the list of bytes from its target to the end
  of the object it points into; reading on past that list is an access out of bounds. A
  destination is the list of the cells of its object from the pointer on. Source and destination
  are different objects. \<^verbatim>\<open>char\<close> is a signed byte on the target.
\<close>

section \<open>Model\<close>

text \<open>The loops that count \<^verbatim>\<open>size\<close> down to 0 run \<^verbatim>\<open>size\<close> times.\<close>

primrec memset_loop :: "u8 list \<Rightarrow> nat \<Rightarrow> u8 \<Rightarrow> nat \<Rightarrow> u8 list result" where
  "memset_loop dst d c 0 = Inr dst"
| "memset_loop dst d c (Suc n) = bind_res (write_cell dst d c) (\<lambda>dst. memset_loop dst (d + 1) c n)"

definition memset :: "u8 list \<Rightarrow> u32 \<Rightarrow> u32 \<Rightarrow> u8 list result" where
  "memset dst c sz = memset_loop dst 0 (ucast c) (unat sz)"

primrec memcpy_loop :: "u8 list \<Rightarrow> u8 list \<Rightarrow> nat \<Rightarrow> nat \<Rightarrow> u8 list result" where
  "memcpy_loop dst src d 0 = Inr dst"
| "memcpy_loop dst src d (Suc n) =
     bind_res (read_cell src d) (\<lambda>c.
     bind_res (write_cell dst d c) (\<lambda>dst. memcpy_loop dst src (d + 1) n))"

definition memcpy :: "u8 list \<Rightarrow> u8 list \<Rightarrow> u32 \<Rightarrow> u8 list result" where
  "memcpy dst src sz = memcpy_loop dst src 0 (unat sz)"

fun strcpy_loop :: "u8 list \<Rightarrow> nat \<Rightarrow> u8 list \<Rightarrow> u8 list result" where
  "strcpy_loop dst d [] = Inl OutOfBounds"
| "strcpy_loop dst d (c # src) =
     bind_res (write_cell dst d c) (\<lambda>dst. if c = 0 then Inr dst else strcpy_loop dst (d + 1) src)"

definition strcpy :: "u8 list \<Rightarrow> u8 list \<Rightarrow> u8 list result" where
  "strcpy dst src = strcpy_loop dst 0 src"

fun strlen_loop :: "u8 list \<Rightarrow> nat \<Rightarrow> nat result" where
  "strlen_loop [] n = Inl OutOfBounds"
| "strlen_loop (c # s) n = (if c \<noteq> 0 then strlen_loop s (n + 1) else Inr n)"

definition strlen :: "u8 list \<Rightarrow> nat result" where
  "strlen string = strlen_loop string 0"

text \<open>
  The copy loop of \<^verbatim>\<open>strlcpy\<close>; it returns the destination, the position reached in both strings, the
  rest of the source and the value of \<open>n\<close>. The last loop walks to the byte after the terminator.
\<close>

fun strlcpy_copy :: "u8 list \<Rightarrow> nat \<Rightarrow> u8 list \<Rightarrow> nat \<Rightarrow> (u8 list \<times> nat \<times> u8 list \<times> nat) result" where
  "strlcpy_copy dst d src 0 = Inr (dst, d, src, 0)"
| "strlcpy_copy dst d [] (Suc n) = Inl OutOfBounds"
| "strlcpy_copy dst d (c # src) (Suc n) =
     bind_res (write_cell dst d c) (\<lambda>dst.
     if c = 0 then Inr (dst, d + 1, src, Suc n) else strlcpy_copy dst (d + 1) src n)"

fun strlcpy_skip :: "u8 list \<Rightarrow> nat \<Rightarrow> nat result" where
  "strlcpy_skip [] s = Inl OutOfBounds"
| "strlcpy_skip (c # src) s = (if c \<noteq> 0 then strlcpy_skip src (s + 1) else Inr (s + 1))"

definition strlcpy :: "u8 list \<Rightarrow> u8 list \<Rightarrow> nat \<Rightarrow> (u8 list \<times> nat) result" where
  "strlcpy dst src sz =
     bind_res (strlcpy_copy dst 0 src sz) (\<lambda>(dst, d, rest, n).
     if n = 0 then
       bind_res (if sz \<noteq> 0 then write_cell dst d 0 else Inr dst) (\<lambda>dst.
       bind_res (strlcpy_skip rest d) (\<lambda>s. Inr (dst, s - 1)))
     else Inr (dst, d - 1))"

text \<open>A null pointer is \<open>None\<close>. The difference of two \<^verbatim>\<open>char\<close>s is an \<^verbatim>\<open>int\<close>.\<close>

fun strcmp_loop :: "u8 list \<Rightarrow> u8 list \<Rightarrow> int result" where
  "strcmp_loop [] s2 = Inl OutOfBounds"
| "strcmp_loop (c # s1) [] = Inl OutOfBounds"
| "strcmp_loop (c # s1) (e # s2) =
     (if c = e then (if c = 0 then Inr 0 else strcmp_loop s1 s2) else Inr (sint e - sint c))"

definition strcmp :: "u8 list option \<Rightarrow> u8 list option \<Rightarrow> int result" where
  "strcmp str1 str2 =
     (case str1 of None \<Rightarrow> Inr (- 1)
      | Some s1 \<Rightarrow> (case str2 of None \<Rightarrow> Inr 1 | Some s2 \<Rightarrow> strcmp_loop s1 s2))"

fun strncmp_loop :: "u8 list \<Rightarrow> u8 list \<Rightarrow> nat \<Rightarrow> int result" where
  "strncmp_loop s1 s2 0 = Inr 0"
| "strncmp_loop [] s2 (Suc n) = Inl OutOfBounds"
| "strncmp_loop (c # s1) [] (Suc n) = Inl OutOfBounds"
| "strncmp_loop (c # s1) (e # s2) (Suc n) =
     (if c = e then (if c = 0 then Inr 0 else strncmp_loop s1 s2 n) else Inr (sint e - sint c))"

definition strncmp :: "u8 list option \<Rightarrow> u8 list option \<Rightarrow> u32 \<Rightarrow> int result" where
  "strncmp str1 str2 sz =
     (case str1 of None \<Rightarrow> Inr (- 1)
      | Some s1 \<Rightarrow> (case str2 of None \<Rightarrow> Inr 1 | Some s2 \<Rightarrow> strncmp_loop s1 s2 (unat sz)))"

text \<open>The search functions return the offset of the pointer they return, \<open>None\<close> for \<^verbatim>\<open>NULL\<close>.\<close>

fun strstr_loop :: "u8 list \<Rightarrow> nat \<Rightarrow> u8 list \<Rightarrow> nat \<Rightarrow> nat \<Rightarrow> nat option \<Rightarrow> nat option result" where
  "strstr_loop [] pos str2 len index start = Inl OutOfBounds"
| "strstr_loop (c # str1) pos str2 len index start =
     (if c = 0 then Inr None
      else
        bind_res (read_cell str2 index) (\<lambda>e.
        if c = e then
          (let start = (if index = 0 then Some pos else start) in
           if index + 1 = len then Inr start
           else strstr_loop str1 (pos + 1) str2 len (index + 1) start)
        else strstr_loop str1 (pos + 1) str2 len 0 start))"

definition strstr :: "u8 list \<Rightarrow> u8 list \<Rightarrow> nat option result" where
  "strstr str1 str2 = bind_res (strlen str2) (\<lambda>len. strstr_loop str1 0 str2 len 0 None)"

fun strpbrk_match :: "u8 \<Rightarrow> u8 list \<Rightarrow> nat \<Rightarrow> bool result" where
  "strpbrk_match c str2 0 = Inr False"
| "strpbrk_match c [] (Suc len) = Inl OutOfBounds"
| "strpbrk_match c (e # str2) (Suc len) = (if c = e then Inr True else strpbrk_match c str2 len)"

fun strpbrk_loop :: "u8 list \<Rightarrow> nat \<Rightarrow> u8 list \<Rightarrow> nat \<Rightarrow> nat option result" where
  "strpbrk_loop [] pos str2 len = Inl OutOfBounds"
| "strpbrk_loop (c # str1) pos str2 len =
     (if c = 0 then Inr None
      else
        bind_res (strpbrk_match c str2 len) (\<lambda>hit.
        if hit then Inr (Some pos) else strpbrk_loop str1 (pos + 1) str2 len))"

definition strpbrk :: "u8 list \<Rightarrow> u8 list \<Rightarrow> nat option result" where
  "strpbrk str1 str2 = bind_res (strlen str2) (\<lambda>len. strpbrk_loop str1 0 str2 len)"

text \<open>The hash and the comparison that \<^verbatim>\<open>src/sys/container/hashset.c\<close> offers for keys that are strings.\<close>

fun hash_cstring_loop :: "u8 list \<Rightarrow> nat \<Rightarrow> u32 \<Rightarrow> u32 result" where
  "hash_cstring_loop string 0 result = Inr result"
| "hash_cstring_loop [] (Suc n) result = Inl OutOfBounds"
| "hash_cstring_loop (c # string) (Suc n) result =
     (let result = result + ucast c;
          result = result + push_bit 10 result;
          result = result + drop_bit 6 result
      in hash_cstring_loop string n result)"

definition hash_cstring :: "u8 list \<Rightarrow> u32 result" where
  "hash_cstring key =
     bind_res (strlen key) (\<lambda>len.
     bind_res (hash_cstring_loop key len 0) (\<lambda>result.
     let result = result + push_bit 3 result;
         result = result + drop_bit 11 result;
         result = result + push_bit 15 result
     in Inr result))"

definition hash_cstringCompare :: "u8 list option \<Rightarrow> u8 list option \<Rightarrow> bool result" where
  "hash_cstringCompare key1 key2 = bind_res (strcmp key1 key2) (\<lambda>r. Inr (r = 0))"

section \<open>Strings\<close>

text \<open>The bytes of a terminated string, followed by whatever its object holds after it.\<close>

definition cstr :: "u8 list \<Rightarrow> u8 list \<Rightarrow> u8 list" where
  "cstr s rest = s @ 0 # rest"

lemma cstr_simps [simp]:
  "cstr [] rest = 0 # rest" "cstr (c # s) rest = c # cstr s rest"
  by (simp_all add: cstr_def)

lemma strlen_loop_cstr: "0 \<notin> set s \<Longrightarrow> strlen_loop (cstr s rest) n = Inr (n + length s)"
  by (induction s arbitrary: n) auto

lemma strlen_cstr [simp]: "0 \<notin> set s \<Longrightarrow> strlen (cstr s rest) = Inr (length s)"
  by (simp add: strlen_def strlen_loop_cstr)

text \<open>\<open>overlay dst d xs\<close>: the cells from \<open>d\<close> on replaced by \<open>xs\<close>.\<close>

definition overlay :: "'a list \<Rightarrow> nat \<Rightarrow> 'a list \<Rightarrow> 'a list" where
  "overlay dst d xs = take d dst @ xs @ drop (d + length xs) dst"

lemma overlay_Nil [simp]: "overlay dst d [] = dst"
  by (simp add: overlay_def)

lemma overlay_Cons:
  "d < length dst \<Longrightarrow> overlay (dst[d := x]) (Suc d) xs = overlay dst d (x # xs)"
  by (simp add: overlay_def take_Suc_conv_app_nth)

lemma length_overlay [simp]: "d + length xs \<le> length dst \<Longrightarrow> length (overlay dst d xs) = length dst"
  by (simp add: overlay_def)

lemma memset_loop_spec:
  "d \<le> length dst \<Longrightarrow>
   memset_loop dst d c n = (if d + n \<le> length dst then Inr (overlay dst d (replicate n c)) else Inl OutOfBounds)"
proof (induction n arbitrary: dst d)
  case (Suc n)
  show ?case
  proof (cases "d < length dst")
    case True
    then show ?thesis using Suc.IH[of "Suc d" "dst[d := c]"] by (simp add: overlay_Cons)
  qed (use Suc.prems in \<open>simp add: write_cell_def\<close>)
qed simp

lemma memcpy_loop_spec:
  "d \<le> length dst \<Longrightarrow> d \<le> length src \<Longrightarrow>
   memcpy_loop dst src d n =
     (if d + n \<le> length dst \<and> d + n \<le> length src then Inr (overlay dst d (take n (drop d src))) else Inl OutOfBounds)"
proof (induction n arbitrary: dst d)
  case (Suc n)
  show ?case
  proof (cases "d < length dst \<and> d < length src")
    case True
    then have "drop d src = src ! d # drop (Suc d) src" by (simp add: Cons_nth_drop_Suc)
    then show ?thesis using True Suc.IH[of "Suc d" "dst[d := src ! d]"] by (simp add: overlay_Cons)
  qed (use Suc.prems in \<open>auto simp: write_cell_def read_cell_def\<close>)
qed simp

lemma strcpy_loop_spec:
  "0 \<notin> set s \<Longrightarrow> d \<le> length dst \<Longrightarrow>
   strcpy_loop dst d (cstr s rest) =
     (if d + length s < length dst then Inr (overlay dst d (s @ [0])) else Inl OutOfBounds)"
proof (induction s arbitrary: dst d)
  case Nil
  then show ?case by (auto simp: overlay_Cons[symmetric] write_cell_def)
next
  case (Cons c s)
  show ?case
  proof (cases "d < length dst")
    case True
    then show ?thesis using Cons.prems Cons.IH[of "Suc d" "dst[d := c]"] by (simp add: overlay_Cons)
  qed (use Cons.prems in \<open>simp add: write_cell_def\<close>)
qed

lemma strlcpy_copy_long:
  "n \<le> length s \<Longrightarrow> 0 \<notin> set s \<Longrightarrow> d + n \<le> length dst \<Longrightarrow>
   strlcpy_copy dst d (cstr s rest) n = Inr (overlay dst d (take n s), d + n, cstr (drop n s) rest, 0)"
proof (induction n arbitrary: dst d s)
  case (Suc n)
  then obtain c s' where s: "s = c # s'" by (cases s) auto
  show ?case using Suc.prems Suc.IH[of s' "Suc d" "dst[d := c]"] by (simp add: s overlay_Cons)
qed simp

lemma strlcpy_copy_short:
  "length s < n \<Longrightarrow> 0 \<notin> set s \<Longrightarrow> d + length s < length dst \<Longrightarrow>
   strlcpy_copy dst d (cstr s rest) n = Inr (overlay dst d (s @ [0]), Suc (d + length s), rest, n - length s)"
proof (induction s arbitrary: dst d n)
  case Nil
  then obtain m where "n = Suc m" by (cases n) auto
  then show ?case using Nil by (simp add: overlay_Cons[symmetric])
next
  case (Cons c s)
  then obtain m where n: "n = Suc m" by (cases n) auto
  show ?case using Cons.prems Cons.IH[of m "Suc d" "dst[d := c]"] by (simp add: n overlay_Cons)
qed

lemma strlcpy_skip_cstr: "0 \<notin> set s \<Longrightarrow> strlcpy_skip (cstr s rest) n = Inr (Suc (n + length s))"
  by (induction s arbitrary: n) auto

lemma strlcpy_short:
  "0 \<notin> set s \<Longrightarrow> length s < n \<Longrightarrow> length s < length dst \<Longrightarrow>
   strlcpy dst (cstr s rest) n = Inr (overlay dst 0 (s @ [0]), length s)"
  by (simp add: strlcpy_def strlcpy_copy_short)

lemma overlay_snoc:
  "d + length xs < length dst \<Longrightarrow> (overlay dst d xs)[d + length xs := x] = overlay dst d (xs @ [x])"
  by (simp add: overlay_def list_update_append drop_Suc nth_append Cons_nth_drop_Suc[symmetric] flip: drop_Suc)

lemma strlcpy_long:
  assumes "0 \<notin> set s" "0 < n" "n \<le> length s" "n < length dst"
  shows "strlcpy dst (cstr s rest) n = Inr (overlay dst 0 (take n s @ [0]), length s)"
proof -
  have "0 \<notin> set (drop n s)" using assms(1) by (auto dest: in_set_dropD)
  then show ?thesis
    using assms overlay_snoc[of 0 "take n s" dst 0]
    by (simp add: strlcpy_def strlcpy_copy_long strlcpy_skip_cstr)
qed

lemma strcmp_loop_same: "0 \<notin> set s \<Longrightarrow> strcmp_loop (cstr s r) (cstr s r') = Inr 0"
  by (induction s) auto

lemma strcmp_loop_differ:
  "0 \<notin> set p \<Longrightarrow> c \<noteq> e \<Longrightarrow> strcmp_loop (p @ c # s) (p @ e # t) = Inr (sint e - sint c)"
  by (induction p) auto

text \<open>Two different terminated strings have a first difference, possibly at a terminator.\<close>

lemma first_difference:
  "s \<noteq> t \<Longrightarrow> 0 \<notin> set s \<Longrightarrow> 0 \<notin> set t \<Longrightarrow>
   \<exists>p c e s' t'. s @ [0] = p @ c # s' \<and> t @ [0] = p @ e # t' \<and> c \<noteq> e \<and> 0 \<notin> set p"
proof (induction s arbitrary: t)
  case Nil
  then obtain e t' where "t = e # t'" by (cases t) auto
  then show ?case using Nil by (auto intro!: exI[of _ "[]"])
next
  case (Cons c s)
  show ?case
  proof (cases t)
    case Nil
    then show ?thesis using Cons.prems by (auto intro!: exI[of _ "[]"])
  next
    case t: (Cons e t')
    show ?thesis
    proof (cases "c = e")
      case True
      then obtain p x y s2 t2 where "s @ [0] = p @ x # s2" "t' @ [0] = p @ y # t2" "x \<noteq> y" "0 \<notin> set p"
        using Cons.IH[of t'] Cons.prems t by auto
      then show ?thesis using True Cons.prems t by (intro exI[of _ "c # p"]) auto
    next
      case False
      then show ?thesis using t by (auto intro!: exI[of _ "[]"])
    qed
  qed
qed

lemma strcmp_loop_0:
  assumes "0 \<notin> set s" "0 \<notin> set t"
  shows "strcmp_loop (cstr s r) (cstr t r') = Inr 0 \<longleftrightarrow> s = t"
proof
  assume r: "strcmp_loop (cstr s r) (cstr t r') = Inr 0"
  show "s = t"
  proof (rule ccontr)
    assume "s \<noteq> t"
    then obtain p c e s' t' where d: "s @ [0] = p @ c # s'" "t @ [0] = p @ e # t'" "c \<noteq> e" "0 \<notin> set p"
      using first_difference assms by blast
    have "cstr s r = p @ c # s' @ r" "cstr t r' = p @ e # t' @ r'"
      using arg_cong[OF d(1), of "\<lambda>x. x @ r"] arg_cong[OF d(2), of "\<lambda>x. x @ r'"] by (simp_all add: cstr_def)
    then have "strcmp_loop (cstr s r) (cstr t r') = Inr (sint e - sint c)" using d strcmp_loop_differ by simp
    then have "sint e = sint c" using r by simp
    then show False using d(3) signed_word_eqI by metis
  qed
qed (use assms strcmp_loop_same in simp)

lemma strstr_loop_sound:
  "0 \<notin> set s \<Longrightarrow> 0 \<notin> set t \<Longrightarrow> index < length t \<Longrightarrow> index \<le> length h \<Longrightarrow>
   drop (length h - index) h = take index t \<Longrightarrow> (0 < index \<longrightarrow> start = Some (length h - index)) \<Longrightarrow>
   \<exists>r. strstr_loop (cstr s rest) (length h) (cstr t rest') (length t) index start = Inr r \<and>
     (\<forall>i. r = Some i \<longrightarrow> (\<exists>pre post. h @ s = pre @ t @ post \<and> length pre = i))"
proof (induction s arbitrary: h index start)
  case (Cons c s)
  have rd: "read_cell (cstr t rest') index = Inr (t ! index)"
    using Cons.prems(3) by (simp add: cstr_def nth_append)
  have c0: "c \<noteq> 0" "0 \<notin> set s" using Cons.prems(1) by auto
  show ?case
  proof (cases "c = t ! index")
    case False
    then show ?thesis
      using Cons.IH[of 0 "h @ [c]" start] Cons.prems(2,3) c0 rd
      by (cases t) simp_all
  next
    case True
    let ?start = "if index = 0 then Some (length h) else start"
    have st: "?start = Some (length h - index)" using Cons.prems(6) by auto
    have dr: "drop (length h - index) (h @ [c]) = take (Suc index) t"
      using Cons.prems(3-5) True by (simp add: take_Suc_conv_app_nth)
    show ?thesis
    proof (cases "Suc index = length t")
      case fin: True
      have "h @ c # s = take (length h - index) h @ t @ s"
        using dr fin Cons.prems(4) append_take_drop_id[of "length h - index" "h @ [c]"] by simp
      then show ?thesis
        using fin True c0 rd st Cons.prems(4)
        by (intro exI[of _ "Some (length h - index)"] conjI allI impI)
          (simp_all add: Let_def, intro exI[of _ "take (length h - index) h"] conjI exI[of _ s], simp_all)
    next
      case more: False
      then show ?thesis
        using Cons.IH[of "Suc index" "h @ [c]" ?start] Cons.prems(2,3,4) True c0 rd st dr by (auto simp: Let_def)
    qed
  qed
qed simp

lemma strstr_loop_empty: "0 \<notin> set s \<Longrightarrow> strstr_loop (cstr s rest) pos (0 # rest') len 0 start = Inr None"
  by (induction s arbitrary: pos) auto

lemma strpbrk_match_cstr: "strpbrk_match c (cstr t rest) (length t) = Inr (c \<in> set t)"
  by (induction t) auto

lemma strpbrk_loop_cstr:
  "0 \<notin> set s \<Longrightarrow> strpbrk_loop (cstr s rest) pos (cstr t rest') (length t) =
     Inr (if \<exists>c \<in> set s. c \<in> set t then Some (pos + length (takeWhile (\<lambda>c. c \<notin> set t) s)) else None)"
  by (induction s arbitrary: pos) (auto simp: strpbrk_match_cstr)

lemma strcmp_total:
  assumes "0 \<notin> set s" "0 \<notin> set t"
  shows "\<exists>i. strcmp_loop (cstr s r) (cstr t r') = Inr i"
  using assms
proof (induction s arbitrary: t)
  case Nil
  then show ?case by (cases t) auto
next
  case (Cons c s)
  then show ?case by (cases t) auto
qed

lemma hash_cstring_loop_cstr:
  "hash_cstring_loop (cstr s r) (length s) h = hash_cstring_loop (cstr s r') (length s) h"
  by (induction s arbitrary: h) (simp_all add: Let_def)

lemma hash_cstring_loop_total: "\<exists>h'. hash_cstring_loop (cstr s r) (length s) h = Inr h'"
  by (induction s arbitrary: h) (simp_all add: Let_def)

section \<open>Properties\<close>

text \<open>
  Copying. \<^verbatim>\<open>memcpy\<close> and \<^verbatim>\<open>memset\<close> change exactly the first \<open>size\<close> cells, or leave an object that is
  too small. \<^verbatim>\<open>strcpy\<close> and \<^verbatim>\<open>strlcpy\<close> with a size above the length of the string copy it with its
  terminator, and \<^verbatim>\<open>strlcpy\<close> returns the length of the source.
\<close>

theorem string_copies:
  assumes "0 \<notin> set s" "length s < length dst" "length s < sz"
  shows "memset dst c n = (if unat n \<le> length dst then Inr (overlay dst 0 (replicate (unat n) (ucast c))) else Inl OutOfBounds) \<and>
    memcpy dst src n = (if unat n \<le> length dst \<and> unat n \<le> length src then Inr (overlay dst 0 (take (unat n) src)) else Inl OutOfBounds) \<and>
    strcpy dst (cstr s rest) = Inr (overlay dst 0 (s @ [0])) \<and>
    strlcpy dst (cstr s rest) sz = Inr (overlay dst 0 (s @ [0]), length s)"
  using assms memset_loop_spec[of 0 dst] memcpy_loop_spec[of 0 dst src] strcpy_loop_spec[OF assms(1), of 0 dst]
    strlcpy_short[OF assms(1,3,2)]
  by (simp add: memset_def memcpy_def strcpy_def)

theorem string_copies_witness:
  "strlcpy [9, 9, 9, 9] (cstr [0x61, 0x62] []) 3 = Inr ([0x61, 0x62, 0, 9], 2)"
  using string_copies[of "[0x61, 0x62]" "[9, 9, 9, 9]" 3 0 0 "[]" "[]"] by (simp add: overlay_def)

text \<open>
  A string that does not fit is cut to \<open>size\<close> characters, and the terminator is written behind them:
  \<^verbatim>\<open>strlcpy\<close> needs \<open>size\<close> + 1 cells and leaves a destination of \<open>size\<close> cells.
\<close>

theorem strlcpy_overflows:
  assumes "0 \<notin> set s" "0 < sz" "sz \<le> length s"
  shows "(length dst = sz \<longrightarrow> strlcpy dst (cstr s rest) sz = Inl OutOfBounds) \<and>
    (sz < length dst \<longrightarrow> strlcpy dst (cstr s rest) sz = Inr (overlay dst 0 (take sz s @ [0]), length s))"
  using assms strlcpy_long[OF assms]
  by (auto simp: strlcpy_def strlcpy_copy_long write_cell_def)

theorem strlcpy_overflows_witness:
  "strlcpy [9, 9] (cstr [0x61, 0x62] []) 2 = Inl OutOfBounds"
  using strlcpy_overflows[of "[0x61, 0x62]" 2 "[9, 9]" "[]"] by simp



text \<open>
  C21. Where \<^verbatim>\<open>strstr\<close> finds a string, the string occurs; \<^verbatim>\<open>strpbrk\<close> returns the first character of the set.
  But \<^verbatim>\<open>strstr\<close> throws away the character on which a partial match fails: it misses \<open>xy\<close> in \<open>xxy\<close>.
\<close>

theorem strstr_sound_incomplete:
  assumes "0 \<notin> set s" "0 \<notin> set t"
  shows "(\<exists>r. strstr (cstr s rest) (cstr t rest') = Inr r \<and>
      (\<forall>i. r = Some i \<longrightarrow> (\<exists>pre post. s = pre @ t @ post \<and> length pre = i))) \<and>
    (\<forall>x y. x \<noteq> 0 \<longrightarrow> y \<noteq> 0 \<longrightarrow> x \<noteq> y \<longrightarrow> strstr (cstr [x, x, y] rest) (cstr [x, y] rest') = Inr None) \<and>
    strpbrk (cstr s rest) (cstr t rest') =
      Inr (if \<exists>c \<in> set s. c \<in> set t then Some (length (takeWhile (\<lambda>c. c \<notin> set t) s)) else None)"
proof (intro conjI allI impI)
  show "\<exists>r. strstr (cstr s rest) (cstr t rest') = Inr r \<and>
      (\<forall>i. r = Some i \<longrightarrow> (\<exists>pre post. s = pre @ t @ post \<and> length pre = i))"
  proof (cases t)
    case Nil
    then show ?thesis using assms(1) strstr_loop_empty strlen_cstr[of "[]"] by (simp add: strstr_def)
  next
    case Cons
    then show ?thesis
      using strstr_loop_sound[OF assms, of 0 "[]" None rest rest'] strlen_cstr[OF assms(2), of rest']
      by (simp add: strstr_def)
  qed
next
  fix x y :: u8 assume "x \<noteq> 0" "y \<noteq> 0" "x \<noteq> y"
  then show "strstr (cstr [x, x, y] rest) (cstr [x, y] rest') = Inr None"
    by (simp add: strstr_def strlen_def Let_def)
next
  show "strpbrk (cstr s rest) (cstr t rest') =
      Inr (if \<exists>c \<in> set s. c \<in> set t then Some (length (takeWhile (\<lambda>c. c \<notin> set t) s)) else None)"
    using assms strpbrk_loop_cstr[OF assms(1), of rest 0 t rest'] by (simp add: strpbrk_def)
qed

theorem strstr_sound_incomplete_witness:
  "strstr (cstr [0x61, 0x61, 0x62] []) (cstr [0x61, 0x62] []) = Inr None \<and>
   strpbrk (cstr [0x61, 0x62] []) (cstr [0x62] []) = Inr (Some 1)"
proof -
  have "(0x61 :: u8) \<noteq> 0" "(0x62 :: u8) \<noteq> 0" "(0x61 :: u8) \<noteq> 0x62" by simp_all
  then show ?thesis using strstr_sound_incomplete[of "[0x61, 0x62]" "[0x62]" "[]" "[]"] by simp
qed

text \<open>
  String keys of a hash set: the comparison is equality of strings, and the hash depends on the
  string only, so equal keys have equal hashes wherever their bytes are stored.
\<close>

theorem hash_cstring_respects:
  assumes "0 \<notin> set s" "0 \<notin> set t"
  shows "hash_cstringCompare (Some (cstr s r)) (Some (cstr t r')) = Inr (s = t) \<and>
    (\<exists>h. hash_cstring (cstr s r) = Inr h \<and> (s = t \<longrightarrow> hash_cstring (cstr t r') = Inr h))"
proof
  show "hash_cstringCompare (Some (cstr s r)) (Some (cstr t r')) = Inr (s = t)"
  proof -
    obtain i where "strcmp_loop (cstr s r) (cstr t r') = Inr i"
      using strcmp_total[OF assms] by blast
    then show ?thesis using strcmp_loop_0[OF assms, of r r'] by (simp add: hash_cstringCompare_def strcmp_def)
  qed
  have "hash_cstring (cstr s r) = hash_cstring (cstr s r')" for r r'
    unfolding hash_cstring_def using assms(1) hash_cstring_loop_cstr[of s r 0 r'] by simp
  moreover have "\<exists>h. hash_cstring (cstr s r) = Inr h"
    using assms(1) hash_cstring_loop_total[of s r 0] by (auto simp: hash_cstring_def Let_def)
  ultimately show "\<exists>h. hash_cstring (cstr s r) = Inr h \<and> (s = t \<longrightarrow> hash_cstring (cstr t r') = Inr h)"
    by metis
qed

theorem hash_cstring_respects_witness:
  "\<exists>h. hash_cstring (cstr [0x61] [1]) = Inr h \<and> hash_cstring (cstr [0x61] [2, 3]) = Inr h"
  using hash_cstring_respects[of "[0x61]" "[0x61]" "[1]" "[2, 3]"] by auto

end
