(* ===== verification/Stdlib.thy ===== *)
theory Stdlib
  imports CString
begin

text \<open>
  \<^verbatim>\<open>src/sys/libc/stdlib.c\<close>: reading and printing integers. Signed overflow wraps, as the target's
  instructions do. The local buffer of the printing functions is uninitialised: the argument
  \<open>stack\<close> holds the bytes found at and above it, and reading past them leaves the stack.
  \<^verbatim>\<open>atof\<close>, which computes with floating point numbers, is not modelled.
\<close>

section \<open>Reading\<close>

definition isdigit :: "u8 \<Rightarrow> bool" where
  "isdigit c \<longleftrightarrow> 0x30 \<le> c \<and> c \<le> 0x39"

definition isspace :: "u8 \<Rightarrow> bool" where
  "isspace c \<longleftrightarrow> c = 0x20 \<or> c = 0x09 \<or> c = 0x0A \<or> c = 0x0B \<or> c = 0x0C \<or> c = 0x0D"

fun atoi_space :: "u8 list \<Rightarrow> u8 list result" where
  "atoi_space [] = Inl OutOfBounds"
| "atoi_space (c # s) = (if isspace c then atoi_space s else Inr (c # s))"

fun atoi_digits :: "u8 list \<Rightarrow> u32 \<Rightarrow> u32 result" where
  "atoi_digits [] result = Inl OutOfBounds"
| "atoi_digits (c # s) result =
     (if c \<noteq> 0 \<and> isdigit c then
        (let intermediate = result * 10 + (ucast c - 0x30) in
         if sint intermediate < sint result then Inr result else atoi_digits s intermediate)
      else Inr result)"

definition atoi :: "u8 list \<Rightarrow> u32 result" where
  "atoi string =
     bind_res (atoi_space string) (\<lambda>string.
     let negative = (hd string = 0x2D); positive = (hd string = 0x2B) in
     bind_res (atoi_digits (if negative \<or> positive then tl string else string) 0) (\<lambda>result.
     Inr (if negative then - result else result)))"

section \<open>Printing\<close>

definition STDLIBBUFFERLENGTH :: nat where "STDLIBBUFFERLENGTH = 128"

text \<open>The two digit strings with their terminators.\<close>

definition digit_chars :: "bool \<Rightarrow> u8 list" where
  "digit_chars lowerCase =
     map (\<lambda>i. 0x30 + word_of_nat i) [0..<10] @
     map (\<lambda>i. (if lowerCase then 0x61 else 0x41) + word_of_nat i) [0..<26] @ [0]"

text \<open>
  \<^verbatim>\<open>while(i > 0) { *--temp = digits[i % base]; i /= base; length ++; }\<close>, with \<open>temp\<close> the index of the
  first character in the buffer. A division by zero raises the exception that panics the kernel.
\<close>

primrec digits_loop :: "u8 list \<Rightarrow> nat \<Rightarrow> nat \<Rightarrow> nat \<Rightarrow> u8 list \<Rightarrow> nat \<Rightarrow> (nat \<times> u8 list \<times> nat) result" where
  "digits_loop digits base 0 i buf len = (if i > 0 then Inl OutOfBounds else Inr (0, buf, len))"
| "digits_loop digits base (Suc temp) i buf len =
     (if i > 0 then
        bind_res (check KernelPanic (base \<noteq> 0)) (\<lambda>_.
        bind_res (read_cell digits (i mod base)) (\<lambda>c.
        bind_res (write_cell buf temp c) (\<lambda>buf.
        digits_loop digits base temp (i div base) buf (len + 1))))
      else Inr (Suc temp, buf, len))"

definition print_number ::
  "u8 list \<Rightarrow> bool \<Rightarrow> nat \<Rightarrow> nat \<Rightarrow> u8 list \<Rightarrow> bool \<Rightarrow> (u8 list \<times> nat) result" where
  "print_number stack negative i base buffer lowerCase =
     bind_res (digits_loop (digit_chars lowerCase) base (STDLIBBUFFERLENGTH - 1) i stack 0) (\<lambda>(temp, buf, len).
     bind_res
       (if negative then
          bind_res (check OutOfBounds (temp > 0)) (\<lambda>_.
          bind_res (write_cell buf (temp - 1) 0x2D) (\<lambda>buf. Inr (temp - 1, buf, len + 1)))
        else Inr (temp, buf, len)) (\<lambda>(temp, buf, len).
     bind_res (strlcpy buffer (drop temp buf) len) (\<lambda>(buffer, _).
     Inr (buffer, len))))"

definition print_zero :: "u8 list \<Rightarrow> (u8 list \<times> nat) result" where
  "print_zero buffer = bind_res (strlcpy buffer [0x30, 0] 1) (\<lambda>(buffer, _). Inr (buffer, 1))"

definition itostr :: "u8 list \<Rightarrow> u32 \<Rightarrow> nat \<Rightarrow> u8 list \<Rightarrow> bool \<Rightarrow> (u8 list \<times> nat) result" where
  "itostr stack i base buffer lowerCase =
     (if i = 0 then print_zero buffer
      else
        (let negative = (sint i < 0); i = (if negative then - i else i) in
         print_number stack negative (nat (sint i)) base buffer lowerCase))"

definition itostr64 :: "u8 list \<Rightarrow> 64 word \<Rightarrow> nat \<Rightarrow> u8 list \<Rightarrow> bool \<Rightarrow> (u8 list \<times> nat) result" where
  "itostr64 stack i base buffer lowerCase =
     (if i = 0 then print_zero buffer
      else
        (let negative = (sint i < 0); i = (if negative then - i else i) in
         print_number stack negative (nat (sint i)) base buffer lowerCase))"

definition uitostr :: "u8 list \<Rightarrow> u32 \<Rightarrow> nat \<Rightarrow> u8 list \<Rightarrow> bool \<Rightarrow> (u8 list \<times> nat) result" where
  "uitostr stack i base buffer lowerCase =
     (if i = 0 then print_zero buffer
      else print_number stack False (unat i) base buffer lowerCase)"

definition uitostr64 :: "u8 list \<Rightarrow> 64 word \<Rightarrow> nat \<Rightarrow> u8 list \<Rightarrow> bool \<Rightarrow> (u8 list \<times> nat) result" where
  "uitostr64 stack i base buffer lowerCase =
     (if i = 0 then print_zero buffer
      else print_number stack False (unat i) base buffer lowerCase)"

section \<open>Numerals\<close>

text \<open>The digits of a number, most significant first; none for 0.\<close>

function numeral_digits :: "nat \<Rightarrow> nat \<Rightarrow> nat list" where
  "numeral_digits base n = (if n = 0 \<or> base < 2 then [] else numeral_digits base (n div base) @ [n mod base])"
  by pat_completeness auto
termination
  by (relation "measure snd") auto

declare numeral_digits.simps [simp del]

lemma numeral_digits_0 [simp]: "numeral_digits base 0 = []"
  by (simp add: numeral_digits.simps)

lemma numeral_digits_pos:
  "0 < n \<Longrightarrow> 2 \<le> base \<Longrightarrow> numeral_digits base n = numeral_digits base (n div base) @ [n mod base]"
  by (subst numeral_digits.simps) simp

lemma numeral_digits_less: "2 \<le> base \<Longrightarrow> x \<in> set (numeral_digits base n) \<Longrightarrow> x < base"
proof (induction base n rule: numeral_digits.induct)
  case (1 base n)
  then show ?case by (cases "n = 0") (auto simp: numeral_digits_pos)
qed

lemma numeral_digits_length: "2 \<le> base \<Longrightarrow> n < 2 ^ k \<Longrightarrow> length (numeral_digits base n) \<le> k"
proof (induction k arbitrary: n)
  case (Suc k)
  show ?case
  proof (cases "n = 0")
    case False
    have "n div base \<le> n div 2" using Suc.prems(1) by (intro div_le_mono2) auto
    also have "n div 2 < 2 ^ k" using Suc.prems(2) by auto
    finally show ?thesis using Suc.IH[of "n div base"] Suc.prems(1) False by (simp add: numeral_digits_pos)
  qed simp
qed simp

lemma numeral_digits_value:
  "2 \<le> base \<Longrightarrow> foldl (\<lambda>a d. a * base + d) 0 (numeral_digits base n) = n"
proof (induction base n rule: numeral_digits.induct)
  case (1 base n)
  then show ?case by (cases "n = 0") (auto simp: numeral_digits_pos)
qed

definition digit_char :: "bool \<Rightarrow> nat \<Rightarrow> u8" where
  "digit_char lowerCase d = digit_chars lowerCase ! d"

lemma length_digit_chars: "length (digit_chars lowerCase) = 37"
  by (simp add: digit_chars_def)

lemma digit_char_nonzero: "d < 36 \<Longrightarrow> digit_char lowerCase d \<noteq> 0"
proof -
  assume "d < 36"
  moreover have "\<forall>d \<in> set [0..<36]. digit_char lowerCase d \<noteq> 0" for lowerCase
    by (cases lowerCase) (simp_all add: digit_char_def digit_chars_def upt_rec nth_append)
  ultimately show ?thesis by simp
qed

lemma digit_char_decimal: "d < 10 \<Longrightarrow> digit_char lowerCase d = 0x30 + word_of_nat d"
  by (simp add: digit_char_def digit_chars_def nth_append)

lemma overlay_last:
  "d + length xs < length dst \<Longrightarrow> overlay (dst[d + length xs := x]) d xs = overlay dst d (xs @ [x])"
  by (simp add: overlay_def drop_update_swap Cons_nth_drop_Suc[symmetric])

lemma overlay_before:
  "d < length dst \<Longrightarrow> (overlay dst (Suc d) xs)[d := x] = overlay dst d (x # xs)"
  by (simp add: overlay_def list_update_append take_Suc_conv_app_nth)

abbreviation numeral_chars :: "bool \<Rightarrow> nat \<Rightarrow> nat \<Rightarrow> u8 list" where
  "numeral_chars lowerCase base n \<equiv> map (digit_char lowerCase) (numeral_digits base n)"

lemma digits_loop_spec:
  assumes base: "2 \<le> base" "base \<le> 36"
  shows "length (numeral_digits base i) \<le> temp \<Longrightarrow> temp \<le> length buf \<Longrightarrow>
    digits_loop (digit_chars lowerCase) base temp i buf len =
      Inr (temp - length (numeral_digits base i),
           overlay buf (temp - length (numeral_digits base i)) (numeral_chars lowerCase base i),
           len + length (numeral_digits base i))"
proof (induction temp arbitrary: i buf len)
  case 0
  then have "i = 0" using base by (cases "i = 0") (auto simp: numeral_digits_pos)
  then show ?case by simp
next
  case (Suc temp)
  show ?case
  proof (cases "i = 0")
    case False
    let ?ds = "numeral_digits base (i div base)" and ?c = "digit_char lowerCase (i mod base)"
    have n: "numeral_digits base i = ?ds @ [i mod base]" using False base by (simp add: numeral_digits_pos)
    have le: "length ?ds \<le> temp" using Suc.prems(1) n by simp
    have rd: "read_cell (digit_chars lowerCase) (i mod base) = Inr ?c"
    proof -
      have "i mod base < base" using base by simp
      also have "base < length (digit_chars lowerCase)" using base by (simp add: length_digit_chars)
      finally show ?thesis by (simp add: digit_char_def)
    qed
    have "overlay (buf[temp := ?c]) (temp - length ?ds) (map (digit_char lowerCase) ?ds) =
        overlay buf (temp - length ?ds) (map (digit_char lowerCase) ?ds @ [?c])"
      using overlay_last[of "temp - length ?ds" "map (digit_char lowerCase) ?ds" buf ?c] le Suc.prems(2) by simp
    then show ?thesis
      using Suc.IH[of "i div base" "buf[temp := ?c]"] le Suc.prems(2) False base rd by (simp add: n)
  qed simp
qed

text \<open>
  The stack above the local buffer: the byte behind the last character that is written, and the
  bytes that follow it up to the first zero.
\<close>

definition stack_ok :: "u8 list \<Rightarrow> bool" where
  "stack_ok stack \<longleftrightarrow> STDLIBBUFFERLENGTH \<le> length stack \<and> 0 \<in> set (drop (STDLIBBUFFERLENGTH - 1) stack)"

lemma stack_ok_split:
  assumes "stack_ok stack"
  obtains g junk r where "stack = g @ cstr junk r" "length g = 127" "0 \<notin> set junk"
proof -
  obtain junk r where "drop 127 stack = junk @ 0 # r" "0 \<notin> set junk"
    using assms by (auto simp: stack_ok_def STDLIBBUFFERLENGTH_def dest: split_list_first)
  then have "stack = take 127 stack @ cstr junk r" using append_take_drop_id[of 127 stack] by (simp add: cstr_def)
  moreover have "length (take 127 stack) = 127" using assms by (simp add: stack_ok_def STDLIBBUFFERLENGTH_def)
  ultimately show ?thesis using that \<open>0 \<notin> set junk\<close> by blast
qed

lemma numeral_chars_nonzero: "2 \<le> base \<Longrightarrow> base \<le> 36 \<Longrightarrow> 0 \<notin> set (numeral_chars lowerCase base n)"
  using digit_char_nonzero[of _ lowerCase] numeral_digits_less[of base] by fastforce

lemma strlcpy_exact:
  assumes "0 \<notin> set s" "0 < length s" "0 \<notin> set junk" "length s < length dst"
  shows "strlcpy dst (s @ cstr junk r) (length s) = Inr (overlay dst 0 (s @ [0]), length s + length junk)"
  using assms strlcpy_long[of "s @ junk" "length s" dst r] by (simp add: cstr_def)

lemma overlay_drop:
  "length g = d + length xs \<Longrightarrow> drop d (overlay (g @ t) d xs) = xs @ t"
  by (simp add: overlay_def)

lemma print_number_spec:
  assumes base: "2 \<le> base" "base \<le> 36" and stack: "stack_ok stack" and i: "i < 2 ^ 64" "0 < i \<or> negative"
    and fits: "length (numeral_digits base i) + 1 < length buffer"
  shows "print_number stack negative i base buffer lowerCase =
    (let cs = (if negative then [0x2D] else []) @ numeral_chars lowerCase base i
     in Inr (overlay buffer 0 (cs @ [0]), length cs))"
proof -
  let ?cs = "numeral_chars lowerCase base i"
  obtain g junk r where g: "stack = g @ cstr junk r" "length g = 127" "0 \<notin> set junk"
    using stack_ok_split[OF stack] .
  have len: "length ?cs \<le> 64" using numeral_digits_length[OF base(1) i(1)] by simp
  then have ov: "digits_loop (digit_chars lowerCase) base 127 i stack 0 =
      Inr (127 - length ?cs, overlay stack (127 - length ?cs) ?cs, length ?cs)"
    using digits_loop_spec[OF base, of i 127 stack lowerCase 0] g(1,2) by simp
  show ?thesis
  proof (cases negative)
    case False
    then have pos: "0 < length ?cs" using i(2) base by (simp add: numeral_digits_pos)
    have "drop (127 - length ?cs) (overlay stack (127 - length ?cs) ?cs) = ?cs @ cstr junk r"
      unfolding g(1) using g(2) len by (intro overlay_drop) simp
    then show ?thesis
      using strlcpy_exact[OF numeral_chars_nonzero[OF base] pos g(3), of buffer r] False ov fits
      by (simp add: print_number_def STDLIBBUFFERLENGTH_def)
  next
    case True
    have "(overlay stack (127 - length ?cs) ?cs)[126 - length ?cs := 0x2D] = overlay stack (126 - length ?cs) (0x2D # ?cs)"
    proof -
      have "Suc (126 - length ?cs) = 127 - length ?cs" "126 - length ?cs < length stack"
        using len g(1,2) by simp_all
      then show ?thesis using overlay_before[of "126 - length ?cs" stack ?cs "0x2D"] by simp
    qed
    moreover have "drop (126 - length ?cs) (overlay stack (126 - length ?cs) (0x2D # ?cs)) = (0x2D # ?cs) @ cstr junk r"
      unfolding g(1) using g(2) len by (intro overlay_drop) simp
    moreover have "0 \<notin> set (0x2D # ?cs)" using numeral_chars_nonzero[OF base] by simp
    ultimately show ?thesis
      using strlcpy_exact[of "0x2D # ?cs" junk buffer r] True ov fits g(1,2,3) len
      by (simp add: print_number_def STDLIBBUFFERLENGTH_def)
  qed
qed

lemma sint_neg: "sint i \<noteq> - (2 ^ 31) \<Longrightarrow> sint (- i) = - sint i" for i :: u32
proof -
  assume "sint i \<noteq> - (2 ^ 31)"
  moreover have "- (2 ^ 31) \<le> sint i" "sint i < 2 ^ 31"
    using sint_greater_eq[of i] sint_less[of i] by simp_all
  ultimately show ?thesis by (simp add: sint_word_ariths signed_take_bit_int_eq_self)
qed

lemma sint_neg64: "sint i \<noteq> - (2 ^ 63) \<Longrightarrow> sint (- i) = - sint i" for i :: "64 word"
proof -
  assume "sint i \<noteq> - (2 ^ 63)"
  moreover have "- (2 ^ 63) \<le> sint i" "sint i < 2 ^ 63"
    using sint_greater_eq[of i] sint_less[of i] by simp_all
  ultimately show ?thesis by (simp add: sint_word_ariths signed_take_bit_int_eq_self)
qed

definition signed_chars :: "bool \<Rightarrow> nat \<Rightarrow> int \<Rightarrow> u8 list" where
  "signed_chars lowerCase base v =
     (if v = 0 then [0x30] else (if v < 0 then [0x2D] else []) @ numeral_chars lowerCase base (nat \<bar>v\<bar>))"

lemma print_zero_spec: "2 \<le> length buffer \<Longrightarrow> print_zero buffer = Inr (overlay buffer 0 [0x30, 0], 1)"
  using strlcpy_long[of "[0x30]" 1 buffer "[]"] by (simp add: print_zero_def cstr_def)

lemma numeral_digits_fits:
  assumes "2 \<le> base" "n < 2 ^ 64" "66 < length (buffer :: u8 list)"
  shows "length (numeral_digits base n) + 1 < length buffer"
  using numeral_digits_length[OF assms(1,2)] assms(3) by linarith

lemma itostr_spec:
  assumes "2 \<le> base" "base \<le> 36" "stack_ok stack" "66 < length buffer" "sint i \<noteq> - (2 ^ 31)"
  shows "itostr stack i base buffer lowerCase =
    Inr (overlay buffer 0 (signed_chars lowerCase base (sint i) @ [0]), length (signed_chars lowerCase base (sint i)))"
proof (cases "i = 0")
  case True
  then show ?thesis using assms(4) print_zero_spec[of buffer] by (simp add: itostr_def signed_chars_def)
next
  case False
  then have nz: "sint i \<noteq> 0" using signed_word_eqI[of i 0] by auto
  have b: "nat \<bar>sint i\<bar> < 2 ^ 64" using sint_greater_eq[of i] sint_less[of i] by auto
  have n: "nat (sint (if sint i < 0 then - i else i)) = nat \<bar>sint i\<bar>" using sint_neg[OF assms(5)] by simp
  show ?thesis
    using False nz print_number_spec[OF assms(1-3) b _ numeral_digits_fits[OF assms(1) b assms(4)], of "sint i < 0" lowerCase]
    by (simp add: itostr_def signed_chars_def n Let_def)
qed

lemma itostr64_spec:
  assumes "2 \<le> base" "base \<le> 36" "stack_ok stack" "66 < length buffer" "sint i \<noteq> - (2 ^ 63)"
  shows "itostr64 stack i base buffer lowerCase =
    Inr (overlay buffer 0 (signed_chars lowerCase base (sint i) @ [0]), length (signed_chars lowerCase base (sint i)))"
proof (cases "i = 0")
  case True
  then show ?thesis using assms(4) print_zero_spec[of buffer] by (simp add: itostr64_def signed_chars_def)
next
  case False
  then have nz: "sint i \<noteq> 0" using signed_word_eqI[of i 0] by auto
  have b: "nat \<bar>sint i\<bar> < 2 ^ 64" using sint_greater_eq[of i] sint_less[of i] by auto
  have n: "nat (sint (if sint i < 0 then - i else i)) = nat \<bar>sint i\<bar>" using sint_neg64[OF assms(5)] by simp
  show ?thesis
    using False nz print_number_spec[OF assms(1-3) b _ numeral_digits_fits[OF assms(1) b assms(4)], of "sint i < 0" lowerCase]
    by (simp add: itostr64_def signed_chars_def n Let_def)
qed

lemma uitostr_spec:
  assumes "2 \<le> base" "base \<le> 36" "stack_ok stack" "66 < length buffer"
  shows "uitostr stack i base buffer lowerCase =
      Inr (overlay buffer 0 (signed_chars lowerCase base (uint i) @ [0]), length (signed_chars lowerCase base (uint i)))"
proof (cases "i = 0")
  case True
  then show ?thesis using assms(4) print_zero_spec[of buffer] by (simp add: uitostr_def signed_chars_def)
next
  case False
  then have nz: "uint i \<noteq> 0" "0 < unat i" "nat (uint i) = unat i"
    by (auto simp: uint_0_iff unat_gt_0)
  have b: "unat i < 2 ^ 64" using unat_u32_less[of i] by simp
  show ?thesis
    using False nz print_number_spec[OF assms(1-3) b _ numeral_digits_fits[OF assms(1) b assms(4)], of False lowerCase]
    by (simp add: uitostr_def signed_chars_def)
qed

lemma uitostr64_spec:
  assumes "2 \<le> base" "base \<le> 36" "stack_ok stack" "66 < length buffer"
  shows "uitostr64 stack i base buffer lowerCase =
      Inr (overlay buffer 0 (signed_chars lowerCase base (uint i) @ [0]), length (signed_chars lowerCase base (uint i)))"
proof (cases "i = 0")
  case True
  then show ?thesis using assms(4) print_zero_spec[of buffer] by (simp add: uitostr64_def signed_chars_def)
next
  case False
  then have nz: "uint i \<noteq> 0" "0 < unat i" "nat (uint i) = unat i"
    by (auto simp: uint_0_iff unat_gt_0)
  have b: "unat i < 2 ^ 64" using unsigned_less[of i, where ?'a = nat] by simp
  show ?thesis
    using False nz print_number_spec[OF assms(1-3) b _ numeral_digits_fits[OF assms(1) b assms(4)], of False lowerCase]
    by (simp add: uitostr64_def signed_chars_def)
qed

lemma sint_small: "unat w < 2 ^ 31 \<Longrightarrow> sint w = int (unat w)" for w :: u32
proof -
  assume "unat w < 2 ^ 31"
  then have "uint w < 2 ^ 31" using of_nat_less_iff[of "unat w" "2 ^ 31", where ?'a = int] by simp
  then have "signed_take_bit 31 (uint w) = uint w"
    using uint_ge_0[of w] by (intro signed_take_bit_int_eq_self) linarith+
  then show ?thesis by (simp add: sint_uint)
qed

lemma digit_facts:
  assumes "d < 10"
  shows "isdigit (0x30 + word_of_nat d) \<and> (0x30 + word_of_nat d :: u8) \<noteq> 0 \<and>
    (ucast (0x30 + word_of_nat d :: u8) :: u32) - 0x30 = word_of_nat d"
proof -
  have "\<forall>d \<in> set [0..<10]. isdigit (0x30 + word_of_nat d) \<and> (0x30 + word_of_nat d :: u8) \<noteq> 0 \<and>
    (ucast (0x30 + word_of_nat d :: u8) :: u32) - 0x30 = word_of_nat d"
    by (simp add: upt_rec isdigit_def)
  then show ?thesis using assms by simp
qed

lemma atoi_digits_spec:
  "\<forall>d \<in> set ds. d < 10 \<Longrightarrow> foldl (\<lambda>a d. a * 10 + d) (unat acc) ds < 2 ^ 31 \<Longrightarrow>
   atoi_digits (map (digit_char lowerCase) ds @ 0 # rest) acc =
     Inr (word_of_nat (foldl (\<lambda>a d. a * 10 + d) (unat acc) ds))"
proof (induction ds arbitrary: acc)
  case (Cons d ds)
  let ?f = "\<lambda>a d. a * 10 + d"
  have grow: "a \<le> foldl ?f a ds" for a :: nat
  proof (induction ds arbitrary: a)
    case (Cons x xs)
    have "a \<le> a * 10 + x" by simp
    also have "\<dots> \<le> foldl ?f (a * 10 + x) xs" by (rule Cons)
    finally show ?case by simp
  qed simp
  have d: "d < 10" "digit_char lowerCase d = 0x30 + word_of_nat d"
    using Cons.prems(1) digit_char_decimal by auto
  have c: "isdigit (digit_char lowerCase d)" "digit_char lowerCase d \<noteq> 0"
    "(ucast (digit_char lowerCase d) :: u32) - 0x30 = word_of_nat d"
    using digit_facts[OF d(1)] d(2) by simp_all
  have small: "unat acc * 10 + d < 2 ^ 31" using Cons.prems(2) grow[of "unat acc * 10 + d"] by simp
  have u: "unat (acc * 10 + word_of_nat d) = unat acc * 10 + d"
    using small by (simp add: unat_word_ariths unat_of_nat)
  have "\<not> sint (acc * 10 + word_of_nat d) < sint acc"
    using sint_small[of acc] sint_small[of "acc * 10 + word_of_nat d"] small
    by (simp add: u) (use uint_ge_0[of acc] in linarith)
  then show ?case using c Cons.IH[of "acc * 10 + word_of_nat d"] Cons.prems by (simp add: u Let_def)
qed simp

lemma first_digit:
  assumes "0 < n"
  shows "\<exists>c cs. numeral_chars lowerCase 10 n = c # cs \<and> \<not> isspace c \<and> c \<noteq> 0x2D \<and> c \<noteq> 0x2B"
proof -
  have "numeral_digits 10 n \<noteq> []" using assms by (simp add: numeral_digits_pos)
  then obtain d ds where ds: "numeral_digits 10 n = d # ds" by (cases "numeral_digits 10 n") auto
  then have d: "d < 10" using numeral_digits_less[of 10 d n] by simp
  have "\<forall>d \<in> set [0..<10]. \<not> isspace (0x30 + word_of_nat d) \<and> (0x30 + word_of_nat d :: u8) \<noteq> 0x2D \<and>
      (0x30 + word_of_nat d :: u8) \<noteq> 0x2B"
    by (simp add: upt_rec isspace_def)
  then show ?thesis using ds d digit_char_decimal[OF d, of lowerCase] by simp
qed

section \<open>Properties\<close>

text \<open>
  C18. For every base from 2 to 36 and a buffer of more than 66 cells, the four printing functions write
  the terminated numeral of their argument to the start of the buffer and return its length. The
  smallest signed number of each width is excepted; and the functions need a zero byte on the stack
  above their local buffer, because the copy runs over its uninitialised last byte.
\<close>

theorem numbers_print:
  assumes "2 \<le> base" "base \<le> 36" "stack_ok stack" "66 < length buffer"
  shows "(sint (i :: u32) \<noteq> - (2 ^ 31) \<longrightarrow> itostr stack i base buffer lowerCase =
       (let cs = signed_chars lowerCase base (sint i) in Inr (overlay buffer 0 (cs @ [0]), length cs))) \<and>
    (sint (j :: 64 word) \<noteq> - (2 ^ 63) \<longrightarrow> itostr64 stack j base buffer lowerCase =
       (let cs = signed_chars lowerCase base (sint j) in Inr (overlay buffer 0 (cs @ [0]), length cs))) \<and>
    uitostr stack i base buffer lowerCase =
       (let cs = signed_chars lowerCase base (uint i) in Inr (overlay buffer 0 (cs @ [0]), length cs)) \<and>
    uitostr64 stack j base buffer lowerCase =
       (let cs = signed_chars lowerCase base (uint j) in Inr (overlay buffer 0 (cs @ [0]), length cs))"
  using itostr_spec[OF assms] itostr64_spec[OF assms] uitostr_spec[OF assms] uitostr64_spec[OF assms]
  by (simp add: Let_def)

theorem numbers_print_witness:
  "uitostr (replicate 128 0) 255 16 (replicate 67 1) False =
     Inr (overlay (replicate 67 1) 0 [0x46, 0x46, 0], 2)"
  using numbers_print[of 16 "replicate 128 0" "replicate 67 1" 0 False 0]
    numbers_print[of 16 "replicate 128 0" "replicate 67 1" 255 False 0]
  by (simp add: stack_ok_def STDLIBBUFFERLENGTH_def signed_chars_def Let_def numeral_digits.simps digit_char_def digit_chars_def nth_append)

text \<open>
  C17. Printing a number in decimal and reading it back gives the number, for every signed 32-bit number
  but the smallest one.
\<close>

theorem atoi_itostr:
  assumes "stack_ok stack" "66 < length buffer" "sint i \<noteq> - (2 ^ 31)"
  shows "\<exists>buffer' n. itostr stack i 10 buffer lowerCase = Inr (buffer', n) \<and> atoi buffer' = Inr i"
proof -
  let ?cs = "signed_chars lowerCase 10 (sint i)"
  let ?buf = "overlay buffer 0 (?cs @ [0])"
  obtain rest where buf: "?buf = ?cs @ 0 # rest" by (simp add: overlay_def)
  have "atoi ?buf = Inr i"
  proof (cases "sint i = 0")
    case True
    then have "i = 0" using signed_word_eqI[of i 0] by auto
    then show ?thesis unfolding buf by (simp add: signed_chars_def atoi_def isspace_def isdigit_def Let_def)
  next
    case False
    let ?n = "nat \<bar>sint i\<bar>"
    have b: "?n < 2 ^ 31" using assms(3) sint_greater_eq[of i] sint_less[of i] by auto
    have d: "atoi_digits (numeral_chars lowerCase 10 ?n @ 0 # rest) 0 = Inr (word_of_nat ?n)"
      using atoi_digits_spec[of "numeral_digits 10 ?n" 0 lowerCase rest] numeral_digits_less[of 10] numeral_digits_value[of 10 ?n] b
      by simp
    obtain c cs where cs: "numeral_chars lowerCase 10 ?n = c # cs" "\<not> isspace c" "c \<noteq> 0x2D" "c \<noteq> 0x2B"
      using first_digit[of ?n lowerCase] False by auto
    have w: "(word_of_nat ?n :: u32) = (if sint i < 0 then - i else i)"
    proof -
      have "(word_of_nat ?n :: u32) = word_of_int \<bar>sint i\<bar>" by (rule of_nat_nat) simp
      then show ?thesis using of_int_sint[of i] by (cases "sint i < 0") simp_all
    qed
    show ?thesis
      unfolding buf using False d cs w
      by (auto simp: signed_chars_def atoi_def isspace_def Let_def)
  qed
  then show ?thesis using itostr_spec[of 10, OF _ _ assms] by simp
qed

theorem atoi_itostr_witness:
  "\<exists>buffer n. itostr (replicate 128 0) (- 42) 10 (replicate 67 1) False = Inr (buffer, n) \<and> atoi buffer = Inr (- 42)"
  using atoi_itostr[of "replicate 128 0" "replicate 67 1" "- 42" False]
  by (simp add: stack_ok_def STDLIBBUFFERLENGTH_def)

text \<open>
  The smallest signed number is printed as a bare minus sign, in every base.
\<close>

theorem itostr_smallest:
  assumes "2 \<le> base" "base \<le> 36" "stack_ok stack" "66 < length buffer"
  shows "itostr stack 0x80000000 base buffer lowerCase = Inr (overlay buffer 0 [0x2D, 0], 1)"
  using print_number_spec[OF assms(1-3), of 0 True buffer lowerCase] assms(4)
  by (simp add: itostr_def Let_def)

theorem itostr_smallest_witness:
  "itostr (replicate 128 0) 0x80000000 10 (replicate 67 1) False = Inr (overlay (replicate 67 1) 0 [0x2D, 0], 1)"
  using itostr_smallest[of 10 "replicate 128 0" "replicate 67 1" False]
  by (simp add: stack_ok_def STDLIBBUFFERLENGTH_def)

text \<open>
  The overflow test of \<^verbatim>\<open>atoi\<close> misses overflows that wrap past the previous result: it reads five
  thousand million as 705032704.
\<close>

theorem atoi_overflow_undetected:
  "atoi (cstr [0x35, 0x30, 0x30, 0x30, 0x30, 0x30, 0x30, 0x30, 0x30, 0x30] rest) = Inr 705032704"
  by (simp add: atoi_def isspace_def isdigit_def Let_def)

end
