(* ===== verification/Stdio.thy ===== *)
theory Stdio
  imports Stdlib
begin

text \<open>
  \<^verbatim>\<open>src/sys/libc/stdio.c\<close>: formatted printing into a buffer. The format is the list of bytes from its
  pointer to the end of its object, the variable arguments are the 32-bit words above the last named
  argument, \<open>mem\<close> gives the bytes an address points to, and \<open>stack\<close> and \<open>scratch\<close> are the uninitialised
  local buffers of the number printing. \<^verbatim>\<open>%n\<close> stores are recorded.
\<close>

section \<open>Model\<close>

record vsn_state =
  vs_buffer :: "u8 list option"
  vs_size :: u32
  vs_written :: u32
  vs_total :: u32
  vs_keepWriting :: bool
  vs_args :: "u32 list"
  vs_stores :: "(ptr \<times> u32) list"

type_synonym 'a vsn = "vsn_state \<Rightarrow> ('a \<times> vsn_state) result"

definition vs_return :: "'a \<Rightarrow> 'a vsn" where
  "vs_return x = (\<lambda>st. Inr (x, st))"

definition vs_bind :: "'a vsn \<Rightarrow> ('a \<Rightarrow> 'b vsn) \<Rightarrow> 'b vsn" where
  "vs_bind m f = (\<lambda>st. bind_res (m st) (\<lambda>(x, st). f x st))"

definition vs_lift :: "'a result \<Rightarrow> 'a vsn" where
  "vs_lift r = (\<lambda>st. bind_res r (\<lambda>x. Inr (x, st)))"

text \<open>\<^verbatim>\<open>buffer[written ++] = c\<close>\<close>

definition vs_store :: "u8 \<Rightarrow> vsn_state \<Rightarrow> vsn_state result" where
  "vs_store c st =
     (case vs_buffer st of
        None \<Rightarrow> Inl OutOfBounds
      | Some buffer \<Rightarrow>
          bind_res (write_cell buffer (unat (vs_written st)) c) (\<lambda>buffer.
          Inr (st\<lparr>vs_buffer := Some buffer, vs_written := vs_written st + 1\<rparr>)))"

text \<open>A character that is written while there is room, and one that is written if \<^verbatim>\<open>keepWriting\<close> is set.\<close>

definition vs_put :: "u8 \<Rightarrow> unit vsn" where
  "vs_put c st =
     bind_res (if vs_keepWriting st \<and> vs_written st < vs_size st then vs_store c st else Inr st) (\<lambda>st.
     Inr ((), st\<lparr>vs_total := vs_total st + 1\<rparr>))"

definition vs_putOne :: "u8 \<Rightarrow> unit vsn" where
  "vs_putOne c st =
     bind_res (if vs_keepWriting st then vs_store c st else Inr st) (\<lambda>st.
     Inr ((), st\<lparr>vs_total := vs_total st + 1\<rparr>))"

fun vs_puts :: "u8 list \<Rightarrow> unit vsn" where
  "vs_puts [] = vs_lift (Inl OutOfBounds)"
| "vs_puts (c # s) = (if c \<noteq> 0 then vs_bind (vs_put c) (\<lambda>_. vs_puts s) else vs_return ())"

primrec vs_pad :: "u8 \<Rightarrow> nat \<Rightarrow> unit vsn" where
  "vs_pad c 0 = vs_return ()"
| "vs_pad c (Suc n) = vs_bind (vs_put c) (\<lambda>_. vs_pad c n)"

definition va_arg :: "u32 vsn" where
  "va_arg st = (case vs_args st of [] \<Rightarrow> Inl OutOfBounds | x # args \<Rightarrow> Inr (x, st\<lparr>vs_args := args\<rparr>))"

definition va_arg64 :: "64 word vsn" where
  "va_arg64 = vs_bind va_arg (\<lambda>lo. vs_bind va_arg (\<lambda>hi. vs_return (ucast lo + push_bit 32 (ucast hi))))"

text \<open>The flags \<^verbatim>\<open>-\<close>, \<^verbatim>\<open>+\<close> and \<^verbatim>\<open>0\<close>, the width and the length modifiers.\<close>

definition kVsnprintfFlagRightAlign :: u32 where "kVsnprintfFlagRightAlign = 1"
definition kVsnprintfFlagForceSign :: u32 where "kVsnprintfFlagForceSign = 2"
definition kVsnprintfZeroPad :: u32 where "kVsnprintfZeroPad = 4"

fun vs_flags :: "u8 list \<Rightarrow> u32 \<Rightarrow> (u32 \<times> u8 list) result" where
  "vs_flags [] flags = Inl OutOfBounds"
| "vs_flags (c # f) flags =
     (if c = 0x30 then (if flags \<noteq> 0 then Inr (flags, c # f) else vs_flags f (flags OR kVsnprintfZeroPad))
      else if c = 0x2D then vs_flags f (flags OR kVsnprintfFlagRightAlign)
      else if c = 0x2B then vs_flags f (flags OR kVsnprintfFlagForceSign)
      else Inr (flags, c # f))"

fun vs_width :: "u8 list \<Rightarrow> u32 \<Rightarrow> (u32 \<times> u8 list) result" where
  "vs_width [] width = Inl OutOfBounds"
| "vs_width (c # f) width =
     (if isdigit c then vs_width f (width * 10 + (ucast c - 0x30)) else Inr (width, c # f))"

fun vs_length :: "u8 list \<Rightarrow> (nat \<times> u8 list) result" where
  "vs_length [] = Inl OutOfBounds"
| "vs_length (c # f) =
     (if c = 0x68 then
        (case f of [] \<Rightarrow> Inl OutOfBounds | d # f' \<Rightarrow> if d = 0x68 then Inr (1, f') else Inr (2, f))
      else if c = 0x6C then
        (case f of [] \<Rightarrow> Inl OutOfBounds | d # f' \<Rightarrow> if d = 0x6C then Inr (8, f') else Inr (4, f))
      else Inr (4, c # f))"

text \<open>The number of a conversion, printed into the local string.\<close>

definition vs_numeral :: "u8 list \<Rightarrow> u8 list \<Rightarrow> u8 \<Rightarrow> nat \<Rightarrow> u8 list vsn" where
  "vs_numeral stack scratch specifier typeLength =
     (let base = (if specifier = 0x69 \<or> specifier = 0x75 \<or> specifier = 0x64 then 10 else 16);
          isUint = (specifier = 0x70 \<or> specifier = 0x75 \<or> specifier = 0x78);
          lowerCase = (specifier = 0x78)
      in vs_bind
        (if specifier = 0x70 then vs_bind va_arg (\<lambda>value. vs_lift (uitostr stack value base scratch False))
         else if typeLength = 8 then
           vs_bind va_arg64 (\<lambda>value.
             vs_lift (if isUint then uitostr64 stack value base scratch lowerCase
                      else itostr64 stack value base scratch lowerCase))
         else
           vs_bind va_arg (\<lambda>value.
             vs_lift (if isUint then uitostr stack value base scratch lowerCase
                      else itostr stack value base scratch lowerCase)))
        (\<lambda>(string, _). vs_return string))"

text \<open>Prefix, padding on one side and the number itself.\<close>

definition vs_padded :: "u8 \<Rightarrow> u32 \<Rightarrow> u32 \<Rightarrow> u8 list \<Rightarrow> unit vsn" where
  "vs_padded specifier flags width string =
     vs_bind (vs_puts (if specifier = 0x70 then [0x30, 0x78, 0] else [0])) (\<lambda>_.
     vs_bind (vs_lift (strlen string)) (\<lambda>len.
     let fill = nat (sint (width - word_of_nat len)) in
     vs_bind
       (if flags AND kVsnprintfFlagRightAlign = 0
        then vs_pad (if flags AND kVsnprintfZeroPad \<noteq> 0 then 0x30 else 0x20) fill else vs_return ()) (\<lambda>_.
     vs_bind (vs_puts string) (\<lambda>_.
     if flags AND kVsnprintfFlagRightAlign \<noteq> 0 then vs_pad 0x20 fill else vs_return ()))))"

definition vs_number :: "u8 list \<Rightarrow> u8 list \<Rightarrow> u8 \<Rightarrow> nat \<Rightarrow> u32 \<Rightarrow> u32 \<Rightarrow> unit vsn" where
  "vs_number stack scratch specifier typeLength flags width =
     vs_bind (vs_numeral stack scratch specifier typeLength) (vs_padded specifier flags width)"

definition null_string :: "u8 list" where
  "null_string = [0x28, 0x6E, 0x75, 0x6C, 0x6C, 0x29, 0]"

definition vs_convert ::
  "(ptr \<Rightarrow> u8 list) \<Rightarrow> u8 list \<Rightarrow> u8 list \<Rightarrow> u8 \<Rightarrow> nat \<Rightarrow> u32 \<Rightarrow> u32 \<Rightarrow> unit vsn" where
  "vs_convert mem stack scratch c typeLength flags width =
     (if c = 0x63 then
        (\<lambda>st. if vs_keepWriting st then vs_bind va_arg (\<lambda>x. vs_putOne (ucast x)) st
              else Inr ((), st\<lparr>vs_total := vs_total st + 1\<rparr>))
      else if c = 0x73 then
        vs_bind va_arg (\<lambda>string. vs_puts (if string = NULL then null_string else mem string))
      else if c \<in> {0x69, 0x64, 0x70, 0x78, 0x58, 0x75} then vs_number stack scratch c typeLength flags width
      else if c = 0x6E then
        vs_bind va_arg (\<lambda>value st. Inr ((), st\<lparr>vs_stores := vs_stores st @ [(value, vs_written st)]\<rparr>))
      else if c = 0x25 then vs_putOne 0x25
      else vs_return ())"

text \<open>
  What follows a percent sign: flags, width, length modifier and the conversion character, with the
  format after it.
\<close>

definition vs_parse :: "u8 list \<Rightarrow> (u32 \<times> u32 \<times> nat \<times> u8 \<times> u8 list) result" where
  "vs_parse format =
     bind_res (vs_flags format 0) (\<lambda>(flags, format).
     bind_res (vs_width format 0) (\<lambda>(width, format).
     bind_res (vs_length format) (\<lambda>(typeLength, format).
     case format of [] \<Rightarrow> Inl OutOfBounds | c # format \<Rightarrow> Inr (flags, width, typeLength, c, format))))"

definition vs_directive ::
  "(ptr \<Rightarrow> u8 list) \<Rightarrow> u8 list \<Rightarrow> u8 list \<Rightarrow> u8 list \<Rightarrow> u8 list vsn" where
  "vs_directive mem stack scratch format =
     vs_bind (vs_lift (vs_parse format)) (\<lambda>(flags, width, typeLength, c, format).
     vs_bind (vs_convert mem stack scratch c typeLength flags width) (\<lambda>_. vs_return format))"

lemma vs_flags_length: "vs_flags f x = Inr (flags, f') \<Longrightarrow> length f' \<le> length f"
  by (induction f arbitrary: x) (fastforce split: if_splits)+

lemma vs_width_length: "vs_width f x = Inr (width, f') \<Longrightarrow> length f' \<le> length f"
  by (induction f arbitrary: x) (fastforce split: if_splits)+

lemma vs_length_length: "vs_length f = Inr (n, f') \<Longrightarrow> length f' \<le> length f"
  by (cases f) (auto split: if_splits list.splits)

lemma vs_bind_Inr: "vs_bind m g st = Inr r \<longleftrightarrow> (\<exists>x st'. m st = Inr (x, st') \<and> g x st' = Inr r)"
  by (auto simp: vs_bind_def bind_res_Inr_iff)

lemma vs_lift_Inr: "vs_lift r st = Inr (x, st') \<longleftrightarrow> r = Inr x \<and> st' = st"
  by (auto simp: vs_lift_def bind_res_Inr_iff)

lemma vs_parse_steps:
  assumes "vs_parse f = Inr (flags, width, n, c, f')"
  obtains f1 f2 where "vs_flags f 0 = Inr (flags, f1)" "vs_width f1 0 = Inr (width, f2)" "vs_length f2 = Inr (n, c # f')"
proof -
  obtain fl f1 w f2 n' f3 where p: "vs_flags f 0 = Inr (fl, f1)" "vs_width f1 0 = Inr (w, f2)" "vs_length f2 = Inr (n', f3)"
    and r: "(case f3 of [] \<Rightarrow> Inl OutOfBounds | c # f' \<Rightarrow> Inr (fl, w, n', c, f')) = Inr (flags, width, n, c, f')"
    using assms by (auto simp: vs_parse_def bind_res_Inr_iff)
  have "f3 = c # f'" "fl = flags" "w = width" "n' = n" using r by (cases f3; simp)+
  then show ?thesis using that p by blast
qed

lemma vs_parse_length: "vs_parse f = Inr (flags, width, n, c, f') \<Longrightarrow> length f' < length f"
  by (erule vs_parse_steps) (auto dest!: vs_flags_length vs_width_length vs_length_length)

lemma vs_directive_length: "vs_directive mem stack scratch f st = Inr (f', st') \<Longrightarrow> length f' < length f"
  by (auto simp: vs_directive_def vs_bind_Inr vs_lift_Inr vs_return_def dest: vs_parse_length)

function vs_loop ::
  "(ptr \<Rightarrow> u8 list) \<Rightarrow> u8 list \<Rightarrow> u8 list \<Rightarrow> u8 list \<Rightarrow> vsn_state \<Rightarrow> vsn_state result" where
  "vs_loop mem stack scratch [] st = Inl OutOfBounds"
| "vs_loop mem stack scratch (c # format) st =
     (if c = 0 then Inr st
      else
        (let st = (if vs_written st \<ge> vs_size st then st\<lparr>vs_keepWriting := False\<rparr> else st) in
         if c = 0x25 then
           bind_res (vs_directive mem stack scratch format st) (\<lambda>(format, st). vs_loop mem stack scratch format st)
         else
           bind_res (vs_putOne c st) (\<lambda>(_, st). vs_loop mem stack scratch format st)))"
  by pat_completeness auto
termination
  by (relation "measure (\<lambda>(mem, stack, scratch, format, st). length format)")
    (auto dest: vs_directive_length)

declare vs_loop.simps [simp del]

definition vsnprintf ::
  "(ptr \<Rightarrow> u8 list) \<Rightarrow> u8 list \<Rightarrow> u8 list \<Rightarrow> u8 list option \<Rightarrow> u32 \<Rightarrow> u8 list \<Rightarrow> u32 list \<Rightarrow>
     (u8 list option \<times> u32 \<times> (ptr \<times> u32) list) result" where
  "vsnprintf mem stack scratch buffer sz format args =
     bind_res (vs_loop mem stack scratch format
       \<lparr>vs_buffer = buffer, vs_size = sz, vs_written = 0, vs_total = 0, vs_keepWriting = True,
        vs_args = args, vs_stores = []\<rparr>) (\<lambda>st.
     case vs_buffer st of
       None \<Rightarrow> Inr (None, vs_total st, vs_stores st)
     | Some buffer \<Rightarrow>
         (let index = (if vs_written st \<ge> vs_size st then vs_written st - 1 else vs_written st) in
          bind_res (write_cell buffer (unat index) 0) (\<lambda>buffer.
          Inr (Some buffer, vs_total st, vs_stores st))))"

definition vsprintf ::
  "(ptr \<Rightarrow> u8 list) \<Rightarrow> u8 list \<Rightarrow> u8 list \<Rightarrow> u8 list option \<Rightarrow> u8 list \<Rightarrow> u32 list \<Rightarrow>
     (u8 list option \<times> u32 \<times> (ptr \<times> u32) list) result" where
  "vsprintf mem stack scratch buffer format args = vsnprintf mem stack scratch buffer UINT32_MAX format args"

definition snprintf ::
  "(ptr \<Rightarrow> u8 list) \<Rightarrow> u8 list \<Rightarrow> u8 list \<Rightarrow> u8 list option \<Rightarrow> u32 \<Rightarrow> u8 list \<Rightarrow> u32 list \<Rightarrow>
     (u8 list option \<times> u32 \<times> (ptr \<times> u32) list) result" where
  "snprintf mem stack scratch dst sz format param = vsnprintf mem stack scratch dst sz format param"

definition sprintf ::
  "(ptr \<Rightarrow> u8 list) \<Rightarrow> u8 list \<Rightarrow> u8 list \<Rightarrow> u8 list option \<Rightarrow> u8 list \<Rightarrow> u32 list \<Rightarrow>
     (u8 list option \<times> u32 \<times> (ptr \<times> u32) list) result" where
  "sprintf mem stack scratch dst format param = vsprintf mem stack scratch dst format param"

section \<open>Truncation\<close>

text \<open>
  The state after the characters \<open>out\<close>: as many of them as fit are in the buffer, and all are counted.
\<close>

definition vs_sim :: "u8 list \<Rightarrow> u8 list \<Rightarrow> vsn_state \<Rightarrow> bool" where
  "vs_sim b out st \<longleftrightarrow> unat (vs_size st) \<le> length b \<and>
     vs_buffer st = Some (overlay b 0 (take (unat (vs_size st)) out)) \<and>
     unat (vs_written st) = min (unat (vs_size st)) (length out) \<and> vs_total st = word_of_nat (length out) \<and>
     (\<not> vs_keepWriting st \<longrightarrow> unat (vs_size st) \<le> length out)"

definition vs_fresh :: "vsn_state \<Rightarrow> bool" where
  "vs_fresh st \<longleftrightarrow> (vs_keepWriting st \<longrightarrow> vs_written st < vs_size st)"

text \<open>
  A program is uniform if what it prints, which arguments it takes and whether it fails do not depend
  on the buffer and its size. \<open>P\<close> restricts the states it is started in.
\<close>

definition fails :: "(vsn_state \<Rightarrow> bool) \<Rightarrow> 'a vsn \<Rightarrow> u32 list \<Rightarrow> fault \<Rightarrow> bool" where
  "fails P m args e \<longleftrightarrow> (\<forall>st b out. P st \<longrightarrow> vs_sim b out st \<longrightarrow> vs_args st = args \<longrightarrow> m st = Inl e)"

definition prints :: "(vsn_state \<Rightarrow> bool) \<Rightarrow> 'a vsn \<Rightarrow> u32 list \<Rightarrow> 'a \<Rightarrow> u8 list \<Rightarrow> u32 list \<Rightarrow> bool" where
  "prints P m args x new args' \<longleftrightarrow> (\<forall>st b out. P st \<longrightarrow> vs_sim b out st \<longrightarrow> vs_args st = args \<longrightarrow>
     (\<exists>st'. m st = Inr (x, st') \<and> vs_sim b (out @ new) st' \<and> vs_args st' = args' \<and> vs_size st' = vs_size st))"

definition uniform :: "(vsn_state \<Rightarrow> bool) \<Rightarrow> 'a vsn \<Rightarrow> bool" where
  "uniform P m \<longleftrightarrow> (\<forall>args. (\<exists>e. fails P m args e) \<or> (\<exists>x new args'. prints P m args x new args'))"

abbreviation (input) always :: "vsn_state \<Rightarrow> bool" where "always \<equiv> \<lambda>_. True"

lemma uniformI_fail: "(\<And>st. m st = Inl e) \<Longrightarrow> uniform P m"
  by (auto simp: uniform_def fails_def)

lemma uniformI_prints:
  assumes "\<And>st b out. P st \<Longrightarrow> vs_sim b out st \<Longrightarrow>
    \<exists>st'. m st = Inr (x, st') \<and> vs_sim b (out @ new) st' \<and> vs_args st' = vs_args st \<and> vs_size st' = vs_size st"
  shows "uniform P m"
proof -
  have "prints P m args x new args" for args unfolding prints_def using assms by blast
  then show ?thesis unfolding uniform_def by blast
qed

lemma uniform_weaken: "uniform always m \<Longrightarrow> uniform P m"
proof -
  have "fails always m args e \<Longrightarrow> fails P m args e" for args e unfolding fails_def by blast
  moreover have "prints always m args x new args' \<Longrightarrow> prints P m args x new args'" for args x new args'
    unfolding prints_def by blast
  ultimately show "uniform always m \<Longrightarrow> uniform P m" unfolding uniform_def by blast
qed

lemma uniform_return [intro]: "uniform P (vs_return x)"
  by (rule uniformI_prints[of _ _ x "[]"]) (simp add: vs_return_def)

lemma uniform_lift [intro]: "uniform P (vs_lift r)"
proof (cases r)
  case (Inl e)
  then show ?thesis by (intro uniformI_fail) (simp add: vs_lift_def)
next
  case (Inr x)
  then show ?thesis by (intro uniformI_prints[of _ _ x "[]"]) (simp add: vs_lift_def)
qed

lemma fails_bind: "fails P m args e \<Longrightarrow> fails P (vs_bind m f) args e"
  by (simp add: fails_def vs_bind_def)

lemma prints_bind_fails:
  assumes "prints P m args x new args'" "fails always (f x) args' e"
  shows "fails P (vs_bind m f) args e"
  unfolding fails_def
proof (intro allI impI)
  fix st b out assume "P st" "vs_sim b out st" "vs_args st = args"
  then obtain st1 where "m st = Inr (x, st1)" "vs_sim b (out @ new) st1" "vs_args st1 = args'"
    using assms(1) unfolding prints_def by blast
  moreover from this have "f x st1 = Inl e" using assms(2) unfolding fails_def by blast
  ultimately show "vs_bind m f st = Inl e" by (simp add: vs_bind_def)
qed

lemma prints_bind:
  assumes "prints P m args x new args'" "prints always (f x) args' y new2 args2"
  shows "prints P (vs_bind m f) args y (new @ new2) args2"
  unfolding prints_def
proof (intro allI impI)
  fix st b out assume "P st" "vs_sim b out st" "vs_args st = args"
  then obtain st1 where st1: "m st = Inr (x, st1)" "vs_sim b (out @ new) st1" "vs_args st1 = args'" "vs_size st1 = vs_size st"
    using assms(1) unfolding prints_def by blast
  then obtain st2 where "f x st1 = Inr (y, st2)" "vs_sim b ((out @ new) @ new2) st2" "vs_args st2 = args2" "vs_size st2 = vs_size st1"
    using assms(2) unfolding prints_def by blast
  then show "\<exists>st'. vs_bind m f st = Inr (y, st') \<and> vs_sim b (out @ new @ new2) st' \<and> vs_args st' = args2 \<and> vs_size st' = vs_size st"
    using st1 by (simp add: vs_bind_def)
qed

lemma prints_seq:
  assumes "prints P m args x new args'" "prints always m2 args' y new2 args2"
  shows "prints P (vs_bind m (\<lambda>_. m2)) args y (new @ new2) args2"
  by (rule prints_bind[where f = "\<lambda>_. m2", OF assms])

lemma uniform_bind:
  assumes "uniform P m" "\<And>x. uniform always (f x)"
  shows "uniform P (vs_bind m f)"
  unfolding uniform_def
proof
  fix args
  note mu = assms(1)[unfolded uniform_def, THEN spec, of args]
  show "(\<exists>e. fails P (vs_bind m f) args e) \<or> (\<exists>x new args'. prints P (vs_bind m f) args x new args')"
  proof (cases "\<exists>e. fails P m args e")
    case True
    then obtain e where "fails P m args e" ..
    from fails_bind[OF this] show ?thesis by (rule disjI1[OF exI])
  next
    case False
    with mu obtain x new args' where ok: "prints P m args x new args'" by (elim disjE exE) simp_all
    note fu = assms(2)[of x, unfolded uniform_def, THEN spec, of args']
    show ?thesis
    proof (cases "\<exists>e. fails always (f x) args' e")
      case True
      then obtain e where "fails always (f x) args' e" ..
      from prints_bind_fails[where f = f, OF ok this] show ?thesis by (rule disjI1[OF exI])
    next
      case False
      with fu obtain y new2 args2 where "prints always (f x) args' y new2 args2" by (elim disjE exE) simp_all
      from prints_bind[where f = f, OF ok this] show ?thesis by (intro disjI2 exI)
    qed
  qed
qed

lemma vs_store_sim:
  assumes s: "vs_sim b out st" and w: "vs_written st < vs_size st" and k: "vs_keepWriting st"
  shows "\<exists>st'. vs_store c st = Inr st' \<and> vs_sim b (out @ [c]) (st'\<lparr>vs_total := vs_total st' + 1\<rparr>) \<and>
    vs_args st' = vs_args st \<and> vs_size st' = vs_size st"
proof -
  let ?n = "unat (vs_size st)"
  have l: "length out < ?n" "unat (vs_written st) = length out" "?n \<le> length b"
    using s w by (auto simp: vs_sim_def word_less_nat_alt)
  have u: "unat (vs_written st + 1) = Suc (length out)" using unat_Suc_no_wrap[OF w] l by simp
  have buf: "vs_buffer st = Some (overlay b 0 out)" using s l by (simp add: vs_sim_def)
  have "(overlay b 0 out)[length out := c] = overlay b 0 (out @ [c])" using overlay_snoc[of 0 out b c] l by simp
  then show ?thesis using s k l buf u by (simp add: vs_store_def vs_sim_def add.commute)
qed

lemma vs_put_sim:
  assumes s: "vs_sim b out st"
  shows "\<exists>st'. vs_put c st = Inr ((), st') \<and> vs_sim b (out @ [c]) st' \<and> vs_args st' = vs_args st \<and> vs_size st' = vs_size st"
proof (cases "vs_keepWriting st \<and> vs_written st < vs_size st")
  case True
  then show ?thesis using vs_store_sim[OF s, of c] by (auto simp: vs_put_def)
next
  case False
  then have "unat (vs_size st) \<le> length out"
    using s by (auto simp: vs_sim_def word_less_nat_alt)
  moreover have "vs_put c st = Inr ((), st\<lparr>vs_total := vs_total st + 1\<rparr>)" using False by (auto simp: vs_put_def)
  ultimately show ?thesis using s by (simp add: vs_sim_def add.commute)
qed

lemma uniform_put [intro]: "uniform P (vs_put c)"
  by (rule uniformI_prints[of _ _ "()" "[c]"]) (rule vs_put_sim)

lemma uniform_putOne: "uniform vs_fresh (vs_putOne c)"
proof (rule uniformI_prints[of _ _ "()" "[c]"])
  fix st b out assume f: "vs_fresh st" and s: "vs_sim b out st"
  show "\<exists>st'. vs_putOne c st = Inr ((), st') \<and> vs_sim b (out @ [c]) st' \<and> vs_args st' = vs_args st \<and> vs_size st' = vs_size st"
  proof (cases "vs_keepWriting st")
    case True
    then show ?thesis using vs_store_sim[OF s, of c] f by (auto simp: vs_putOne_def vs_fresh_def)
  next
    case False
    then show ?thesis using s by (simp add: vs_putOne_def vs_sim_def add.commute)
  qed
qed

lemma uniform_puts [intro]: "uniform P (vs_puts s)"
proof (induction s arbitrary: P)
  case (Cons c s)
  then show ?case by (simp add: uniform_bind uniform_put uniform_return)
qed (simp add: uniform_lift)

lemma uniform_pad [intro]: "uniform P (vs_pad c n)"
  by (induction n arbitrary: P) (simp_all add: uniform_bind uniform_put uniform_return)

lemma uniform_va_arg [intro]: "uniform P va_arg"
  unfolding uniform_def
proof
  fix args
  show "(\<exists>e. fails P va_arg args e) \<or> (\<exists>x new args'. prints P va_arg args x new args')"
  proof (cases args)
    case Nil
    then have "fails P va_arg args OutOfBounds" by (simp add: fails_def va_arg_def)
    then show ?thesis by blast
  next
    case (Cons x args')
    then have "prints P va_arg args x [] args'" by (simp add: prints_def va_arg_def vs_sim_def)
    then show ?thesis by blast
  qed
qed

lemma uniform_va_arg64 [intro]: "uniform P va_arg64"
  unfolding va_arg64_def by (intro uniform_bind uniform_va_arg uniform_return)

lemma uniform_numeral: "uniform P (vs_numeral stack scratch c n)"
proof -
  have "uniform P (vs_bind (if a then vs_bind va_arg f else if b then vs_bind va_arg64 g else vs_bind va_arg h)
      (\<lambda>(string, _). vs_return string))"
    if "\<And>x. uniform always (f x)" "\<And>x. uniform always (g x)" "\<And>x. uniform always (h x)"
    for a b and f h :: "u32 \<Rightarrow> (u8 list \<times> nat) vsn" and g
    using that
    by (intro uniform_bind) (auto intro!: uniform_bind uniform_va_arg uniform_va_arg64 uniform_return split: prod.splits)
  then show ?thesis unfolding vs_numeral_def Let_def by (simp add: uniform_lift)
qed

lemma uniform_number: "uniform P (vs_number stack scratch c n flags width)"
proof -
  have pad: "uniform always (if q then vs_pad x k else vs_return ())" for q x k
    by (simp add: uniform_pad uniform_return)
  show ?thesis unfolding vs_number_def vs_padded_def Let_def
    by (intro uniform_bind uniform_numeral uniform_puts uniform_lift pad)
qed

lemma uniform_store_n: "uniform always (\<lambda>st. Inr ((), st\<lparr>vs_stores := vs_stores st @ [(value, vs_written st)]\<rparr>))"
  by (rule uniformI_prints[of _ _ "()" "[]"]) (simp add: vs_sim_def)

lemma uniform_convert:
  assumes "c \<noteq> 0x63"
  shows "uniform vs_fresh (vs_convert mem stack scratch c n flags width)"
proof -
  have "uniform P (vs_bind va_arg (\<lambda>string. vs_puts (if string = NULL then null_string else mem string)))" for P
    by (intro uniform_bind uniform_va_arg uniform_puts)
  moreover have "uniform P (vs_bind va_arg (\<lambda>value st. Inr ((), st\<lparr>vs_stores := vs_stores st @ [(value, vs_written st)]\<rparr>)))" for P
    by (intro uniform_bind uniform_va_arg uniform_store_n)
  ultimately show ?thesis
    using assms unfolding vs_convert_def by (simp add: uniform_number uniform_putOne uniform_return)
qed

text \<open>The parts of the format that are left contain no other characters.\<close>

lemma vs_flags_set: "vs_flags f x = Inr (flags, f') \<Longrightarrow> set f' \<subseteq> set f"
  by (induction f arbitrary: x) (fastforce split: if_splits)+

lemma vs_width_set: "vs_width f x = Inr (width, f') \<Longrightarrow> set f' \<subseteq> set f"
  by (induction f arbitrary: x) (fastforce split: if_splits)+

lemma vs_length_set: "vs_length f = Inr (n, f') \<Longrightarrow> set f' \<subseteq> set f"
  by (cases f) (auto split: if_splits list.splits)

definition vs_refresh :: "vsn_state \<Rightarrow> vsn_state" where
  "vs_refresh st = (if vs_written st \<ge> vs_size st then st\<lparr>vs_keepWriting := False\<rparr> else st)"

lemma vs_refresh_sim:
  "vs_sim b out st \<Longrightarrow> vs_sim b out (vs_refresh st) \<and> vs_fresh (vs_refresh st) \<and>
     vs_args (vs_refresh st) = vs_args st \<and> vs_size (vs_refresh st) = vs_size st"
  by (auto simp: vs_refresh_def vs_sim_def vs_fresh_def word_le_nat_alt word_less_nat_alt)

lemma vs_parse_set:
  assumes "vs_parse f = Inr (flags, width, n, c, f')"
  shows "set (c # f') \<subseteq> set f"
proof -
  obtain f1 f2 where p: "vs_flags f 0 = Inr (flags, f1)" "vs_width f1 0 = Inr (width, f2)" "vs_length f2 = Inr (n, c # f')"
    using vs_parse_steps[OF assms] .
  show ?thesis by (rule order_trans[OF vs_length_set[OF p(3)] order_trans[OF vs_width_set[OF p(2)] vs_flags_set[OF p(1)]]])
qed

lemma prints_refresh:
  assumes "prints vs_fresh m args x new args'"
  shows "prints always (\<lambda>st. m (vs_refresh st)) args x new args'"
  using assms vs_refresh_sim unfolding prints_def by metis

lemma uniform_refresh:
  assumes "uniform vs_fresh m"
  shows "uniform always (\<lambda>st. m (vs_refresh st))"
proof -
  have "fails always (\<lambda>st. m (vs_refresh st)) args e" if "fails vs_fresh m args e" for args e
    using that vs_refresh_sim unfolding fails_def by metis
  moreover have "prints always (\<lambda>st. m (vs_refresh st)) args x new args'" if "prints vs_fresh m args x new args'" for args x new args'
    by (rule prints_refresh[OF that])
  ultimately show ?thesis unfolding uniform_def
  proof (intro allI)
    fix args
    note u = assms[unfolded uniform_def, THEN spec, of args]
    assume f: "\<And>args e. fails vs_fresh m args e \<Longrightarrow> fails always (\<lambda>st. m (vs_refresh st)) args e"
      and p: "\<And>args x new args'. prints vs_fresh m args x new args' \<Longrightarrow> prints always (\<lambda>st. m (vs_refresh st)) args x new args'"
    from u show "(\<exists>e. fails always (\<lambda>st. m (vs_refresh st)) args e) \<or>
        (\<exists>x new args'. prints always (\<lambda>st. m (vs_refresh st)) args x new args')"
    proof (elim disjE exE)
      fix e assume "fails vs_fresh m args e"
      from f[OF this] show ?thesis by (intro disjI1 exI)
    next
      fix x new args' assume "prints vs_fresh m args x new args'"
      from p[OF this] show ?thesis by (intro disjI2 exI)
    qed
  qed
qed

abbreviation vs_run :: "(ptr \<Rightarrow> u8 list) \<Rightarrow> u8 list \<Rightarrow> u8 list \<Rightarrow> u8 list \<Rightarrow> unit vsn" where
  "vs_run mem stack scratch f \<equiv> \<lambda>st. bind_res (vs_loop mem stack scratch f st) (\<lambda>st. Inr ((), st))"

lemma vs_run_plain:
  assumes "c \<noteq> 0" "c \<noteq> 0x25"
  shows "vs_run mem stack scratch (c # f) = (\<lambda>st. vs_bind (vs_putOne c) (\<lambda>_. vs_run mem stack scratch f) (vs_refresh st))"
proof
  fix st
  show "vs_run mem stack scratch (c # f) st = vs_bind (vs_putOne c) (\<lambda>_. vs_run mem stack scratch f) (vs_refresh st)"
    using assms by (simp add: vs_loop.simps vs_refresh_def vs_bind_def bind_res_assoc Let_def case_prod_unfold)
qed

lemma vs_run_directive:
  assumes "vs_parse f = Inr (flags, width, n, c, f')"
  shows "vs_run mem stack scratch (0x25 # f) =
    (\<lambda>st. vs_bind (vs_convert mem stack scratch c n flags width) (\<lambda>_. vs_run mem stack scratch f') (vs_refresh st))"
proof
  fix st
  show "vs_run mem stack scratch (0x25 # f) st =
    vs_bind (vs_convert mem stack scratch c n flags width) (\<lambda>_. vs_run mem stack scratch f') (vs_refresh st)"
    using assms
    by (simp add: vs_loop.simps vs_refresh_def vs_directive_def vs_bind_def vs_lift_def vs_return_def bind_res_assoc Let_def case_prod_unfold)
qed

lemma vs_run_bad_directive: "vs_parse f = Inl e \<Longrightarrow> vs_run mem stack scratch (0x25 # f) st = Inl e"
  by (simp add: vs_loop.simps vs_directive_def vs_bind_def vs_lift_def Let_def)

lemma uniform_run: "0x63 \<notin> set f \<Longrightarrow> uniform always (vs_run mem stack scratch f)"
proof (induction "length f" arbitrary: f rule: less_induct)
  case less
  consider "f = []" | (nul) f1 where "f = 0 # f1" | (plain) c f1 where "f = c # f1" "c \<noteq> 0" "c \<noteq> 0x25"
    | (bad) f1 e where "f = 0x25 # f1" "vs_parse f1 = Inl e"
    | (conv) f1 flags width n c f' where "f = 0x25 # f1" "vs_parse f1 = Inr (flags, width, n, c, f')"
  proof (cases f)
    case (Cons c f1)
    show ?thesis
    proof (cases "vs_parse f1")
      case (Inl e)
      then show ?thesis using Cons that(2)[of f1] that(3)[of c f1] that(4)[of f1 e] by auto
    next
      case (Inr r)
      obtain flags width n d f' where "r = (flags, width, n, d, f')" by (cases r)
      then show ?thesis using Inr Cons that(2)[of f1] that(3)[of c f1] that(5)[of f1 flags width n d f'] by auto
    qed
  qed (rule that(1))
  then show ?case
  proof cases
    case 1
    then show ?thesis by (intro uniformI_fail[of _ OutOfBounds]) (simp add: vs_loop.simps)
  next
    case nul
    then show ?thesis using uniform_return[of always "()"] by (simp add: vs_loop.simps vs_return_def)
  next
    case plain
    have "uniform vs_fresh (vs_bind (vs_putOne c) (\<lambda>_. vs_run mem stack scratch f1))"
      using less plain by (intro uniform_bind uniform_putOne less.hyps) simp_all
    from uniform_refresh[OF this] show ?thesis using plain vs_run_plain by simp
  next
    case bad
    then show ?thesis using vs_run_bad_directive by (intro uniformI_fail[of _ e]) simp
  next
    case conv
    have f': "length f' < length f" "set (c # f') \<subseteq> set f"
      using vs_parse_length[OF conv(2)] vs_parse_set[OF conv(2)] conv(1) by auto
    have "uniform vs_fresh (vs_bind (vs_convert mem stack scratch c n flags width) (\<lambda>_. vs_run mem stack scratch f'))"
      using less.prems f' by (intro uniform_bind uniform_convert less.hyps) auto
    from uniform_refresh[OF this] show ?thesis using conv vs_run_directive[OF conv(2)] by simp
  qed
qed

text \<open>What the parts of a number conversion print.\<close>

lemma prints_lift: "prints P (vs_lift (Inr x)) args x [] args"
  by (simp add: prints_def vs_lift_def)

lemma prints_return: "prints P (vs_return x) args x [] args"
  by (simp add: prints_def vs_return_def)

lemma prints_va_arg: "prints P va_arg (x # args) x [] args"
  by (simp add: prints_def va_arg_def vs_sim_def)

lemma prints_put: "prints P (vs_put c) args () [c] args"
  unfolding prints_def
proof (intro allI impI)
  fix st b out assume s: "vs_sim b out st" and a: "vs_args st = args"
  show "\<exists>st'. vs_put c st = Inr ((), st') \<and> vs_sim b (out @ [c]) st' \<and> vs_args st' = args \<and> vs_size st' = vs_size st"
    using vs_put_sim[OF s, of c] a by simp
qed

lemma prints_puts: "0 \<notin> set s \<Longrightarrow> prints P (vs_puts (cstr s r)) args () s args"
proof (induction s arbitrary: P)
  case Nil
  then show ?case by (simp add: prints_return)
next
  case (Cons c s)
  have "prints P (vs_bind (vs_put c) (\<lambda>_. vs_puts (cstr s r))) args () ([c] @ s) args"
    by (rule prints_bind[OF prints_put]) (use Cons in simp)
  then show ?case using Cons.prems by simp
qed

lemma prints_pad: "prints P (vs_pad c n) args () (replicate n c) args"
proof (induction n arbitrary: P)
  case (Suc n)
  have "prints P (vs_bind (vs_put c) (\<lambda>_. vs_pad c n)) args () ([c] @ replicate n c) args"
    by (rule prints_bind[OF prints_put Suc])
  then show ?case by simp
qed (simp add: prints_return)

definition number_chars :: "u8 \<Rightarrow> u32 \<Rightarrow> u8 list" where
  "number_chars c value =
     (if c = 0x70 then signed_chars False 16 (uint value)
      else if c = 0x75 then signed_chars False 10 (uint value)
      else if c = 0x78 then signed_chars True 16 (uint value)
      else if c = 0x58 then signed_chars False 16 (sint value)
      else signed_chars False 10 (sint value))"

lemma signed_chars_nonzero: "2 \<le> base \<Longrightarrow> base \<le> 36 \<Longrightarrow> 0 \<notin> set (signed_chars lowerCase base v)"
  using numeral_chars_nonzero[of base lowerCase "nat \<bar>v\<bar>"] by (simp add: signed_chars_def)

lemma number_chars_nonzero: "0 \<notin> set (number_chars c value)"
  by (simp add: number_chars_def signed_chars_nonzero)

definition padded :: "u32 \<Rightarrow> u32 \<Rightarrow> u8 list \<Rightarrow> u8 list" where
  "padded flags width cs =
     (let fill = nat (sint (width - word_of_nat (length cs))) in
      if flags AND kVsnprintfFlagRightAlign = 0
      then replicate fill (if flags AND kVsnprintfZeroPad \<noteq> 0 then 0x30 else 0x20) @ cs
      else cs @ replicate fill 0x20)"

lemma vs_numeral_prints:
  assumes "c \<in> {0x69, 0x64, 0x70, 0x78, 0x58, 0x75}" "n \<noteq> 8" "stack_ok stack" "66 < length scratch" "sint value \<noteq> - (2 ^ 31)"
  shows "prints P (vs_numeral stack scratch c n) (value # args) (overlay scratch 0 (number_chars c value @ [0])) [] args"
proof -
  define g where "g = (\<lambda>value. if c = 0x70 then uitostr stack value 16 scratch False
     else if c = 0x75 then uitostr stack value 10 scratch False
     else if c = 0x78 then uitostr stack value 16 scratch True
     else itostr stack value (if c = 0x58 then 16 else 10) scratch False)"
  let ?cs = "number_chars c value"
  have r: "g value = Inr (overlay scratch 0 (?cs @ [0]), length ?cs)"
    using uitostr_spec[OF _ _ assms(3,4)] itostr_spec[OF _ _ assms(3-5)] by (simp add: g_def number_chars_def)
  have e: "vs_numeral stack scratch c n = vs_bind (vs_bind va_arg (\<lambda>value. vs_lift (g value))) (\<lambda>(string, _). vs_return string)"
    using assms(1,2) by (elim insertE) (simp_all add: vs_numeral_def g_def)
  have 1: "prints P (vs_bind va_arg (\<lambda>value. vs_lift (g value))) (value # args)
     (overlay scratch 0 (?cs @ [0]), length ?cs) ([] @ []) args"
    by (rule prints_bind[OF prints_va_arg]) (simp only: r prints_lift)
  have 2: "prints always ((\<lambda>(string, _). vs_return string) (overlay scratch 0 (?cs @ [0]), length ?cs)) args
     (overlay scratch 0 (?cs @ [0])) [] args"
    by (simp add: prints_return)
  show ?thesis using prints_bind[where f = "\<lambda>(string, _). vs_return string", OF 1 2] by (simp add: e)
qed

lemma vs_padded_prints:
  "prints P (vs_padded c flags width (cstr cs rest)) args ()
     ((if c = 0x70 then [0x30, 0x78] else []) @ padded flags width cs) args" if nz: "0 \<notin> set cs"
proof -
  let ?fill = "nat (sint (width - word_of_nat (length cs)))"
  let ?left = "if flags AND kVsnprintfFlagRightAlign = 0
     then vs_pad (if flags AND kVsnprintfZeroPad \<noteq> 0 then 0x30 else 0x20) ?fill else vs_return ()"
  let ?right = "if flags AND kVsnprintfFlagRightAlign \<noteq> 0 then vs_pad 0x20 ?fill else vs_return ()"
  let ?l = "if flags AND kVsnprintfFlagRightAlign = 0
     then replicate ?fill (if flags AND kVsnprintfZeroPad \<noteq> 0 then 0x30 else 0x20) else []"
  let ?r = "if flags AND kVsnprintfFlagRightAlign \<noteq> 0 then replicate ?fill 0x20 else []"
  have l: "prints always ?left args () ?l args" and r: "prints always ?right args () ?r args"
    by (simp_all add: prints_pad prints_return)
  have pre: "prints P (vs_puts (if c = 0x70 then [0x30, 0x78, 0] else [0])) args () (if c = 0x70 then [0x30, 0x78] else []) args"
    using prints_puts[of "[0x30, 0x78]" P "[]" args] prints_puts[of "[]" P "[]" args] by simp
  have body: "prints always (vs_bind ?left (\<lambda>_. vs_bind (vs_puts (cstr cs rest)) (\<lambda>_. ?right))) args () (?l @ cs @ ?r) args"
    by (rule prints_seq[OF l prints_seq[OF prints_puts[OF nz] r]])
  have "prints P (vs_padded c flags width (cstr cs rest)) args ()
     ((if c = 0x70 then [0x30, 0x78] else []) @ [] @ ?l @ cs @ ?r) args"
    unfolding vs_padded_def strlen_cstr[OF nz]
    by (rule prints_seq[OF pre], rule prints_bind[OF prints_lift]) (simp only: Let_def body)
  moreover have "?l @ cs @ ?r = padded flags width cs" by (simp add: padded_def Let_def)
  ultimately show ?thesis by simp
qed

lemma vs_number_prints:
  assumes "c \<in> {0x69, 0x64, 0x70, 0x78, 0x58, 0x75}" "n \<noteq> 8" "stack_ok stack" "66 < length scratch" "sint value \<noteq> - (2 ^ 31)"
  shows "prints P (vs_number stack scratch c n flags width) (value # args) ()
    ((if c = 0x70 then [0x30, 0x78] else []) @ padded flags width (number_chars c value)) args"
proof -
  obtain rest where str: "overlay scratch 0 (number_chars c value @ [0]) = cstr (number_chars c value) rest"
    by (simp add: overlay_def cstr_def)
  show ?thesis
    unfolding vs_number_def
    using prints_bind[where f = "vs_padded c flags width", OF vs_numeral_prints[OF assms], unfolded str,
        OF vs_padded_prints[OF number_chars_nonzero]] by simp
qed

section \<open>Properties\<close>

definition vs_start :: "u8 list option \<Rightarrow> u32 \<Rightarrow> u32 list \<Rightarrow> vsn_state" where
  "vs_start buffer sz args = \<lparr>vs_buffer = buffer, vs_size = sz, vs_written = 0, vs_total = 0, vs_keepWriting = True,
     vs_args = args, vs_stores = []\<rparr>"

lemma vs_start_sim: "unat sz \<le> length buffer \<Longrightarrow> vs_sim buffer [] (vs_start (Some buffer) sz args)"
  by (simp add: vs_sim_def vs_start_def)

lemma vsnprintf_fails:
  assumes "fails always (vs_run mem stack scratch format) args e" "unat sz \<le> length buffer"
  shows "vsnprintf mem stack scratch (Some buffer) sz format args = Inl e"
proof -
  have "vs_run mem stack scratch format (vs_start (Some buffer) sz args) = Inl e"
  proof -
    have "vs_args (vs_start (Some buffer) sz args) = args" by (simp add: vs_start_def)
    then show ?thesis using assms(1) vs_start_sim[OF assms(2), of args] unfolding fails_def by blast
  qed
  then show ?thesis
    unfolding vsnprintf_def vs_start_def[symmetric] by (auto simp: bind_res_def split: sum.splits)
qed

lemma overlay_replace_last: "(overlay b 0 (xs @ [x]))[length xs := y] = overlay b 0 (xs @ [y])"
  by (simp add: overlay_def list_update_append)

lemma vs_finish:
  assumes s: "vs_sim buffer out st" and pos: "0 < unat (vs_size st)"
  shows "(case vs_buffer st of None \<Rightarrow> Inr (None, vs_total st, vs_stores st)
     | Some buffer \<Rightarrow>
         (let index = (if vs_written st \<ge> vs_size st then vs_written st - 1 else vs_written st) in
          bind_res (write_cell buffer (unat index) 0) (\<lambda>buffer. Inr (Some buffer, vs_total st, vs_stores st)))) =
    Inr (Some (overlay buffer 0 (take (unat (vs_size st) - 1) out @ [0])), word_of_nat (length out), vs_stores st)"
proof -
  let ?n = "unat (vs_size st)"
  have b: "?n \<le> length buffer" "vs_buffer st = Some (overlay buffer 0 (take ?n out))"
    "unat (vs_written st) = min ?n (length out)" "vs_total st = word_of_nat (length out)"
    using s by (auto simp: vs_sim_def)
  show ?thesis
  proof (cases "?n \<le> length out")
    case True
    then have w: "vs_written st \<ge> vs_size st" "unat (vs_written st - 1) = ?n - 1"
      using b(3) pos unat_pred_pos[of "vs_written st"] by (auto simp: word_le_nat_alt)
    have "take ?n out = take (?n - 1) out @ [out ! (?n - 1)]"
      using True pos take_Suc_conv_app_nth[of "?n - 1" out] by simp
    then have "(overlay buffer 0 (take ?n out))[?n - 1 := 0] = overlay buffer 0 (take (?n - 1) out @ [0])"
      using overlay_replace_last[of buffer "take (?n - 1) out"] True pos by simp
    moreover have "?n - 1 < length (overlay buffer 0 (take ?n out))" using b(1) pos True by simp
    ultimately show ?thesis using b w by simp
  next
    case False
    then have w: "\<not> vs_written st \<ge> vs_size st" "unat (vs_written st) = length out"
      using b(3) by (auto simp: word_le_nat_alt)
    then show ?thesis using b False overlay_snoc[of 0 out buffer 0] by simp
  qed
qed

lemma vsnprintf_prints:
  assumes "prints always (vs_run mem stack scratch format) args () new args'" "0 < unat sz" "unat sz \<le> length buffer"
  shows "\<exists>stores. vsnprintf mem stack scratch (Some buffer) sz format args =
    Inr (Some (overlay buffer 0 (take (unat sz - 1) new @ [0])), word_of_nat (length new), stores)"
proof -
  obtain st' where st': "vs_run mem stack scratch format (vs_start (Some buffer) sz args) = Inr ((), st')"
    "vs_sim buffer ([] @ new) st'" "vs_size st' = sz"
    using assms(1) vs_start_sim[OF assms(3), of args] unfolding prints_def by (fastforce simp: vs_start_def)
  have "vs_loop mem stack scratch format (vs_start (Some buffer) sz args) = Inr st'"
    using st'(1) by (auto simp: bind_res_def split: sum.splits)
  then show ?thesis
    using vs_finish[of buffer new st'] st'(2,3) assms(2) unfolding vsnprintf_def vs_start_def[symmetric] by simp
qed





text \<open>
  Two ways to leave the objects. A size of 0 with a buffer puts the terminator at index 4294967295. A
  percent sign at the end of the format makes the loop step over the terminator of the format and go
  on with the bytes behind it.
\<close>

theorem vsnprintf_leaves_objects:
  assumes "length buffer < 4294967295" "0x63 \<notin> set format"
  shows "(\<exists>e. vsnprintf mem stack scratch (Some buffer) 0 format args = Inl e) \<and>
    (st = vs_start buf sz args \<longrightarrow> 0 < sz \<longrightarrow>
       vs_loop mem stack scratch (0x25 # 0 # rest) st = vs_loop mem stack scratch rest st)"
proof (intro conjI impI)
  note u = uniform_run[OF assms(2), of mem stack scratch, unfolded uniform_def, THEN spec, of args]
  show "\<exists>e. vsnprintf mem stack scratch (Some buffer) 0 format args = Inl e"
  proof (cases "\<exists>e. fails always (vs_run mem stack scratch format) args e")
    case True
    then show ?thesis using vsnprintf_fails[of mem stack scratch format args _ 0 buffer] by auto
  next
    case False
    with u obtain x new args' where p: "prints always (vs_run mem stack scratch format) args x new args'"
      by (elim disjE exE) simp_all
    have s0: "vs_sim buffer [] (vs_start (Some buffer) 0 args)" by (rule vs_start_sim) simp
    have "vs_args (vs_start (Some buffer) 0 args) = args" "vs_size (vs_start (Some buffer) 0 args) = 0"
      by (simp_all add: vs_start_def)
    then obtain st' where st': "vs_run mem stack scratch format (vs_start (Some buffer) 0 args) = Inr (x, st')"
      "vs_sim buffer ([] @ new) st'" "vs_size st' = 0"
      using p s0 unfolding prints_def by metis
    have "vs_loop mem stack scratch format (vs_start (Some buffer) 0 args) = Inr st'"
      using st'(1) by (auto simp: bind_res_def split: sum.splits)
    moreover have "vs_buffer st' = Some buffer" "vs_written st' = 0" using st'(2,3) by (auto simp: vs_sim_def unat_eq_zero)
    ultimately show ?thesis
      using assms(1) st'(3) unsigned_minus_1_eq_mask[where ?'a = nat and ?'b = 32]
      unfolding vsnprintf_def vs_start_def[symmetric] by (simp add: write_cell_def Let_def mask_eq_exp_minus_1)
  qed
next
  assume st: "st = vs_start buf sz args" "0 < sz"
  have "vs_parse (0 # rest) = Inr (0, 0, 4, 0, rest)" by (simp add: vs_parse_def isdigit_def)
  then show "vs_loop mem stack scratch (0x25 # 0 # rest) st = vs_loop mem stack scratch rest st"
    using st by (subst vs_loop.simps) (simp add: vs_directive_def vs_bind_def vs_lift_def vs_convert_def vs_return_def vs_start_def Let_def word_le_nat_alt word_less_nat_alt)
qed

theorem vsnprintf_leaves_objects_witness:
  "\<exists>e. vsnprintf (\<lambda>_. []) [] [] (Some [1]) 0 [0] [] = Inl e"
  using vsnprintf_leaves_objects[of "[1]" "[0]" "\<lambda>_. []" "[]" "[]" "[]"] by simp

end
