(* ===== verification/Scheduler.thy ===== *)
theory Scheduler
  imports Prelude
begin

text \<open>
  \<^verbatim>\<open>src/sys/scheduler/scheduler.c\<close> and the parts of \<^verbatim>\<open>thread.c\<close> that the scheduler depends on. Threads and
  processes are records in two stores, addressed by pointers. The linked list of processes that
  starts at \<^verbatim>\<open>_process_firstProcess\<close>, the list of threads that starts at a process' main thread and the
  two lists of dead objects are lists of pointers in the order of the \<^verbatim>\<open>next\<close> fields.
\<close>

section \<open>State\<close>

datatype thread_event = thread_eventDidExit

record thread_listener =
  l_node :: ptr
  l_event :: thread_event
  l_listener :: ptr
  l_blocks :: bool
  l_oneShot :: bool
  l_callback :: ptr

record thread_t =
  t_id :: u32
  t_entry :: ptr
  t_lock :: spinlock
  t_maxTicks :: u8
  t_usedTicks :: u8
  t_wantedTicks :: u8
  t_blocks :: u8
  t_wasNice :: bool
  t_died :: bool
  t_userStackPages :: u32
  t_userStack :: ptr
  t_userStackVirt :: ptr
  t_kernelStack :: ptr
  t_kernelStackVirt :: ptr
  t_esp :: u32
  t_arguments :: ptr
  t_argumentCount :: u32
  t_name :: ptr
  t_watched :: bool
  t_list :: ptr
  t_listener :: "thread_listener list"
  t_tlsVirtual :: ptr
  t_tlsPages :: u32
  t_sleeping :: bool
  t_alarm :: "64 word"
  t_process :: ptr

record process_t =
  p_pdirectory :: ptr
  p_context :: ptr
  p_pid :: u32
  p_parent :: u32
  p_lock :: spinlock
  p_died :: bool
  p_ring0 :: bool
  p_threadLock :: spinlock
  p_threads :: "ptr list"
  p_scheduledThread :: ptr
  p_threadCounter :: u32
  p_startTime :: "64 word"
  p_usedTime :: "64 word"
  p_image :: ptr
  p_mappings :: ptr
  p_files :: "ptr list"
  p_openFiles :: u32
  p_pprocess :: ptr

record sched =
  sd_threads :: "ptr \<Rightarrow> thread_t"
  sd_procs :: "ptr \<Rightarrow> process_t"
  sd_processes :: "ptr list"
  sd_currentProcess :: ptr
  sd_deadProcesses :: "ptr list"
  sd_deadThreads :: "ptr list"
  sd_lock :: spinlock
  sd_pagedir :: ptr
  sd_esp0 :: u32

definition sizeof_cpu_state_t :: u32 where "sizeof_cpu_state_t = 76"

definition thread_update :: "ptr \<Rightarrow> (thread_t \<Rightarrow> thread_t) \<Rightarrow> sched \<Rightarrow> sched" where
  "thread_update t f st = st\<lparr>sd_threads := (sd_threads st)(t := f (sd_threads st t))\<rparr>"

definition process_update :: "ptr \<Rightarrow> (process_t \<Rightarrow> process_t) \<Rightarrow> sched \<Rightarrow> sched" where
  "process_update p f st = st\<lparr>sd_procs := (sd_procs st)(p := f (sd_procs st p))\<rparr>"

abbreviation mainThread :: "sched \<Rightarrow> ptr \<Rightarrow> ptr" where
  "mainThread st p \<equiv> hd (p_threads (sd_procs st p))"

abbreviation scheduledThread :: "sched \<Rightarrow> ptr \<Rightarrow> ptr" where
  "scheduledThread st p \<equiv> p_scheduledThread (sd_procs st p)"

text \<open>\<^verbatim>\<open>x->next ? x->next : first\<close> and the search for the predecessor.\<close>

fun next_or_first :: "ptr list \<Rightarrow> ptr list \<Rightarrow> ptr \<Rightarrow> ptr" where
  "next_or_first first [] x = hd first"
| "next_or_first first [y] x = hd first"
| "next_or_first first (y # z # ys) x = (if y = x then z else next_or_first first (z # ys) x)"

fun sd_previous :: "ptr list \<Rightarrow> ptr \<Rightarrow> ptr option" where
  "sd_previous (y # z # ys) x = (if z = x then Some y else sd_previous (z # ys) x)"
| "sd_previous ys x = None"

definition process_next :: "sched \<Rightarrow> ptr \<Rightarrow> ptr" where
  "process_next st p = next_or_first (sd_processes st) (sd_processes st) p"

definition thread_next :: "sched \<Rightarrow> ptr \<Rightarrow> ptr \<Rightarrow> ptr" where
  "thread_next st p t = next_or_first (p_threads (sd_procs st p)) (p_threads (sd_procs st p)) t"

section \<open>The scheduler\<close>

text \<open>
  The first part of \<^verbatim>\<open>sd_schedule\<close>: a dead process or thread leaves its list. The search for the
  predecessor of the first process returns \<^verbatim>\<open>NULL\<close>, which is then written through.
\<close>

definition sd_reap :: "sched \<Rightarrow> ptr \<Rightarrow> ptr \<Rightarrow> (sched \<times> ptr \<times> ptr) result" where
  "sd_reap st process thread =
     (if p_died (sd_procs st process) \<or> t_died (sd_threads st thread) then
        (if p_died (sd_procs st process) \<or> thread = mainThread st process then
           (case sd_previous (sd_processes st) process of
              None \<Rightarrow> Inl OutOfBounds
            | Some previous \<Rightarrow>
                (let next_process = process_next st process;
                     st = st\<lparr>sd_processes := remove1 process (sd_processes st),
                             sd_deadProcesses := process # sd_deadProcesses st\<rparr>
                 in Inr (st, next_process, scheduledThread st next_process)))
         else
           (case sd_previous (p_threads (sd_procs st process)) thread of
              None \<Rightarrow> Inl OutOfBounds
            | Some previous \<Rightarrow>
                (let next_thread = thread_next st process thread;
                     st = process_update process (\<lambda>p. p\<lparr>p_threads := remove1 thread (p_threads p),
                            p_scheduledThread := next_thread\<rparr>) st
                 in Inr (st\<lparr>sd_deadThreads := thread # sd_deadThreads st\<rparr>, process, next_thread))))
      else Inr (st, process, thread))"

text \<open>The condition of the loop.\<close>

definition must_switch :: "thread_t \<Rightarrow> bool" where
  "must_switch t \<longleftrightarrow> t_usedTicks t \<ge> t_wantedTicks t \<or> t_blocks t > 0 \<or> t_died t"

text \<open>The body of the loop up to the break: the ticks are reset and a sleeper whose time has come is woken.\<close>

definition sd_wake :: "64 word \<Rightarrow> thread_t \<Rightarrow> thread_t" where
  "sd_wake now t =
     (let t = t\<lparr>t_usedTicks := 0\<rparr> in
      if t_sleeping t \<and> sint now \<ge> sint (t_alarm t)
      then t\<lparr>t_sleeping := False, t_blocks := t_blocks t - 1\<rparr> else t)"

definition sd_breaks :: "64 word \<Rightarrow> thread_t \<Rightarrow> bool" where
  "sd_breaks now t \<longleftrightarrow> t_sleeping t \<and> sint now \<ge> sint (t_alarm t) \<and> t_blocks t - 1 = 0 \<and> t_died t"

definition sd_advance :: "sched \<Rightarrow> ptr \<Rightarrow> ptr \<Rightarrow> sched \<times> ptr \<times> ptr" where
  "sd_advance st process thread =
     (let st = process_update process (\<lambda>p. p\<lparr>p_scheduledThread := thread_next st process thread\<rparr>) st;
          process = process_next st process
      in (st, process, scheduledThread st process))"

text \<open>The end of \<^verbatim>\<open>sd_schedule\<close>: the chosen thread is installed and the lock released.\<close>

definition sd_finish :: "sched \<Rightarrow> ptr \<Rightarrow> ptr \<Rightarrow> sched" where
  "sd_finish st process thread =
     (thread_update thread (\<lambda>t. t\<lparr>t_wasNice := False\<rparr>)
        (st\<lparr>sd_currentProcess := process, sd_pagedir := p_pdirectory (sd_procs st process),
            sd_esp0 := t_esp (sd_threads st thread) + sizeof_cpu_state_t\<rparr>))
     \<lparr>sd_lock := spinlock_unlock (sd_lock st)\<rparr>"

text \<open>
  One step of the function: from its start (\<open>None\<close>, also after the recursive call for a process that
  was killed by another one) into the loop, one pass of the loop, or the end.
\<close>

datatype sd_outcome = Continue "(ptr \<times> ptr) option" sched | Return u32 sched

definition sd_step :: "64 word \<Rightarrow> (ptr \<times> ptr) option \<Rightarrow> sched \<Rightarrow> sd_outcome result" where
  "sd_step now at st =
     (case at of
        None \<Rightarrow>
          (let process = sd_currentProcess st in
           bind_res (sd_reap st process (scheduledThread st process)) (\<lambda>(st, process, thread).
           Inr (Continue (Some (process, thread))
             (thread_update thread (\<lambda>t. t\<lparr>t_usedTicks := t_usedTicks t + 1\<rparr>) st))))
      | Some (process, thread) \<Rightarrow>
          (let t = sd_threads st thread in
           if must_switch t then
             (let st = thread_update thread (sd_wake now) st in
              if sd_breaks now t then Inr (Return (t_esp t) (sd_finish st process thread))
              else
                (case sd_advance st process thread of
                   (st, process, thread) \<Rightarrow>
                     if p_died (sd_procs st process)
                     then Inr (Continue None (st\<lparr>sd_currentProcess := process\<rparr>))
                     else Inr (Continue (Some (process, thread)) st)))
           else Inr (Return (t_esp t) (sd_finish st process thread))))"

partial_function (option) sd_run :: "64 word \<Rightarrow> (ptr \<times> ptr) option \<Rightarrow> sched \<Rightarrow> (u32 \<times> sched) result option" where
  "sd_run now at st =
     (case sd_step now at st of
        Inl e \<Rightarrow> Some (Inl e)
      | Inr (Return esp st) \<Rightarrow> Some (Inr (esp, st))
      | Inr (Continue at st) \<Rightarrow> sd_run now at st)"

definition sd_schedule :: "64 word \<Rightarrow> u32 \<Rightarrow> sched \<Rightarrow> (u32 \<times> sched) result option" where
  "sd_schedule now esp st =
     (let thread = scheduledThread st (sd_currentProcess st) in
      if esp \<noteq> 0 then
        (case spinlock_tryLock (sd_lock st) of
           (False, _) \<Rightarrow> Some (Inr (esp, st))
         | (True, lck) \<Rightarrow> sd_run now None (thread_update thread (\<lambda>t. t\<lparr>t_esp := esp\<rparr>) (st\<lparr>sd_lock := lck\<rparr>)))
      else sd_run now None st)"

definition sd_schedule_kernel :: "64 word \<Rightarrow> u32 \<Rightarrow> sched \<Rightarrow> (u32 \<times> sched) result option" where
  "sd_schedule_kernel now esp st =
     sd_schedule now esp
       (thread_update (scheduledThread st (sd_currentProcess st))
          (\<lambda>t. t\<lparr>t_wasNice := True, t_usedTicks := t_wantedTicks t\<rparr>) st)"

text \<open>The dead objects are handed over to the kernel daemon, which destroys them.\<close>

definition process_getCollectableProcesses :: "sched \<Rightarrow> (ptr list \<times> sched) result" where
  "process_getCollectableProcesses st =
     bind_res (spinlock_lock (sd_lock st)) (\<lambda>lck.
     Inr (sd_deadProcesses st, st\<lparr>sd_deadProcesses := [], sd_lock := spinlock_unlock lck\<rparr>))"

definition thread_getCollectableThreads :: "sched \<Rightarrow> (ptr list \<times> sched) result" where
  "thread_getCollectableThreads st =
     bind_res (spinlock_lock (sd_lock st)) (\<lambda>lck.
     Inr (sd_deadThreads st, st\<lparr>sd_deadThreads := [], sd_lock := spinlock_unlock lck\<rparr>))"

definition thread_getCurrentThread :: "sched \<Rightarrow> ptr" where
  "thread_getCurrentThread st = scheduledThread st (sd_currentProcess st)"

definition process_setFirstProcess :: "ptr \<Rightarrow> sched \<Rightarrow> sched" where
  "process_setFirstProcess process st = st\<lparr>sd_processes := [process], sd_currentProcess := process\<rparr>"

text \<open>
  The effect of \<^verbatim>\<open>sd_threadExit\<close> before it gives the processor away for good, and of switching the
  scheduler off, which takes its lock and never releases it.
\<close>

definition sd_threadExit :: "sched \<Rightarrow> sched" where
  "sd_threadExit st = thread_update (thread_getCurrentThread st) (\<lambda>t. t\<lparr>t_died := True\<rparr>) st"

definition sd_disableScheduler :: "sched \<Rightarrow> sched result" where
  "sd_disableScheduler st =
     bind_res (spinlock_lock (sd_lock st)) (\<lambda>lck. Inr (st\<lparr>sd_lock := lck\<rparr>))"

section \<open>Rings\<close>

definition pos :: "'a list \<Rightarrow> 'a \<Rightarrow> nat" where
  "pos xs x = length (takeWhile (\<lambda>y. y \<noteq> x) xs)"

lemma pos_less: "x \<in> set xs \<Longrightarrow> pos xs x < length xs"
  unfolding pos_def by (induction xs) auto

lemma nth_pos: "x \<in> set xs \<Longrightarrow> xs ! pos xs x = x"
  unfolding pos_def by (induction xs) auto

lemma pos_nth: "distinct xs \<Longrightarrow> i < length xs \<Longrightarrow> pos xs (xs ! i) = i"
  unfolding pos_def
proof (induction xs arbitrary: i)
  case (Cons x xs)
  then show ?case by (cases i) auto
qed simp

lemma next_or_first_nth:
  "distinct xs \<Longrightarrow> i < length xs \<Longrightarrow>
   next_or_first first xs (xs ! i) = (if Suc i < length xs then xs ! Suc i else hd first)"
proof (induction first xs "xs ! i" arbitrary: i rule: next_or_first.induct)
  case (3 first y z ys)
  show ?case
  proof (cases i)
    case 0
    then show ?thesis by simp
  next
    case (Suc j)
    then have "y \<noteq> (y # z # ys) ! i" using "3.prems" by (auto simp: nth_Cons' split: if_splits)
    then show ?thesis using "3.hyps"[of j] "3.prems" Suc by simp
  qed
qed auto

definition ring_next :: "ptr list \<Rightarrow> ptr \<Rightarrow> ptr" where
  "ring_next xs x = next_or_first xs xs x"

lemma ring_next:
  assumes "distinct xs" "x \<in> set xs"
  shows "ring_next xs x \<in> set xs" "pos xs (ring_next xs x) = (pos xs x + 1) mod length xs"
proof -
  let ?i = "pos xs x"
  have i: "?i < length xs" "xs ! ?i = x" using pos_less[OF assms(2)] nth_pos[OF assms(2)] by auto
  have e: "ring_next xs x = xs ! ((?i + 1) mod length xs)"
  proof (cases "Suc ?i < length xs")
    case True
    then show ?thesis using next_or_first_nth[OF assms(1) i(1), of xs] i by (simp add: ring_next_def)
  next
    case False
    then have "Suc ?i = length xs" using i by simp
    moreover have "xs \<noteq> []" using i by auto
    ultimately show ?thesis
      using next_or_first_nth[OF assms(1) i(1), of xs] i by (simp add: ring_next_def hd_conv_nth)
  qed
  have l: "(?i + 1) mod length xs < length xs" using i(1) by (intro mod_less_divisor) linarith
  show "ring_next xs x \<in> set xs" unfolding e by (rule nth_mem[OF l])
  show "pos xs (ring_next xs x) = (?i + 1) mod length xs" unfolding e by (rule pos_nth[OF assms(1) l])
qed

text \<open>How far it is from one position of a ring to another.\<close>

definition cyc :: "nat \<Rightarrow> nat \<Rightarrow> nat \<Rightarrow> nat" where
  "cyc n i j = (if i \<le> j then j - i else j + n - i)"

lemma cyc_step:
  "i < n \<Longrightarrow> j < n \<Longrightarrow> cyc n ((i + 1) mod n) j = (if i = j then n - 1 else cyc n i j - 1)"
  "i < n \<Longrightarrow> j < n \<Longrightarrow> i \<noteq> j \<Longrightarrow> 0 < cyc n i j"
  "i < n \<Longrightarrow> j < n \<Longrightarrow> cyc n i j < n"
proof -
  show "cyc n ((i + 1) mod n) j = (if i = j then n - 1 else cyc n i j - 1)" if "i < n" "j < n"
  proof (cases "i + 1 = n")
    case True
    then show ?thesis using that by (auto simp: cyc_def)
  next
    case False
    then have "(i + 1) mod n = i + 1" using that by simp
    then show ?thesis using that False by (auto simp: cyc_def)
  qed
qed (auto simp: cyc_def)

lemma sd_previous_absent: "x \<notin> set (tl xs) \<Longrightarrow> sd_previous xs x = None"
  by (induction xs x rule: sd_previous.induct) auto

lemma sd_previous_None: "distinct xs \<Longrightarrow> x \<in> set xs \<Longrightarrow> sd_previous xs x = None \<longleftrightarrow> x = hd xs"
proof (induction xs x rule: sd_previous.induct)
  case (1 y z ys x)
  then show ?case using sd_previous_absent[of x "z # ys"] by (cases "x = y") auto
qed auto

section \<open>Well-formed states\<close>

text \<open>
  The process list is not empty and has no repetitions; every process in it has threads, its
  scheduled thread is one of them, and no thread belongs to two processes.
\<close>

definition sd_wf :: "sched \<Rightarrow> bool" where
  "sd_wf st \<longleftrightarrow> distinct (sd_processes st) \<and> sd_processes st \<noteq> [] \<and>
     (\<forall>p \<in> set (sd_processes st). distinct (p_threads (sd_procs st p)) \<and> p_threads (sd_procs st p) \<noteq> [] \<and>
        scheduledThread st p \<in> set (p_threads (sd_procs st p))) \<and>
     (\<forall>p \<in> set (sd_processes st). \<forall>q \<in> set (sd_processes st). p \<noteq> q \<longrightarrow>
        set (p_threads (sd_procs st p)) \<inter> set (p_threads (sd_procs st q)) = {})"

lemma sd_wfD:
  assumes "sd_wf st"
  shows "distinct (sd_processes st)" "sd_processes st \<noteq> []"
    "p \<in> set (sd_processes st) \<Longrightarrow> distinct (p_threads (sd_procs st p))"
    "p \<in> set (sd_processes st) \<Longrightarrow> p_threads (sd_procs st p) \<noteq> []"
    "p \<in> set (sd_processes st) \<Longrightarrow> scheduledThread st p \<in> set (p_threads (sd_procs st p))"
    "p \<in> set (sd_processes st) \<Longrightarrow> q \<in> set (sd_processes st) \<Longrightarrow> p \<noteq> q \<Longrightarrow>
       t \<in> set (p_threads (sd_procs st p)) \<Longrightarrow> t \<notin> set (p_threads (sd_procs st q))"
  using assms unfolding sd_wf_def by blast+

lemma update_simps [simp]:
  "sd_threads (thread_update t f st) = (sd_threads st)(t := f (sd_threads st t))"
  "sd_procs (thread_update t f st) = sd_procs st"
  "sd_processes (thread_update t f st) = sd_processes st"
  "sd_currentProcess (thread_update t f st) = sd_currentProcess st"
  "sd_lock (thread_update t f st) = sd_lock st"
  "sd_threads (process_update p g st) = sd_threads st"
  "sd_procs (process_update p g st) = (sd_procs st)(p := g (sd_procs st p))"
  "sd_processes (process_update p g st) = sd_processes st"
  "sd_currentProcess (process_update p g st) = sd_currentProcess st"
  "sd_lock (process_update p g st) = sd_lock st"
  "sd_deadProcesses (thread_update t f st) = sd_deadProcesses st"
  "sd_deadProcesses (process_update p g st) = sd_deadProcesses st"
  "sd_deadThreads (thread_update t f st) = sd_deadThreads st"
  "sd_deadThreads (process_update p g st) = sd_deadThreads st"
  by (simp_all add: thread_update_def process_update_def)

lemma sd_wf_cong:
  "sd_processes st' = sd_processes st \<Longrightarrow> sd_procs st' = sd_procs st \<Longrightarrow> sd_wf st' = sd_wf st"
  by (simp add: sd_wf_def)

lemma sd_wf_thread_update [simp]: "sd_wf (thread_update t f st) = sd_wf st"
  by (rule sd_wf_cong) simp_all

text \<open>Moving the scheduled thread of a process along keeps the state well formed.\<close>

lemma sd_advance_wf:
  assumes wf: "sd_wf st" and p: "p \<in> set (sd_processes st)" and t: "t \<in> set (p_threads (sd_procs st p))"
    and adv: "sd_advance st p t = (st', p', t')"
  shows "sd_wf st'" "p' \<in> set (sd_processes st')" "t' = scheduledThread st' p'"
    "p' = ring_next (sd_processes st) p" "sd_processes st' = sd_processes st" "sd_threads st' = sd_threads st"
    "sd_lock st' = sd_lock st"
    "sd_procs st' = (sd_procs st)(p := (sd_procs st p)\<lparr>p_scheduledThread := ring_next (p_threads (sd_procs st p)) t\<rparr>)"
proof -
  let ?st = "process_update p (\<lambda>q. q\<lparr>p_scheduledThread := thread_next st p t\<rparr>) st"
  have e: "st' = ?st" "p' = process_next ?st p" "t' = scheduledThread ?st (process_next ?st p)"
    using adv by (auto simp: sd_advance_def Let_def)
  have nx: "thread_next st p t \<in> set (p_threads (sd_procs st p))"
    using ring_next(1)[OF sd_wfD(3)[OF wf p] t] by (simp add: thread_next_def ring_next_def)
  show "sd_wf st'" using wf nx unfolding sd_wf_def e(1) by (simp add: fun_upd_def)
  show p': "p' = ring_next (sd_processes st) p" by (simp add: e process_next_def ring_next_def)
  show "p' \<in> set (sd_processes st')" unfolding p' using ring_next(1)[OF sd_wfD(1)[OF wf] p] by (simp add: e(1))
  show "t' = scheduledThread st' p'" by (simp only: e)
  show "sd_processes st' = sd_processes st" "sd_threads st' = sd_threads st" "sd_lock st' = sd_lock st" by (simp_all add: e(1))
  show "sd_procs st' = (sd_procs st)(p := (sd_procs st p)\<lparr>p_scheduledThread := ring_next (p_threads (sd_procs st p)) t\<rparr>)"
    by (simp add: e(1) thread_next_def ring_next_def)
qed

text \<open>The states between two steps.\<close>

definition sd_at :: "(ptr \<times> ptr) option \<Rightarrow> sched \<Rightarrow> bool" where
  "sd_at at st \<longleftrightarrow> sd_wf st \<and>
     (case at of None \<Rightarrow> sd_currentProcess st \<in> set (sd_processes st)
      | Some (p, t) \<Rightarrow> p \<in> set (sd_processes st) \<and> t = scheduledThread st p)"

text \<open>What \<^verbatim>\<open>sd_schedule\<close> leaves when it returns \<open>esp\<close>.\<close>

definition sd_chosen :: "u32 \<Rightarrow> sched \<Rightarrow> bool" where
  "sd_chosen esp st \<longleftrightarrow>
     (let p = sd_currentProcess st; t = scheduledThread st p in
      sd_wf st \<and> p \<in> set (sd_processes st) \<and> esp = t_esp (sd_threads st t) \<and> sd_lock st = 0 \<and>
      sd_pagedir st = p_pdirectory (sd_procs st p) \<and> sd_esp0 st = esp + 76 \<and>
      (if t_died (sd_threads st t) then t_blocks (sd_threads st t) = 0 \<and> \<not> t_sleeping (sd_threads st t)
       else t_blocks (sd_threads st t) = 0 \<and> t_usedTicks (sd_threads st t) < t_wantedTicks (sd_threads st t)))"

lemma remove_process_wf:
  assumes wf: "sd_wf st" and p: "p \<in> set (sd_processes st)" and prev: "sd_previous (sd_processes st) p \<noteq> None"
  shows "sd_wf (st\<lparr>sd_processes := remove1 p (sd_processes st), sd_deadProcesses := d\<rparr>)"
    "process_next st p \<in> set (remove1 p (sd_processes st))"
proof -
  let ?ps = "sd_processes st"
  have d: "distinct ?ps" using sd_wfD(1)[OF wf] .
  have n: "process_next st p \<in> set ?ps" using ring_next(1)[OF d p] by (simp add: process_next_def ring_next_def)
  have "p \<noteq> hd ?ps" using prev sd_previous_None[OF d p] by auto
  have ne: "process_next st p \<noteq> p"
  proof
    assume e: "process_next st p = p"
    have i: "pos ?ps p < length ?ps" by (rule pos_less[OF p])
    have "(pos ?ps p + 1) mod length ?ps = pos ?ps p"
      using ring_next(2)[OF d p] e by (simp add: process_next_def ring_next_def)
    then have "length ?ps = 1" using i by (cases "pos ?ps p + 1 = length ?ps") auto
    then show False using p \<open>p \<noteq> hd ?ps\<close> by (cases ?ps) auto
  qed
  show m: "process_next st p \<in> set (remove1 p ?ps)" using n ne by (simp add: in_set_remove1)
  have sub: "set (remove1 p ?ps) \<subseteq> set ?ps" by (rule set_remove1_subset)
  have "remove1 p ?ps \<noteq> []" using m by auto
  then show "sd_wf (st\<lparr>sd_processes := remove1 p ?ps, sd_deadProcesses := d\<rparr>)"
    using wf sub d unfolding sd_wf_def by (auto simp: subset_iff)
qed

lemma remove_thread_wf:
  assumes wf: "sd_wf st" and p: "p \<in> set (sd_processes st)" and t: "t = scheduledThread st p" and nm: "t \<noteq> mainThread st p"
  shows "sd_wf (process_update p (\<lambda>q. q\<lparr>p_threads := remove1 t (p_threads q), p_scheduledThread := thread_next st p t\<rparr>) st
      \<lparr>sd_deadThreads := d\<rparr>)"
proof -
  let ?ts = "p_threads (sd_procs st p)"
  have ts: "distinct ?ts" "t \<in> set ?ts" using sd_wfD(3,5)[OF wf p] t by auto
  have n: "thread_next st p t \<in> set ?ts" "pos ?ts (thread_next st p t) = (pos ?ts t + 1) mod length ?ts"
    using ring_next[OF ts] by (auto simp: thread_next_def ring_next_def)
  have ne: "thread_next st p t \<noteq> t"
  proof
    assume e: "thread_next st p t = t"
    have i: "pos ?ts t < length ?ts" by (rule pos_less[OF ts(2)])
    then have "length ?ts = 1" using n(2) e by (cases "pos ?ts t + 1 = length ?ts") auto
    then show False using ts nm by (cases ?ts) auto
  qed
  have m: "thread_next st p t \<in> set (remove1 t ?ts)" using n(1) ne by (simp add: in_set_remove1)
  have sub: "set (remove1 t ?ts) \<subseteq> set ?ts" by (rule set_remove1_subset)
  have "remove1 t ?ts \<noteq> []" using m by auto
  then show ?thesis using wf ts(1) m sub unfolding sd_wf_def by (auto simp: disjoint_iff subset_iff)
qed

lemma sd_reap_at:
  assumes at: "sd_at None st" and r: "sd_reap st (sd_currentProcess st) (scheduledThread st (sd_currentProcess st)) = Inr (st', p, t)"
  shows "sd_at (Some (p, t)) st'" "sd_lock st' = sd_lock st"
proof -
  let ?p = "sd_currentProcess st" and ?t = "scheduledThread st (sd_currentProcess st)"
  have wf: "sd_wf st" and p: "?p \<in> set (sd_processes st)" using at by (auto simp: sd_at_def)
  have "sd_at (Some (p, t)) st' \<and> sd_lock st' = sd_lock st"
  proof (cases "p_died (sd_procs st ?p) \<or> t_died (sd_threads st ?t)")
    case False
    then show ?thesis using r wf p by (auto simp: sd_reap_def sd_at_def)
  next
    case True
    show ?thesis
    proof (cases "p_died (sd_procs st ?p) \<or> ?t = mainThread st ?p")
      case proc: True
      have prev: "sd_previous (sd_processes st) ?p \<noteq> None"
        using r True proc by (auto simp: sd_reap_def split: option.splits)
      then show ?thesis
        using r True proc remove_process_wf[OF wf p prev]
        by (auto simp: sd_reap_def sd_at_def Let_def split: option.splits)
    next
      case thr: False
      then show ?thesis
        using r True remove_thread_wf[OF wf p refl] p
        by (auto simp: sd_reap_def sd_at_def Let_def split: option.splits)
    qed
  qed
  then show "sd_at (Some (p, t)) st'" "sd_lock st' = sd_lock st" by auto
qed

lemma sd_finish_chosen:
  assumes "sd_at (Some (p, t)) st" "sd_threads st t = th"
    and "if t_died th then t_blocks th = 0 \<and> \<not> t_sleeping th else t_blocks th = 0 \<and> t_usedTicks th < t_wantedTicks th"
  shows "sd_chosen (t_esp th) (sd_finish st p t)"
proof -
  have "sd_wf (sd_finish st p t) = sd_wf st"
    by (rule sd_wf_cong) (simp_all add: sd_finish_def)
  then show ?thesis
    using assms by (auto simp: sd_at_def sd_chosen_def sd_finish_def sizeof_cpu_state_t_def Let_def thread_update_def)
qed

lemma sd_step_at:
  assumes at: "sd_at at st"
  shows "case sd_step now at st of
      Inl e \<Rightarrow> e = OutOfBounds
    | Inr (Continue at' st') \<Rightarrow> sd_at at' st'
    | Inr (Return esp st') \<Rightarrow> sd_chosen esp st'"
proof (cases at)
  case None
  let ?p = "sd_currentProcess st" and ?t = "scheduledThread st (sd_currentProcess st)"
  show ?thesis
  proof (cases "sd_reap st ?p ?t")
    case (Inl e)
    then have "e = OutOfBounds" by (auto simp: sd_reap_def Let_def split: if_splits option.splits)
    then show ?thesis using None Inl by (simp add: sd_step_def)
  next
    case (Inr r)
    obtain st' p t where r: "r = (st', p, t)" by (cases r)
    have "sd_at (Some (p, t)) st'" using sd_reap_at(1) at Inr r None by blast
    then show ?thesis using None Inr r by (simp add: sd_step_def sd_at_def)
  qed
next
  case (Some pt)
  obtain p t where pt: "pt = (p, t)" by (cases pt)
  let ?th = "sd_threads st t"
  have wf: "sd_wf st" and p: "p \<in> set (sd_processes st)" and t: "t = scheduledThread st p"
    using at Some pt by (auto simp: sd_at_def)
  let ?st = "thread_update t (sd_wake now) st"
  have at': "sd_at (Some (p, t)) ?st" using wf p t by (simp add: sd_at_def)
  show ?thesis
  proof (cases "must_switch ?th")
    case False
    then have "sd_chosen (t_esp ?th) (sd_finish st p t)"
      using sd_finish_chosen[of p t st ?th] at Some pt by (auto simp: must_switch_def not_le word_less_nat_alt unat_eq_zero)
    then show ?thesis using False Some pt by (simp add: sd_step_def)
  next
    case True
    show ?thesis
    proof (cases "sd_breaks now ?th")
      case brk: True
      then have "sd_chosen (t_esp (sd_wake now ?th)) (sd_finish ?st p t)"
        using sd_finish_chosen[OF at', of "sd_wake now ?th"] by (simp add: sd_wake_def sd_breaks_def Let_def)
      moreover have "t_esp (sd_wake now ?th) = t_esp ?th" by (simp add: sd_wake_def Let_def)
      ultimately show ?thesis using True brk Some pt by (simp add: sd_step_def)
    next
      case go: False
      obtain st' p' t' where adv: "sd_advance ?st p t = (st', p', t')" by (metis prod_cases3)
      have "t \<in> set (p_threads (sd_procs ?st p))" using sd_wfD(5)[OF wf p] t by simp
      then have "sd_at (Some (p', t')) st'"
        using sd_advance_wf(1-3)[OF _ _ _ adv] wf p by (simp add: sd_at_def)
      moreover from this have "sd_at None (st'\<lparr>sd_currentProcess := p'\<rparr>)"
        using sd_wf_cong[of "st'\<lparr>sd_currentProcess := p'\<rparr>" st'] by (simp add: sd_at_def)
      ultimately show ?thesis using True go Some pt adv by (simp add: sd_step_def)
    qed
  qed
qed

definition sd_good :: "(u32 \<times> sched) result \<Rightarrow> bool" where
  "sd_good r \<longleftrightarrow> (case r of Inl e \<Rightarrow> e = OutOfBounds | Inr (esp, st') \<Rightarrow> sd_chosen esp st')"

lemma sd_run_chosen:
  assumes "sd_run now at st = Some r" "sd_at at st"
  shows "sd_good r"
proof -
  have "sd_at at st \<longrightarrow> sd_good r"
  proof (rule sd_run.raw_induct[of "\<lambda>now at st r. sd_at at st \<longrightarrow> sd_good r", OF _ assms(1)])
    fix run now at st r
    assume IH: "\<And>now at st r. run now at st = Some r \<Longrightarrow> sd_at at st \<longrightarrow> sd_good r"
      and r: "(case sd_step now at st of Inl e \<Rightarrow> Some (Inl e) | Inr (Continue at' st') \<Rightarrow> run now at' st'
          | Inr (Return esp st') \<Rightarrow> Some (Inr (esp, st'))) = Some r"
    show "sd_at at st \<longrightarrow> sd_good r"
    proof
      assume at: "sd_at at st"
      show "sd_good r"
      proof (cases "sd_step now at st")
        case (Inl e)
        then show ?thesis using r sd_step_at[OF at, of now] by (auto simp: sd_good_def)
      next
        case (Inr o')
        then show ?thesis using r sd_step_at[OF at, of now] IH by (cases o') (auto simp: sd_good_def)
      qed
    qed
  qed
  then show ?thesis using assms(2) by blast
qed

section \<open>The search ends\<close>

definition runnable :: "thread_t \<Rightarrow> bool" where
  "runnable t \<longleftrightarrow> t_blocks t = 0 \<and> \<not> t_died t \<and> \<not> t_sleeping t \<and> 0 < t_wantedTicks t"

text \<open>No process is dead, and the thread \<open>r\<close> of the process \<open>q\<close> could run.\<close>

definition sd_alive :: "ptr \<Rightarrow> ptr \<Rightarrow> sched \<Rightarrow> bool" where
  "sd_alive q r st \<longleftrightarrow> (\<forall>p \<in> set (sd_processes st). \<not> p_died (sd_procs st p)) \<and>
     q \<in> set (sd_processes st) \<and> r \<in> set (p_threads (sd_procs st q)) \<and> runnable (sd_threads st r)"

text \<open>
  How many visits of \<open>q\<close> it takes until \<open>r\<close> is chosen, and how many steps it takes to the next visit.
\<close>

definition sd_rank :: "ptr \<Rightarrow> ptr \<Rightarrow> sched \<Rightarrow> nat" where
  "sd_rank q r st =
     (let ts = p_threads (sd_procs st q) in
      cyc (length ts) (pos ts (scheduledThread st q)) (pos ts r) +
      (if t_usedTicks (sd_threads st r) \<ge> t_wantedTicks (sd_threads st r) then length ts else 0))"

definition sd_distance :: "ptr \<Rightarrow> ptr \<Rightarrow> ptr \<Rightarrow> sched \<Rightarrow> nat" where
  "sd_distance q r p st =
     sd_rank q r st * length (sd_processes st) +
     cyc (length (sd_processes st)) (pos (sd_processes st) p) (pos (sd_processes st) q)"

lemma runnable_wake: "runnable t \<Longrightarrow> sd_wake now t = t\<lparr>t_usedTicks := 0\<rparr> \<and> runnable (sd_wake now t)"
  by (simp add: runnable_def sd_wake_def Let_def)

lemma pos_inj: "x \<in> set xs \<Longrightarrow> y \<in> set xs \<Longrightarrow> pos xs x = pos xs y \<longleftrightarrow> x = y"
  using nth_pos by metis

lemma sd_rank_other:
  assumes "p \<noteq> q" "t \<noteq> r"
  shows "sd_rank q r (process_update p f (thread_update t g st)) = sd_rank q r st"
  using assms by (simp add: sd_rank_def)

lemma sd_rank_visit:
  assumes wf: "sd_wf st" and al: "sd_alive q r st" and t: "t = scheduledThread st q" and sw: "must_switch (sd_threads st t)"
    and st': "sd_threads st' = (sd_threads st)(t := sd_wake now (sd_threads st t))"
      "sd_procs st' q = (sd_procs st q)\<lparr>p_scheduledThread := ring_next (p_threads (sd_procs st q)) t\<rparr>"
  shows "sd_rank q r st' < sd_rank q r st"
proof -
  let ?ts = "p_threads (sd_procs st q)"
  have q: "q \<in> set (sd_processes st)" "r \<in> set ?ts" "runnable (sd_threads st r)" using al by (auto simp: sd_alive_def)
  have d: "distinct ?ts" "t \<in> set ?ts" using sd_wfD(3,5)[OF wf q(1)] t by auto
  have i: "pos ?ts t < length ?ts" "pos ?ts r < length ?ts" using pos_less[OF d(2)] pos_less[OF q(2)] by auto
  have nx: "pos ?ts (ring_next ?ts t) = (pos ?ts t + 1) mod length ?ts" by (rule ring_next(2)[OF d])
  note c = cyc_step[OF i] cyc_step(2)[OF i]
  show ?thesis
  proof (cases "t = r")
    case True
    then have u: "t_usedTicks (sd_threads st r) \<ge> t_wantedTicks (sd_threads st r)" "0 < t_wantedTicks (sd_threads st r)"
      using sw q(3) by (auto simp: must_switch_def runnable_def)
    then have "\<not> t_wantedTicks (sd_threads st r) \<le> (0 :: u8)" by simp
    moreover have "cyc (length ?ts) (pos ?ts (ring_next ?ts r)) (pos ?ts r) < length ?ts"
      using cyc_step(3)[OF pos_less[OF ring_next(1)[OF d]] i(2)] True by simp
    ultimately show ?thesis using True u t runnable_wake[OF q(3), of now]
      by (simp add: sd_rank_def st' Let_def)
  next
    case False
    then have "pos ?ts t \<noteq> pos ?ts r" using pos_inj[OF d(2) q(2)] by simp
    then show ?thesis using False c nx t by (simp add: sd_rank_def st' Let_def)
  qed
qed

lemma sd_distance_step:
  assumes wf: "sd_wf st" and al: "sd_alive q r st" and p: "p \<in> set (sd_processes st)" and t: "t = scheduledThread st p"
    and sw: "must_switch (sd_threads st t)" and adv: "sd_advance (thread_update t (sd_wake now) st) p t = (st', p', t')"
  shows "sd_distance q r p' st' < sd_distance q r p st" "sd_alive q r st'"
proof -
  let ?ps = "sd_processes st" and ?n = "length (sd_processes st)"
  let ?st = "thread_update t (sd_wake now) st"
  have q: "q \<in> set ?ps" "r \<in> set (p_threads (sd_procs st q))" "runnable (sd_threads st r)"
    and dead: "\<forall>p \<in> set ?ps. \<not> p_died (sd_procs st p)" using al by (auto simp: sd_alive_def)
  have tp: "t \<in> set (p_threads (sd_procs st p))" using sd_wfD(5)[OF wf p] t by simp
  have adv': "p' = ring_next ?ps p" "sd_processes st' = ?ps"
    "sd_threads st' = (sd_threads st)(t := sd_wake now (sd_threads st t))"
    "sd_procs st' = (sd_procs st)(p := (sd_procs st p)\<lparr>p_scheduledThread := ring_next (p_threads (sd_procs st p)) t\<rparr>)"
    using sd_advance_wf[OF _ _ _ adv] wf p tp by simp_all
  have i: "pos ?ps p < ?n" "pos ?ps q < ?n" using pos_less[OF p] pos_less[OF q(1)] by auto
  have nx: "pos ?ps p' = (pos ?ps p + 1) mod ?n" using ring_next(2)[OF sd_wfD(1)[OF wf] p] adv'(1) by simp
  show "sd_distance q r p' st' < sd_distance q r p st"
  proof (cases "p = q")
    case True
    have "sd_rank q r st' < sd_rank q r st"
      using sd_rank_visit[OF wf al _ sw adv'(3)] t True adv'(4) by simp
    then have "sd_rank q r st' * ?n + ?n \<le> sd_rank q r st * ?n"
      by (metis Suc_leI add.commute mult_Suc mult_le_mono1)
    moreover have "cyc ?n (pos ?ps p') (pos ?ps q) < ?n"
      using cyc_step(3)[OF pos_less[OF ring_next(1)[OF sd_wfD(1)[OF wf] p]] i(2)] adv'(1) by simp
    ultimately show ?thesis by (simp add: sd_distance_def adv'(2))
  next
    case False
    then have "t \<noteq> r" using sd_wfD(6)[OF wf p q(1) False tp] q(2) by blast
    then have "sd_rank q r st' = sd_rank q r st" using False by (simp add: sd_rank_def adv')
    moreover have "pos ?ps p \<noteq> pos ?ps q" using False pos_inj[OF p q(1)] by simp
    ultimately show ?thesis
      using cyc_step(1,2)[OF i] nx by (simp add: sd_distance_def adv'(2))
  qed
  show "sd_alive q r st'"
    using dead q runnable_wake[OF q(3), of now] by (auto simp: sd_alive_def adv')
qed

lemma sd_run_returns:
  "sd_at (Some (p, t)) st \<Longrightarrow> sd_alive q r st \<Longrightarrow> \<exists>esp st'. sd_run now (Some (p, t)) st = Some (Inr (esp, st'))"
proof (induction "sd_distance q r p st" arbitrary: p t st rule: less_induct)
  case less
  have wf: "sd_wf st" and p: "p \<in> set (sd_processes st)" and t: "t = scheduledThread st p"
    using less.prems(1) by (auto simp: sd_at_def)
  show ?case
  proof (cases "must_switch (sd_threads st t) \<and> \<not> sd_breaks now (sd_threads st t)")
    case False
    then show ?thesis by (subst sd_run.simps) (auto simp: sd_step_def Let_def)
  next
    case True
    let ?st = "thread_update t (sd_wake now) st"
    obtain st' p' t' where adv: "sd_advance ?st p t = (st', p', t')" by (metis prod_cases3)
    have tp: "t \<in> set (p_threads (sd_procs ?st p))" using sd_wfD(5)[OF wf p] t by simp
    have at': "sd_at (Some (p', t')) st'" using sd_advance_wf(1-3)[OF _ _ tp adv] wf p by (simp add: sd_at_def)
    note step = sd_distance_step[OF wf less.prems(2) p t _ adv]
    have "\<not> p_died (sd_procs st' p')" using step(2) True at' by (auto simp: sd_alive_def sd_at_def)
    then have "sd_step now (Some (p, t)) st = Inr (Continue (Some (p', t')) st')"
      using True adv by (simp add: sd_step_def)
    then show ?thesis using less.hyps[OF _ at'] step True by (subst sd_run.simps) simp
  qed
qed

section \<open>What the scheduler guarantees\<close>

lemma sd_schedule_start:
  assumes "sd_lock st = 0" "esp \<noteq> 0"
  shows "sd_schedule now esp st =
     sd_run now None (thread_update (thread_getCurrentThread st) (\<lambda>t. t\<lparr>t_esp := esp\<rparr>) (st\<lparr>sd_lock := 1\<rparr>))"
  using assms by (simp add: sd_schedule_def spinlock_tryLock_def thread_getCurrentThread_def)

text \<open>
  C13. If the scheduler returns, the thread it switches to belongs to the process it makes current, its
  stack pointer is the one returned, page directory and interrupt stack are that thread's, and the
  thread has no blocks and ticks left, unless it is a dead thread that was woken by its alarm. The
  process lists stay well formed and the lock is released. The only fault is the death of the
  first process. When the lock is taken, nothing happens.
\<close>

theorem sd_schedule_chosen:
  assumes "sd_wf st" "sd_currentProcess st \<in> set (sd_processes st)" "esp \<noteq> 0"
    "sd_schedule now esp st = Some r"
  shows "if sd_lock st = 0 then case r of Inl e \<Rightarrow> e = OutOfBounds | Inr (esp', st') \<Rightarrow> sd_chosen esp' st'
     else r = Inr (esp, st)"
proof (cases "sd_lock st = 0")
  case True
  have "sd_wf (st\<lparr>sd_lock := 1\<rparr>)" using assms(1) sd_wf_cong[of "st\<lparr>sd_lock := 1\<rparr>" st] by simp
  then have "sd_at None (thread_update (thread_getCurrentThread st) (\<lambda>t. t\<lparr>t_esp := esp\<rparr>) (st\<lparr>sd_lock := 1\<rparr>))"
    using assms(2) by (simp add: sd_at_def)
  from sd_run_chosen[OF _ this] show ?thesis
    using True assms(4) by (simp add: sd_schedule_start[OF True assms(3)] sd_good_def)
next
  case False
  then show ?thesis using assms by (simp add: sd_schedule_def spinlock_tryLock_def)
qed

text \<open>
  C14. As long as no process is dead, the current thread is not dead and some thread of some process could
  run, the search comes to an end.
\<close>

theorem sd_schedule_returns:
  assumes "sd_wf st" "sd_currentProcess st \<in> set (sd_processes st)" "esp \<noteq> 0"
    "sd_alive q r st" "\<not> t_died (sd_threads st (thread_getCurrentThread st))"
  shows "\<exists>esp' st'. sd_schedule now esp st = Some (Inr (esp', st'))"
proof (cases "sd_lock st = 0")
  case True
  let ?p = "sd_currentProcess st" and ?t = "thread_getCurrentThread st"
  let ?s = "thread_update ?t (\<lambda>t. t\<lparr>t_esp := esp\<rparr>) (st\<lparr>sd_lock := 1\<rparr>)"
  let ?u = "thread_update ?t (\<lambda>t. t\<lparr>t_usedTicks := t_usedTicks t + 1\<rparr>) ?s"
  have wf: "sd_wf (st\<lparr>sd_lock := 1\<rparr>)" using assms(1) sd_wf_cong[of "st\<lparr>sd_lock := 1\<rparr>" st] by simp
  have "sd_reap ?s ?p ?t = Inr (?s, ?p, ?t)"
    using assms(2,4,5) by (auto simp: sd_reap_def sd_alive_def)
  then have "sd_step now None ?s = Inr (Continue (Some (?p, ?t)) ?u)"
    by (simp add: sd_step_def thread_getCurrentThread_def Let_def)
  moreover have "sd_at (Some (?p, ?t)) ?u"
    using wf assms(2) by (simp add: sd_at_def thread_getCurrentThread_def)
  moreover have "sd_alive q r ?u"
    using assms(4) by (auto simp: sd_alive_def runnable_def)
  ultimately show ?thesis
    using sd_run_returns[of ?p ?t ?u q r now] sd_run.simps[of now None ?s]
    by (simp add: sd_schedule_start[OF True assms(3)])
next
  case False
  then show ?thesis using assms by (simp add: sd_schedule_def spinlock_tryLock_def)
qed


text \<open>Two processes; the second one has two threads, the first of which is blocked.\<close>

definition sample_thread :: thread_t where
  "sample_thread = \<lparr>t_id = 0, t_entry = 0, t_lock = 0, t_maxTicks = 10, t_usedTicks = 3, t_wantedTicks = 4, t_blocks = 0,
     t_wasNice = False, t_died = False, t_userStackPages = 0, t_userStack = 0, t_userStackVirt = 0, t_kernelStack = 0,
     t_kernelStackVirt = 0, t_esp = 1000, t_arguments = 0, t_argumentCount = 0, t_name = 0, t_watched = False, t_list = 5,
     t_listener = [], t_tlsVirtual = 0, t_tlsPages = 0, t_sleeping = False, t_alarm = 0, t_process = 1\<rparr>"

definition sample_process :: process_t where
  "sample_process = \<lparr>p_pdirectory = 4096, p_context = 0, p_pid = 0, p_parent = 0, p_lock = 0, p_died = False, p_ring0 = True,
     p_threadLock = 0, p_threads = [11], p_scheduledThread = 11, p_threadCounter = 1, p_startTime = 0, p_usedTime = 0,
     p_image = 0, p_mappings = 6, p_files = replicate 512 0, p_openFiles = 0, p_pprocess = 0\<rparr>"

definition sample_sched :: sched where
  "sample_sched = \<lparr>sd_threads = (\<lambda>_. sample_thread)(21 := sample_thread\<lparr>t_blocks := 1\<rparr>, 22 := sample_thread\<lparr>t_esp := 2000\<rparr>),
     sd_procs = (\<lambda>_. sample_process)(2 := sample_process\<lparr>p_threads := [21, 22], p_scheduledThread := 21\<rparr>),
     sd_processes = [1, 2], sd_currentProcess = 1, sd_deadProcesses = [], sd_deadThreads = [], sd_lock = 0,
     sd_pagedir = 4096, sd_esp0 = 0\<rparr>"

lemmas sample_defs = sample_sched_def sample_process_def sample_thread_def

lemma sample_wf: "sd_wf sample_sched" "sd_currentProcess sample_sched \<in> set (sd_processes sample_sched)"
  by (auto simp: sample_defs sd_wf_def)

lemmas sd_evals = sd_step_def sd_reap_def must_switch_def sd_wake_def sd_breaks_def sd_advance_def Let_def
  thread_next_def process_next_def

theorem sd_schedule_chosen_witness:
  "\<exists>r. sd_schedule 0 500 sample_sched = Some r \<and> (case r of Inl e \<Rightarrow> e = OutOfBounds | Inr (esp', st') \<Rightarrow> sd_chosen esp' st')"
proof -
  let ?s = "sample_sched"
  have l: "sd_lock ?s = 0" by (simp add: sample_defs)
  have "\<exists>r. sd_schedule 0 500 ?s = Some r"
    unfolding sd_schedule_start[OF l, of 500 0, simplified]
    by (subst sd_run.simps, simp add: sd_evals sample_defs thread_getCurrentThread_def,
        (subst sd_run.simps, simp add: sd_evals sample_defs)+)
  then obtain r where "sd_schedule 0 500 ?s = Some r" by blast
  then show ?thesis using sd_schedule_chosen[OF sample_wf, of 500 0 r] l by auto
qed

theorem sd_schedule_returns_witness: "\<exists>esp' st'. sd_schedule 0 500 sample_sched = Some (Inr (esp', st'))"
  by (rule sd_schedule_returns[OF sample_wf, of _ 2 22])
    (auto simp: sample_defs sd_alive_def runnable_def thread_getCurrentThread_def)


end
