(* ===== verification/Threads.thy ===== *)
theory Threads
  imports Scheduler PMemory KList
begin

text \<open>
  \<^verbatim>\<open>src/sys/scheduler/thread.c\<close>: creation, cloning and destruction of threads, listeners, sleeping and
  priorities. The memory allocators may succeed or fail at any call; their results are taken from a list
  that is part of the environment, and a log records what was acquired and released.
\<close>

section \<open>The environment\<close>

datatype resource = Heap ptr | Frames ptr u32 | Pages ptr ptr u32 | Directory ptr | Image ptr | Context ptr

datatype effect = Acquire resource | Release resource | Remap ptr ptr ptr u32 u32

record kenv =
  k_sched :: sched
  k_results :: "ptr list"
  k_log :: "effect list"
  k_errno :: u32
  k_mem :: "ptr \<Rightarrow> u32"
  k_kernelDirectory :: ptr
  k_pid :: u32
  k_lists :: "ptr \<Rightarrow> list_t"
  k_fields :: lmem

type_synonym 'a kop = "kenv \<Rightarrow> ('a \<times> kenv) result"

definition k_return :: "'a \<Rightarrow> 'a kop" where
  "k_return x k = Inr (x, k)"

definition k_bind :: "'a kop \<Rightarrow> ('a \<Rightarrow> 'b kop) \<Rightarrow> 'b kop" where
  "k_bind m f k = bind_res (m k) (\<lambda>(x, k). f x k)"

definition k_fail :: "fault \<Rightarrow> 'a kop" where
  "k_fail e k = Inl e"

definition k_modify :: "(kenv \<Rightarrow> kenv) \<Rightarrow> unit kop" where
  "k_modify f k = Inr ((), f k)"

definition k_get :: "(kenv \<Rightarrow> 'a) \<Rightarrow> 'a kop" where
  "k_get f k = Inr (f k, k)"

definition k_threads :: "ptr \<Rightarrow> (thread_t \<Rightarrow> thread_t) \<Rightarrow> unit kop" where
  "k_threads t f = k_modify (\<lambda>k. k\<lparr>k_sched := thread_update t f (k_sched k)\<rparr>)"

definition k_thread :: "ptr \<Rightarrow> thread_t kop" where
  "k_thread t = k_get (\<lambda>k. sd_threads (k_sched k) t)"

definition k_process :: "ptr \<Rightarrow> process_t kop" where
  "k_process p = k_get (\<lambda>k. sd_procs (k_sched k) p)"

definition k_when :: "bool \<Rightarrow> unit kop \<Rightarrow> unit kop" where
  "k_when b m = (if b then m else k_return ())"

text \<open>Allocation calls: the next result, and an entry of the log for each thing acquired.\<close>

definition k_next :: "kenv \<Rightarrow> ptr" where
  "k_next k = (case k_results k of [] \<Rightarrow> 0 | x # _ \<Rightarrow> x)"

definition k_alloc :: "(ptr \<Rightarrow> resource list) \<Rightarrow> ptr kop" where
  "k_alloc what k =
     Inr (k_next k, k\<lparr>k_results := tl (k_results k),
       k_log := k_log k @ (if k_next k = 0 then [] else map Acquire (what (k_next k)))\<rparr>)"

definition k_release :: "resource \<Rightarrow> unit kop" where
  "k_release r = k_modify (\<lambda>k. k\<lparr>k_log := k_log k @ [Release r]\<rparr>)"

definition k_halloc :: "ptr kop" where "k_halloc = k_alloc (\<lambda>x. [Heap x])"

definition k_hfree :: "ptr \<Rightarrow> unit kop" where "k_hfree x = k_release (Heap x)"

definition k_pm_alloc :: "u32 \<Rightarrow> ptr kop" where "k_pm_alloc n = k_alloc (\<lambda>x. [Frames x n])"

definition k_pm_free :: "ptr \<Rightarrow> u32 \<Rightarrow> unit kop" where "k_pm_free x n = k_release (Frames x n)"

definition k_vm_alloc :: "ptr \<Rightarrow> u32 \<Rightarrow> ptr kop" where "k_vm_alloc dir n = k_alloc (\<lambda>x. [Pages dir x n])"

definition k_vm_free :: "ptr \<Rightarrow> ptr \<Rightarrow> u32 \<Rightarrow> unit kop" where "k_vm_free dir x n = k_release (Pages dir x n)"

text \<open>
  \<^verbatim>\<open>vm_allocTwoSidedLimit\<close> (\<^verbatim>\<open>src/sys/memory/vmemory.c\<close>) asserts that the directory is not the kernel's and
  maps the pages into both directories, which panics when no address was found.
\<close>

definition k_vm_allocTwoSidedLimit :: "ptr \<Rightarrow> u32 \<Rightarrow> ptr kop" where
  "k_vm_allocTwoSidedLimit dir n =
     k_bind (k_get k_kernelDirectory) (\<lambda>kdir.
     if dir = kdir then k_fail KernelPanic
     else k_bind (k_alloc (\<lambda>x. [Pages kdir x n, Pages dir x n])) (\<lambda>x.
     if x = 0 then k_fail KernelPanic else k_return x))"

definition k_set_errno :: "bool \<Rightarrow> u32 \<Rightarrow> unit kop" where
  "k_set_errno errno e = k_when errno (k_modify (\<lambda>k. k\<lparr>k_errno := e\<rparr>))"

definition ENOMEM :: u32 where "ENOMEM = 48"

definition EINVAL :: u32 where "EINVAL = 28"

definition k_lock_thread :: "ptr \<Rightarrow> unit kop" where
  "k_lock_thread t =
     k_bind (k_thread t) (\<lambda>th.
     (\<lambda>k. bind_res (spinlock_lock (t_lock th)) (\<lambda>lck. k_threads t (\<lambda>th. th\<lparr>t_lock := lck\<rparr>) k)))"

definition k_unlock_thread :: "ptr \<Rightarrow> unit kop" where
  "k_unlock_thread t = k_threads t (\<lambda>th. th\<lparr>t_lock := spinlock_unlock (t_lock th)\<rparr>)"

text \<open>Filling and copying pages, word by word; the memory is that of the kernel's address space.\<close>

definition k_clear_pages :: "ptr \<Rightarrow> u32 \<Rightarrow> unit kop" where
  "k_clear_pages base n = k_modify (\<lambda>k. k\<lparr>k_mem := (\<lambda>a. if a - base < n * 4096 then 0 else k_mem k a)\<rparr>)"

definition k_copy_pages :: "ptr \<Rightarrow> ptr \<Rightarrow> u32 \<Rightarrow> unit kop" where
  "k_copy_pages dst src n =
     k_modify (\<lambda>k. k\<lparr>k_mem := (\<lambda>a. if a - dst < n * 4096 then k_mem k (src + (a - dst)) else k_mem k a)\<rparr>)"

section \<open>Creation\<close>

definition THREAD_NULL :: u32 where "THREAD_NULL = 0xFFFFFFFF"

definition THREAD_MAX_TICKS :: u8 where "THREAD_MAX_TICKS = 10"

definition THREAD_WANTED_TICKS :: u8 where "THREAD_WANTED_TICKS = 4"

text \<open>The fields that \<^verbatim>\<open>thread_createVoid\<close> sets; \<^verbatim>\<open>tlsPages\<close> is not among them.\<close>

definition thread_initial :: "ptr \<Rightarrow> ptr \<Rightarrow> ptr \<Rightarrow> thread_t \<Rightarrow> thread_t" where
  "thread_initial process entry listener th =
     th\<lparr>t_id := THREAD_NULL, t_entry := entry, t_lock := SPINLOCK_INIT, t_process := process,
        t_name := 0, t_watched := False,
        t_maxTicks := THREAD_MAX_TICKS, t_wantedTicks := THREAD_WANTED_TICKS, t_usedTicks := 0,
        t_died := False, t_wasNice := True, t_blocks := 0, t_list := listener, t_listener := [], t_esp := 0,
        t_userStackPages := 0, t_userStack := 0, t_userStackVirt := 0, t_kernelStack := 0, t_kernelStackVirt := 0,
        t_arguments := 0, t_argumentCount := 0, t_tlsVirtual := 0, t_sleeping := False, t_alarm := 0\<rparr>"

definition thread_createVoid :: "ptr \<Rightarrow> ptr \<Rightarrow> bool \<Rightarrow> ptr kop" where
  "thread_createVoid process entry errno =
     k_bind k_halloc (\<lambda>thread.
     if thread = 0 then k_bind (k_set_errno errno ENOMEM) (\<lambda>_. k_return 0)
     else
       k_bind k_halloc (\<lambda>listener.
       k_bind (k_threads thread (thread_initial process entry listener)) (\<lambda>_.
       if listener = 0
       then k_bind (k_hfree thread) (\<lambda>_. k_bind (k_set_errno errno ENOMEM) (\<lambda>_. k_return 0))
       else k_return thread)))"

definition thread_attachToProcess :: "ptr \<Rightarrow> ptr \<Rightarrow> sched \<Rightarrow> sched result" where
  "thread_attachToProcess process thread st =
     bind_res (spinlock_lock (p_threadLock (sd_procs st process))) (\<lambda>lck.
     let p = (sd_procs st process)\<lparr>p_threadLock := lck\<rparr>;
         st = thread_update thread (\<lambda>t. t\<lparr>t_id := p_threadCounter p\<rparr>) st;
         p = p\<lparr>p_threadCounter := p_threadCounter p + 1\<rparr>;
         p = (case p_threads p of
                m # ts \<Rightarrow> p\<lparr>p_threads := m # thread # ts\<rparr>
              | [] \<Rightarrow> p\<lparr>p_threads := [thread], p_scheduledThread := thread\<rparr>)
     in Inr (process_update process (\<lambda>_. p\<lparr>p_threadLock := spinlock_unlock lck\<rparr>) st))"

definition k_sched_op :: "(sched \<Rightarrow> sched result) \<Rightarrow> unit kop" where
  "k_sched_op f k = bind_res (f (k_sched k)) (\<lambda>st. Inr ((), k\<lparr>k_sched := st\<rparr>))"

section \<open>Listeners\<close>

text \<open>
  \<^verbatim>\<open>list_addBack\<close> allocates the node; \<^verbatim>\<open>thread_attachListener\<close> writes to it without testing the result.
\<close>

definition thread_attachListener :: "ptr \<Rightarrow> thread_listener \<Rightarrow> unit kop" where
  "thread_attachListener thread tlistener =
     k_bind (k_lock_thread thread) (\<lambda>_.
     k_bind k_halloc (\<lambda>node.
     if node = 0 then k_fail OutOfBounds
     else
       let l = tlistener\<lparr>l_node := node, l_oneShot := l_oneShot tlistener \<or> l_blocks tlistener\<rparr> in
       k_bind (k_threads thread (\<lambda>th. th\<lparr>t_listener := t_listener th @ [l]\<rparr>)) (\<lambda>_.
       k_bind (k_when (l_blocks l) (k_threads (l_listener l) (\<lambda>th. th\<lparr>t_blocks := t_blocks th + 1\<rparr>))) (\<lambda>_.
       k_unlock_thread thread))))"

text \<open>
  The loop of \<^verbatim>\<open>thread_notify\<close> over the listeners: each matching one is called back, its thread loses a
  block, and a one-shot listener leaves the list. What a callback does is a parameter.
\<close>

fun notify_loop :: "(ptr \<Rightarrow> ptr \<Rightarrow> thread_event \<Rightarrow> unit kop) \<Rightarrow> ptr \<Rightarrow> thread_event \<Rightarrow> thread_listener list \<Rightarrow> unit kop" where
  "notify_loop call thread event [] = k_return ()"
| "notify_loop call thread event (l # ls) =
     k_bind
       (if l_event l = event then
          k_bind (k_when (l_callback l \<noteq> 0) (call (l_callback l) thread event)) (\<lambda>_.
          k_bind (k_when (l_blocks l) (k_threads (l_listener l) (\<lambda>th. th\<lparr>t_blocks := t_blocks th - 1\<rparr>))) (\<lambda>_.
          k_when (l_oneShot l)
            (k_bind (k_threads thread (\<lambda>th. th\<lparr>t_listener := filter (\<lambda>m. l_node m \<noteq> l_node l) (t_listener th)\<rparr>)) (\<lambda>_.
             k_hfree (l_node l)))))
        else k_return ())
       (\<lambda>_. notify_loop call thread event ls)"

definition thread_notify :: "(ptr \<Rightarrow> ptr \<Rightarrow> thread_event \<Rightarrow> unit kop) \<Rightarrow> ptr \<Rightarrow> thread_event \<Rightarrow> unit kop" where
  "thread_notify call thread event =
     k_bind (k_lock_thread thread) (\<lambda>_.
     k_bind (k_thread thread) (\<lambda>th.
     k_bind (notify_loop call thread event (t_listener th)) (\<lambda>_.
     k_unlock_thread thread)))"

definition thread_join :: "ptr \<Rightarrow> ptr \<Rightarrow> unit kop" where
  "thread_join thread toJoin =
     thread_attachListener toJoin
       \<lparr>l_node = 0, l_event = thread_eventDidExit, l_listener = thread, l_blocks = True, l_oneShot = True, l_callback = 0\<rparr>"

section \<open>Destruction\<close>

definition thread_destroy :: "(ptr \<Rightarrow> ptr \<Rightarrow> thread_event \<Rightarrow> unit kop) \<Rightarrow> (ptr \<Rightarrow> ptr \<Rightarrow> ptr) \<Rightarrow> ptr \<Rightarrow> unit kop" where
  "thread_destroy call resolve thread =
     k_bind (k_thread thread) (\<lambda>th.
     k_bind (k_when (t_list th \<noteq> 0) (thread_notify call thread thread_eventDidExit)) (\<lambda>_.
     k_bind (k_lock_thread thread) (\<lambda>_.
     k_bind (k_thread thread) (\<lambda>th.
     k_bind (k_process (t_process th)) (\<lambda>process.
     k_bind (k_get k_kernelDirectory) (\<lambda>kdir.
     k_bind (k_when (t_userStackVirt th \<noteq> 0) (k_vm_free (p_pdirectory process) (t_userStackVirt th) (t_userStackPages th))) (\<lambda>_.
     k_bind (k_when (t_userStack th \<noteq> 0) (k_pm_free (t_userStack th) (t_userStackPages th))) (\<lambda>_.
     k_bind (k_when (t_kernelStackVirt th \<noteq> 0)
       (k_bind (k_vm_free (p_pdirectory process) (t_kernelStackVirt th) 1) (\<lambda>_.
        k_vm_free kdir (t_kernelStackVirt th) 1))) (\<lambda>_.
     k_bind (k_when (t_tlsVirtual th \<noteq> 0)
       (k_bind (k_vm_free (p_pdirectory process) (t_tlsVirtual th) (t_tlsPages th)) (\<lambda>_.
        k_pm_free (resolve (p_pdirectory process) (t_tlsVirtual th)) (t_tlsPages th)))) (\<lambda>_.
     k_bind (k_when (t_kernelStack th \<noteq> 0) (k_pm_free (t_kernelStack th) 1)) (\<lambda>_.
     k_bind (k_when (t_arguments th \<noteq> 0) (k_bind (k_hfree (t_arguments th)) (\<lambda>_. k_threads thread (\<lambda>th. th\<lparr>t_arguments := 0\<rparr>)))) (\<lambda>_.
     k_bind (k_when (t_name th \<noteq> 0) (k_bind (k_hfree (t_name th)) (\<lambda>_. k_threads thread (\<lambda>th. th\<lparr>t_name := 0\<rparr>)))) (\<lambda>_.
     k_bind (k_when (t_list th \<noteq> 0)
       (k_bind (k_modify (\<lambda>k. k\<lparr>k_log := k_log k @ map (\<lambda>l. Release (Heap (l_node l))) (t_listener th)\<rparr>)) (\<lambda>_.
        k_hfree (t_list th)))) (\<lambda>_.
     k_hfree thread))))))))))))))"

section \<open>Kernel and user threads\<close>

text \<open>\<^verbatim>\<open>*(-- stack) = v\<close>\<close>

definition k_push :: "ptr \<Rightarrow> u32 \<Rightarrow> ptr kop" where
  "k_push stack v = k_bind (k_modify (\<lambda>k. k\<lparr>k_mem := (k_mem k)(stack - 4 := v)\<rparr>)) (\<lambda>_. k_return (stack - 4))"

fun k_pushes :: "ptr \<Rightarrow> u32 list \<Rightarrow> ptr kop" where
  "k_pushes stack [] = k_return stack"
| "k_pushes stack (v # vs) = k_bind (k_push stack v) (\<lambda>stack. k_pushes stack vs)"

text \<open>The words of the first stack frame in the order in which they are pushed.\<close>

definition cpu_frame :: "u32 \<Rightarrow> u32 \<Rightarrow> u32 \<Rightarrow> u32 \<Rightarrow> u32 \<Rightarrow> u32 list" where
  "cpu_frame ss esp cs eip sreg =
     [ss, esp, 0x0200, cs, eip] @ [0, 0] @ [0, 0, 0, 0, 0, 0, 0, 0] @ [sreg, sreg, sreg, sreg]"

fun k_store :: "ptr \<Rightarrow> u32 list \<Rightarrow> unit kop" where
  "k_store a [] = k_return ()"
| "k_store a (v # vs) = k_bind (k_modify (\<lambda>k. k\<lparr>k_mem := (k_mem k)(a := v)\<rparr>)) (\<lambda>_. k_store (a + 4) vs)"

text \<open>What \<^verbatim>\<open>__threadAssert\<close> does when its condition is false.\<close>

definition thread_abort :: "(ptr \<Rightarrow> ptr \<Rightarrow> thread_event \<Rightarrow> unit kop) \<Rightarrow> (ptr \<Rightarrow> ptr \<Rightarrow> ptr) \<Rightarrow> ptr \<Rightarrow> bool \<Rightarrow> ptr kop" where
  "thread_abort call resolve thread errno =
     k_bind (thread_destroy call resolve thread) (\<lambda>_. k_bind (k_set_errno errno ENOMEM) (\<lambda>_. k_return 0))"

definition thread_createKernel :: "(ptr \<Rightarrow> ptr \<Rightarrow> thread_event \<Rightarrow> unit kop) \<Rightarrow> (ptr \<Rightarrow> ptr \<Rightarrow> ptr) \<Rightarrow>
    ptr \<Rightarrow> ptr \<Rightarrow> u32 list \<Rightarrow> bool \<Rightarrow> ptr kop" where
  "thread_createKernel call resolve process entry args errno =
     k_bind (thread_createVoid process entry errno) (\<lambda>thread.
     if thread = 0 then k_return 0
     else
       k_bind (k_pm_alloc 1) (\<lambda>kernelStack.
       if kernelStack = 0 then thread_abort call resolve thread errno
       else
         k_bind (k_process process) (\<lambda>p.
         k_bind (k_vm_alloc (p_pdirectory p) 1) (\<lambda>virt.
         k_bind (k_threads thread (\<lambda>th. th\<lparr>t_kernelStack := kernelStack, t_kernelStackVirt := virt\<rparr>)) (\<lambda>_.
         if virt = 0 then thread_abort call resolve thread errno
         else
           let argCount = of_nat (length args); stack = virt + 4096 - 4 * argCount in
           k_bind (k_clear_pages virt 1) (\<lambda>_.
           k_bind (k_threads thread (\<lambda>th. th\<lparr>t_arguments := 0, t_argumentCount := argCount\<rparr>)) (\<lambda>_.
           k_bind (if args = [] then k_return True
             else k_bind k_halloc (\<lambda>arguments.
               k_bind (k_threads thread (\<lambda>th. th\<lparr>t_arguments := arguments\<rparr>)) (\<lambda>_.
               if arguments = 0 then k_return False
               else k_bind (k_store arguments args) (\<lambda>_. k_return True)))) (\<lambda>ok.
           if \<not> ok then thread_abort call resolve thread errno
           else
             k_bind (k_pushes stack (cpu_frame 0x10 0 0x8 entry 0x10)) (\<lambda>stack.
             k_bind (k_threads thread (\<lambda>th. th\<lparr>t_esp := stack\<rparr>)) (\<lambda>_.
             k_bind (k_sched_op (thread_attachToProcess process thread)) (\<lambda>_.
             k_return thread)))))))))))"

definition thread_createUserland :: "(ptr \<Rightarrow> ptr \<Rightarrow> thread_event \<Rightarrow> unit kop) \<Rightarrow> (ptr \<Rightarrow> ptr \<Rightarrow> ptr) \<Rightarrow>
    ptr \<Rightarrow> ptr \<Rightarrow> u32 \<Rightarrow> u32 list \<Rightarrow> bool \<Rightarrow> ptr kop" where
  "thread_createUserland call resolve process entry stackSize args errno =
     k_bind (thread_createVoid process entry errno) (\<lambda>thread.
     if thread = 0 then k_return 0
     else
       let stackPages = max (VM_PAGE_COUNT stackSize) 32; argCount = of_nat (length args) in
       k_bind (k_pm_alloc stackPages) (\<lambda>userStack.
       k_bind (k_pm_alloc 1) (\<lambda>kernelStack.
       if userStack = 0 \<or> kernelStack = 0 then
         k_bind (k_when (userStack \<noteq> 0) (k_pm_free userStack stackPages)) (\<lambda>_.
         k_bind (k_when (kernelStack \<noteq> 0) (k_pm_free kernelStack 1)) (\<lambda>_.
         thread_abort call resolve thread errno))
       else
         k_bind (k_process process) (\<lambda>p.
         k_bind (k_vm_alloc (p_pdirectory p) stackPages) (\<lambda>uvirt.
         k_bind (k_threads thread (\<lambda>th. th\<lparr>t_userStack := userStack, t_kernelStack := kernelStack,
             t_userStackPages := stackPages, t_userStackVirt := uvirt\<rparr>)) (\<lambda>_.
         if uvirt = 0 then thread_abort call resolve thread errno
         else
           k_bind (k_get k_kernelDirectory) (\<lambda>kdir.
           k_bind (k_vm_alloc kdir 1) (\<lambda>ustack.
           if ustack = 0 then thread_abort call resolve thread errno
           else
             k_bind (k_clear_pages ustack 1) (\<lambda>_.
             k_bind (k_store (ustack + 4 * 1024 - 4 * argCount) args) (\<lambda>_.
             k_bind (k_vm_free kdir ustack 1) (\<lambda>_.
             k_bind (k_vm_allocTwoSidedLimit (p_pdirectory p) 1) (\<lambda>kvirt.
             k_bind (k_threads thread (\<lambda>th. th\<lparr>t_kernelStackVirt := kvirt\<rparr>)) (\<lambda>_.
             k_bind (k_pushes (kvirt + 4096)
               (cpu_frame 0x23 (uvirt + 4092 - argCount * 4) 0x1B entry 0x23)) (\<lambda>_.
             k_bind (k_threads thread (\<lambda>th. th\<lparr>t_esp := kvirt + 4096 - sizeof_cpu_state_t\<rparr>)) (\<lambda>_.
             k_bind (k_sched_op (thread_attachToProcess process thread)) (\<lambda>_.
             k_return thread))))))))))))))))"

definition thread_create :: "(ptr \<Rightarrow> ptr \<Rightarrow> thread_event \<Rightarrow> unit kop) \<Rightarrow> (ptr \<Rightarrow> ptr \<Rightarrow> ptr) \<Rightarrow>
    ptr \<Rightarrow> ptr \<Rightarrow> u32 \<Rightarrow> u32 list \<Rightarrow> bool \<Rightarrow> ptr kop" where
  "thread_create call resolve process entry stackSize args errno =
     k_bind (k_process process) (\<lambda>p.
     if p_ring0 p then thread_createKernel call resolve process entry args errno
     else thread_createUserland call resolve process entry stackSize args errno)"

text \<open>
  \<^verbatim>\<open>thread_clone\<close> copies one page of the user stack but takes over the number of pages of the source. The
  physical address of the source's page is looked up by \<open>resolve\<close>; it only matters for the mapping.
\<close>

definition thread_clone :: "(ptr \<Rightarrow> ptr \<Rightarrow> thread_event \<Rightarrow> unit kop) \<Rightarrow> (ptr \<Rightarrow> ptr \<Rightarrow> ptr) \<Rightarrow>
    ptr \<Rightarrow> ptr \<Rightarrow> bool \<Rightarrow> ptr kop" where
  "thread_clone call resolve process source errno =
     k_bind (k_lock_thread source) (\<lambda>_.
     k_bind (k_thread source) (\<lambda>src.
     k_bind (thread_createVoid process (t_entry src) errno) (\<lambda>thread.
     if thread = 0 then k_bind (k_unlock_thread source) (\<lambda>_. k_return 0)
     else
       k_bind (k_pm_alloc 1) (\<lambda>userStack.
       k_bind (k_pm_alloc 1) (\<lambda>kernelStack.
       if userStack = 0 \<or> kernelStack = 0 then
         k_bind (k_when (userStack \<noteq> 0) (k_pm_free userStack 1)) (\<lambda>_.
         k_bind (k_when (kernelStack \<noteq> 0) (k_pm_free kernelStack 1)) (\<lambda>_.
         k_bind (k_unlock_thread source) (\<lambda>_.
         thread_abort call resolve thread errno)))
       else
         k_bind (k_process process) (\<lambda>p.
         k_bind (k_get k_kernelDirectory) (\<lambda>kdir.
         k_bind (k_threads thread (\<lambda>th. th\<lparr>t_userStack := userStack, t_kernelStack := kernelStack,
             t_userStackVirt := t_userStackVirt src, t_userStackPages := t_userStackPages src\<rparr>)) (\<lambda>_.
         k_bind (k_modify (\<lambda>k. k\<lparr>k_log := k_log k @ [Acquire (Pages (p_pdirectory p) (t_userStackVirt src) 1)]\<rparr>)) (\<lambda>_.
         k_bind (k_vm_alloc kdir 1) (\<lambda>ustackSource.
         k_bind (k_vm_alloc kdir 1) (\<lambda>ustackTarget.
         if ustackSource = 0 \<or> ustackTarget = 0 then
           k_bind (k_when (ustackSource \<noteq> 0) (k_vm_free kdir ustackSource 1)) (\<lambda>_.
           k_bind (k_when (ustackTarget \<noteq> 0) (k_vm_free kdir ustackTarget 1)) (\<lambda>_.
           k_bind (k_unlock_thread source) (\<lambda>_.
           thread_abort call resolve thread errno)))
         else
           k_bind (k_copy_pages ustackTarget ustackSource 1) (\<lambda>_.
           k_bind (k_vm_free kdir ustackSource 1) (\<lambda>_.
           k_bind (k_vm_free kdir ustackTarget 1) (\<lambda>_.
           k_bind (k_vm_allocTwoSidedLimit (p_pdirectory p) 1) (\<lambda>kvirt.
           k_bind (k_threads thread (\<lambda>th. th\<lparr>t_kernelStackVirt := kvirt,
             t_esp := t_esp src + kvirt - t_kernelStackVirt src\<rparr>)) (\<lambda>_.
           k_bind (k_copy_pages kvirt (t_kernelStackVirt src) 1) (\<lambda>_.
           k_bind (k_sched_op (thread_attachToProcess process thread)) (\<lambda>_.
           k_bind (k_unlock_thread source) (\<lambda>_.
           k_return thread)))))))))))))))))))"

section \<open>The other operations\<close>

fun thread_with_id :: "(ptr \<Rightarrow> thread_t) \<Rightarrow> ptr list \<Rightarrow> u32 \<Rightarrow> ptr" where
  "thread_with_id th [] id' = 0"
| "thread_with_id th (t # ts) id' = (if t_id (th t) = id' then t else thread_with_id th ts id')"

definition thread_getWithID :: "sched \<Rightarrow> u32 \<Rightarrow> ptr" where
  "thread_getWithID st id' =
     (let process = sd_currentProcess st in
      if process = 0 then 0 else thread_with_id (sd_threads st) (p_threads (sd_procs st process)) id')"

definition thread_sleep :: "64 word \<Rightarrow> 64 word \<Rightarrow> thread_t \<Rightarrow> thread_t" where
  "thread_sleep now time th =
     (let th = (if t_sleeping th then th
                else th\<lparr>t_alarm := now, t_sleeping := True, t_blocks := t_blocks th + 1\<rparr>)
      in th\<lparr>t_alarm := t_alarm th + time\<rparr>)"

definition thread_wakeup :: "thread_t \<Rightarrow> thread_t" where
  "thread_wakeup th =
     (if t_sleeping th then th\<lparr>t_sleeping := False, t_alarm := 0, t_blocks := t_blocks th - 1\<rparr> else th)"

definition thread_getTLSArea :: "(ptr \<Rightarrow> ptr \<Rightarrow> ptr) \<Rightarrow> ptr \<Rightarrow> u32 \<Rightarrow> ptr kop" where
  "thread_getTLSArea resolve thread pages =
     k_bind (k_thread thread) (\<lambda>th.
     let allowedPages = max 1 (min 5 pages);
         needsTLSResize = (t_tlsPages th < allowedPages \<and> t_tlsVirtual th \<noteq> 0) in
     if t_tlsVirtual th \<noteq> 0 \<and> allowedPages \<le> t_tlsPages th then k_return (t_tlsVirtual th)
     else
       k_bind (k_process (t_process th)) (\<lambda>p.
       k_bind (k_pm_alloc allowedPages) (\<lambda>pmemory.
       if pmemory = 0 then k_bind (k_set_errno True ENOMEM) (\<lambda>_. k_return (- 1))
       else
         k_bind (k_vm_alloc (p_pdirectory p) allowedPages) (\<lambda>vmemory.
         if vmemory = 0 then
           k_bind (k_pm_free pmemory allowedPages) (\<lambda>_. k_bind (k_set_errno True ENOMEM) (\<lambda>_. k_return (- 1)))
         else
           k_bind (k_get k_kernelDirectory) (\<lambda>kdir.
           k_bind (k_vm_alloc kdir allowedPages) (\<lambda>target.
           k_bind (if target = 0 then k_fail OutOfBounds else k_clear_pages target allowedPages) (\<lambda>_.
           k_bind (k_when needsTLSResize
             (k_bind (k_vm_alloc kdir (t_tlsPages th)) (\<lambda>source.
              k_bind (if source = 0 then k_fail OutOfBounds else k_copy_pages target source (t_tlsPages th)) (\<lambda>_.
              k_bind (k_vm_free (p_pdirectory p) (t_tlsVirtual th) (t_tlsPages th)) (\<lambda>_.
              k_pm_free (resolve (p_pdirectory p) (t_tlsVirtual th)) (t_tlsPages th)))))) (\<lambda>_.
           k_bind (k_vm_free kdir target allowedPages) (\<lambda>_.
           k_bind (k_threads thread (\<lambda>th. th\<lparr>t_tlsVirtual := vmemory, t_tlsPages := allowedPages\<rparr>)) (\<lambda>_.
           k_return vmemory))))))))))"

definition thread_setName :: "ptr \<Rightarrow> bool \<Rightarrow> bool \<Rightarrow> unit kop" where
  "thread_setName thread name errno =
     k_bind (k_lock_thread thread) (\<lambda>_.
     k_bind (k_thread thread) (\<lambda>th.
     k_bind (k_when (t_name th \<noteq> 0) (k_bind (k_hfree (t_name th)) (\<lambda>_. k_threads thread (\<lambda>th. th\<lparr>t_name := 0\<rparr>)))) (\<lambda>_.
     k_bind (k_when name
       (k_bind k_halloc (\<lambda>copy.
        if copy \<noteq> 0 then k_threads thread (\<lambda>th. th\<lparr>t_name := copy\<rparr>) else k_set_errno errno ENOMEM))) (\<lambda>_.
     k_unlock_thread thread))))"

text \<open>\<^verbatim>\<open>MIN(thread->maxTicks, MAX(1, priority))\<close> is computed with signed integers and stored in a byte.\<close>

definition thread_setPriority :: "int \<Rightarrow> thread_t \<Rightarrow> thread_t result" where
  "thread_setPriority priority th =
     bind_res (spinlock_lock (t_lock th)) (\<lambda>lck.
     Inr (th\<lparr>t_wantedTicks := word_of_int (min (uint (t_maxTicks th)) (max 1 priority)),
             t_lock := spinlock_unlock lck\<rparr>))"

lemmas k_prims = k_return_def k_bind_def k_fail_def k_modify_def k_get_def k_threads_def k_thread_def k_process_def
  k_when_def k_alloc_def k_release_def k_halloc_def k_hfree_def k_pm_alloc_def k_pm_free_def k_vm_alloc_def k_vm_free_def
  k_vm_allocTwoSidedLimit_def k_set_errno_def k_lock_thread_def k_unlock_thread_def k_clear_pages_def k_copy_pages_def
  k_sched_op_def

end
