(* ===== verification/ThreadResources.thy ===== *)
theory ThreadResources
  imports Threads "HOL-Library.Multiset"
begin

text \<open>
  What threads acquire and release: the log of an allocation is replayed against the multiset of the
  things held. A user thread returns all it took, also when its creation fails half-way; kernel threads
  and clones release more than they own. The stack frames that the creation forges are those the
  scheduler and the interrupt return expect.
\<close>

section \<open>Ownership\<close>

text \<open>
  What is held after a log of effects; releasing something that is not held is an error.
\<close>

fun owned :: "effect list \<Rightarrow> resource multiset \<Rightarrow> resource multiset option" where
  "owned [] M = Some M"
| "owned (Acquire r # es) M = owned es (add_mset r M)"
| "owned (Release r # es) M = (if r \<in># M then owned es (M - {#r#}) else None)"
| "owned (Remap d p v n f # es) M = owned es M"

lemma owned_append: "owned (xs @ ys) M = Option.bind (owned xs M) (owned ys)"
  by (induction xs M rule: owned.induct) auto

text \<open>What the destruction of a thread without listeners releases.\<close>

definition destroy_log :: "(ptr \<Rightarrow> ptr \<Rightarrow> ptr) \<Rightarrow> ptr \<Rightarrow> ptr \<Rightarrow> ptr \<Rightarrow> thread_t \<Rightarrow> resource list" where
  "destroy_log resolve dir kdir thread th =
     (if t_userStackVirt th \<noteq> 0 then [Pages dir (t_userStackVirt th) (t_userStackPages th)] else []) @
     (if t_userStack th \<noteq> 0 then [Frames (t_userStack th) (t_userStackPages th)] else []) @
     (if t_kernelStackVirt th \<noteq> 0 then [Pages dir (t_kernelStackVirt th) 1, Pages kdir (t_kernelStackVirt th) 1] else []) @
     (if t_tlsVirtual th \<noteq> 0
      then [Pages dir (t_tlsVirtual th) (t_tlsPages th), Frames (resolve dir (t_tlsVirtual th)) (t_tlsPages th)] else []) @
     (if t_kernelStack th \<noteq> 0 then [Frames (t_kernelStack th) 1] else []) @
     (if t_arguments th \<noteq> 0 then [Heap (t_arguments th)] else []) @
     (if t_name th \<noteq> 0 then [Heap (t_name th)] else []) @
     (if t_list th \<noteq> 0 then [Heap (t_list th)] else []) @ [Heap thread]"

lemma thread_destroy_log:
  assumes "t_lock (sd_threads (k_sched k) thread) = 0" "t_listener (sd_threads (k_sched k) thread) = []"
  shows "\<exists>k'. thread_destroy call resolve thread k = Inr ((), k') \<and>
      k_log k' = k_log k @ map Release (destroy_log resolve
        (p_pdirectory (sd_procs (k_sched k) (t_process (sd_threads (k_sched k) thread)))) (k_kernelDirectory k)
        thread (sd_threads (k_sched k) thread))"
  using assms by (auto simp: thread_destroy_def thread_notify_def k_prims destroy_log_def)

fun mem_store :: "ptr \<Rightarrow> u32 list \<Rightarrow> (ptr \<Rightarrow> u32) \<Rightarrow> ptr \<Rightarrow> u32" where
  "mem_store a [] m = m"
| "mem_store a (v # vs) m = mem_store (a + 4) vs (m(a := v))"

fun mem_push :: "ptr \<Rightarrow> u32 list \<Rightarrow> (ptr \<Rightarrow> u32) \<Rightarrow> ptr \<Rightarrow> u32" where
  "mem_push s [] m = m"
| "mem_push s (v # vs) m = mem_push (s - 4) vs (m(s - 4 := v))"

lemma k_store_eq [simp]: "k_store a vs k = Inr ((), k\<lparr>k_mem := mem_store a vs (k_mem k)\<rparr>)"
  by (induction a vs arbitrary: k rule: k_store.induct) (simp_all add: k_prims)

lemma k_pushes_eq [simp]:
  "k_pushes s vs k = Inr (s - 4 * of_nat (length vs), k\<lparr>k_mem := mem_push s vs (k_mem k)\<rparr>)"
  by (induction s vs arbitrary: k rule: k_pushes.induct) (simp_all add: k_push_def k_prims algebra_simps)

lemma thread_abort_log:
  assumes "t_lock (sd_threads (k_sched k) thread) = 0" "t_listener (sd_threads (k_sched k) thread) = []"
  shows "\<exists>k'. thread_abort call resolve thread errno k = Inr (0, k') \<and>
      k_log k' = k_log k @ map Release (destroy_log resolve
        (p_pdirectory (sd_procs (k_sched k) (t_process (sd_threads (k_sched k) thread)))) (k_kernelDirectory k)
        thread (sd_threads (k_sched k) thread))"
  using thread_destroy_log[OF assms, of call resolve] by (auto simp: thread_abort_def k_prims)

text \<open>What \<^verbatim>\<open>thread_createVoid\<close> leaves behind when it succeeds.\<close>

definition fresh :: "ptr \<Rightarrow> ptr \<Rightarrow> kenv \<Rightarrow> ptr \<Rightarrow> kenv \<Rightarrow> bool" where
  "fresh p entry k t k' \<longleftrightarrow> t \<noteq> 0 \<and> (\<exists>l. l \<noteq> 0 \<and>
     k_sched k' = thread_update t (thread_initial p entry l) (k_sched k) \<and>
     k_log k' = k_log k @ [Acquire (Heap t), Acquire (Heap l)] \<and> k_kernelDirectory k' = k_kernelDirectory k \<and>
     k_mem k' = k_mem k \<and> t \<in> set (k_results k))"

lemma k_next_mem: "k_next k \<noteq> 0 \<Longrightarrow> k_next k \<in> set (k_results k)"
  by (cases "k_results k") (simp_all add: k_next_def)

lemma thread_createVoid_fresh:
  assumes "k_log k = []"
  shows "\<exists>t k'. thread_createVoid p entry errno k = Inr (t, k') \<and>
      (if t = 0 then owned (k_log k') {#} = Some {#} else fresh p entry k t k')"
  using assms k_next_mem[of k] by (auto simp: thread_createVoid_def k_prims fresh_def)

text \<open>
  A calculus for such logs: the thread's record, its process' directory, the kernel directory and the log
  at one point of a run, and one rule for each primitive.
\<close>

definition at_point :: "ptr \<Rightarrow> thread_t \<Rightarrow> ptr \<Rightarrow> ptr \<Rightarrow> effect list \<Rightarrow> (ptr \<Rightarrow> u32) \<Rightarrow> kenv \<Rightarrow> bool" where
  "at_point t th dir kdir L m k \<longleftrightarrow>
     t \<noteq> 0 \<and> sd_threads (k_sched k) t = th \<and> p_pdirectory (sd_procs (k_sched k) (t_process th)) = dir \<and>
     t_lock th = 0 \<and> t_listener th = [] \<and> k_kernelDirectory k = kdir \<and> k_log k = L \<and> k_mem k = m"

text \<open>
  The outcome of a creation: \<open>F\<close> holds of the log when there is no thread, and \<open>S\<close> of the thread otherwise.
\<close>

definition leaves :: "(effect list \<Rightarrow> bool) \<Rightarrow> (ptr \<Rightarrow> thread_t \<Rightarrow> ptr \<Rightarrow> ptr \<Rightarrow> effect list \<Rightarrow> (ptr \<Rightarrow> u32) \<Rightarrow> bool) \<Rightarrow> (ptr \<times> kenv) result \<Rightarrow> bool" where
  "leaves F S r \<longleftrightarrow>
     (case r of Inl e \<Rightarrow> True
      | Inr (t, k) \<Rightarrow> if t = 0 then F (k_log k)
          else \<exists>th dir kdir. at_point t th dir kdir (k_log k) (k_mem k) k \<and> S t th dir kdir (k_log k) (k_mem k))"

definition balanced :: "effect list \<Rightarrow> bool" where
  "balanced L \<longleftrightarrow> owned L {#} = Some {#}"

definition overdrawn :: "effect list \<Rightarrow> bool" where
  "overdrawn L \<longleftrightarrow> owned L {#} = None"

definition destroys_to :: "(effect list \<Rightarrow> bool) \<Rightarrow> (ptr \<Rightarrow> ptr \<Rightarrow> ptr) \<Rightarrow> ptr \<Rightarrow> thread_t \<Rightarrow> ptr \<Rightarrow> ptr \<Rightarrow> effect list \<Rightarrow> (ptr \<Rightarrow> u32) \<Rightarrow> bool" where
  "destroys_to P resolve t th dir kdir L m \<longleftrightarrow> P (L @ map Release (destroy_log resolve dir kdir t th))"

lemma nl_alloc:
  assumes "at_point t th dir kdir L m k"
    "\<And>k'. at_point t th dir kdir L m k' \<Longrightarrow> leaves F S (f 0 k')"
    "\<And>x k'. x \<noteq> 0 \<Longrightarrow> at_point t th dir kdir (L @ map Acquire (what x)) m k' \<Longrightarrow> leaves F S (f x k')"
  shows "leaves F S (k_bind (k_alloc what) f k)"
  using assms by (cases "k_next k = 0") (simp_all add: at_point_def k_bind_def k_alloc_def)

lemmas nl_allocs = nl_alloc[where what = "\<lambda>x. [Heap x]", folded k_halloc_def]
  nl_alloc[where what = "\<lambda>x. [Frames x n]" for n, folded k_pm_alloc_def]
  nl_alloc[where what = "\<lambda>x. [Pages d x n]" for d n, folded k_vm_alloc_def]

lemma nl_twoSided:
  assumes "at_point t th dir kdir L m k"
    "\<And>x k'. x \<noteq> 0 \<Longrightarrow> at_point t th dir kdir (L @ [Acquire (Pages kdir x n), Acquire (Pages dir x n)]) m k' \<Longrightarrow>
       leaves F S (f x k')"
  shows "leaves F S (k_bind (k_vm_allocTwoSidedLimit dir n) f k)"
  using assms by (auto simp: at_point_def k_bind_def k_vm_allocTwoSidedLimit_def k_get_def k_alloc_def k_fail_def
      k_return_def leaves_def)

lemma nl_release:
  assumes "at_point t th dir kdir L m k"
    "\<And>k'. at_point t th dir kdir (L @ [Release r]) m k' \<Longrightarrow> leaves F S (f () k')"
  shows "leaves F S (k_bind (k_release r) f k)"
  using assms by (simp add: at_point_def k_bind_def k_release_def k_modify_def)

lemma nl_threads:
  assumes "at_point t th dir kdir L m k"
    "t_process (g th) = t_process th" "t_lock (g th) = 0" "t_listener (g th) = []"
    "\<And>k'. at_point t (g th) dir kdir L m k' \<Longrightarrow> leaves F S (f () k')"
  shows "leaves F S (k_bind (k_threads t g) f k)"
  using assms by (simp add: at_point_def k_bind_def k_threads_def k_modify_def)

lemma nl_mem:
  assumes "at_point t th dir kdir L m k"
  shows "(\<And>k'. at_point t th dir kdir L (\<lambda>a. if a - b < n * 4096 then 0 else m a) k' \<Longrightarrow> leaves F S (f () k')) \<Longrightarrow>
      leaves F S (k_bind (k_clear_pages b n) f k)"
    "(\<And>k'. at_point t th dir kdir L (\<lambda>a. if a - b < n * 4096 then m (c + (a - b)) else m a) k' \<Longrightarrow> leaves F S (f () k')) \<Longrightarrow>
      leaves F S (k_bind (k_copy_pages b c n) f k)"
    "(\<And>k'. at_point t th dir kdir L (mem_store b vs m) k' \<Longrightarrow> leaves F S (f () k')) \<Longrightarrow>
      leaves F S (k_bind (k_store b vs) f k)"
  using assms by (auto simp: at_point_def k_bind_def k_clear_pages_def k_copy_pages_def k_modify_def)

lemma k_bind_return [simp]: "k_bind (k_return x) f = f x"
  by (simp add: k_bind_def k_return_def fun_eq_iff)

lemma nl_pushes:
  assumes "at_point t th dir kdir L m k"
    "\<And>k'. at_point t th dir kdir L (mem_push s vs m) k' \<Longrightarrow> leaves F S (f (s - 4 * of_nat (length vs)) k')"
  shows "leaves F S (k_bind (k_pushes s vs) f k)"
  using assms by (simp add: at_point_def k_bind_def)

lemma nl_process:
  assumes "at_point t th dir kdir L m k" "t_process th = p"
    "\<And>pr. p_pdirectory pr = dir \<Longrightarrow> leaves F S (f pr k)"
  shows "leaves F S (k_bind (k_process p) f k)"
  using assms by (auto simp: at_point_def k_bind_def k_process_def k_get_def)

lemma nl_kernelDirectory:
  assumes "at_point t th dir kdir L m k" "leaves F S (f kdir k)"
  shows "leaves F S (k_bind (k_get k_kernelDirectory) f k)"
  using assms by (auto simp: at_point_def k_bind_def k_get_def)

lemma nl_when:
  assumes "b \<Longrightarrow> leaves F S (k_bind m f k)" "\<not> b \<Longrightarrow> leaves F S (f () k)"
  shows "leaves F S (k_bind (k_when b m) f k)"
  using assms by (simp add: k_when_def k_bind_def k_return_def)

lemma nl_attach:
  assumes "at_point t th dir kdir L m k"
    "\<And>i k'. at_point t (th\<lparr>t_id := i\<rparr>) dir kdir L m k' \<Longrightarrow> leaves F S (f () k')"
  shows "leaves F S (k_bind (k_sched_op (thread_attachToProcess p t)) f k)"
proof (cases "p_threadLock (sd_procs (k_sched k) p) = 0")
  case True
  then show ?thesis using assms
    by (auto simp: at_point_def k_bind_def k_sched_op_def thread_attachToProcess_def Let_def split: list.splits)
next
  case False
  then show ?thesis by (simp add: k_bind_def k_sched_op_def thread_attachToProcess_def spinlock_lock_def leaves_def)
qed

lemma nl_return:
  assumes "at_point t th dir kdir L m k" "S t th dir kdir L m"
  shows "leaves F S (k_return t k)"
  using assms by (auto simp: leaves_def k_return_def at_point_def)

lemma nl_abort:
  assumes "at_point t th dir kdir L m k" "F (L @ map Release (destroy_log resolve dir kdir t th))"
  shows "leaves F S (thread_abort call resolve t errno k)"
  using assms thread_abort_log[of k t call resolve errno] by (auto simp: leaves_def at_point_def)

text \<open>The start of all three creations.\<close>

lemma nl_createVoid:
  assumes "k_log k = []" "p_pdirectory (sd_procs (k_sched k) p) = dir"
    "\<And>k'. balanced (k_log k') \<Longrightarrow> leaves F S (f 0 k')"
    "\<And>t l k' th. t \<noteq> 0 \<Longrightarrow> l \<noteq> 0 \<Longrightarrow> t \<in> set (k_results k) \<Longrightarrow>
       at_point t (thread_initial p entry l th) dir (k_kernelDirectory k) [Acquire (Heap t), Acquire (Heap l)] (k_mem k) k' \<Longrightarrow>
       leaves F S (f t k')"
  shows "leaves F S (k_bind (thread_createVoid p entry errno) f k)"
proof -
  obtain t k' where v: "thread_createVoid p entry errno k = Inr (t, k')"
    "if t = 0 then owned (k_log k') {#} = Some {#} else fresh p entry k t k'"
    using thread_createVoid_fresh[OF assms(1)] by blast
  show ?thesis
  proof (cases "t = 0")
    case True
    then show ?thesis using v assms(3) by (simp add: k_bind_def balanced_def)
  next
    case False
    then obtain l where "l \<noteq> 0" "k_sched k' = thread_update t (thread_initial p entry l) (k_sched k)"
      "k_log k' = [Acquire (Heap t), Acquire (Heap l)]" "k_kernelDirectory k' = k_kernelDirectory k"
      "k_mem k' = k_mem k" "t \<in> set (k_results k)"
      using v assms(1) by (auto simp: fresh_def)
    then show ?thesis
      using assms(4)[of t l "sd_threads (k_sched k) t" k'] assms(2) False v(1)
      by (simp add: k_bind_def at_point_def thread_initial_def)
  qed
qed

lemmas nl_rules = nl_allocs nl_mem nl_pushes nl_attach nl_kernelDirectory nl_process nl_twoSided
  nl_release[where r = "Frames x n" for x n, folded k_pm_free_def]
  nl_release[where r = "Pages d x n" for d x n, folded k_vm_free_def]
  nl_release[where r = "Heap x" for x, folded k_hfree_def]

lemmas nl_evals = destroy_log_def thread_initial_def destroys_to_def balanced_def overdrawn_def

lemma leaves_destroys:
  assumes "leaves F (destroys_to P resolve) (Inr (t, k))" "t \<noteq> 0"
  shows "\<exists>k'. thread_destroy call resolve t k = Inr ((), k') \<and> P (k_log k')"
  using assms thread_destroy_log[of k t call resolve] by (auto simp: leaves_def destroys_to_def at_point_def)

lemma thread_createUserland_leaves:
  assumes "p_pdirectory (sd_procs (k_sched k) p) = dir" "k_log k = []"
  shows "leaves balanced (destroys_to balanced resolve) (thread_createUserland call resolve p entry sz args errno k)"
  unfolding thread_createUserland_def Let_def
  by (rule nl_createVoid[OF assms(2,1)], simp add: k_return_def leaves_def,
      ((rule nl_rules nl_threads, assumption) | rule nl_when | (rule nl_return nl_abort, assumption) | simp add: nl_evals)+)

lemma thread_createKernel_leaves:
  assumes "p_pdirectory (sd_procs (k_sched k) p) = dir" "k_log k = []"
  shows "leaves balanced (destroys_to overdrawn resolve) (thread_createKernel call resolve p entry [] errno k)"
  unfolding thread_createKernel_def Let_def
  by (rule nl_createVoid[OF assms(2,1)], simp add: k_return_def leaves_def,
      ((rule nl_rules nl_threads, assumption) | rule nl_when | (rule nl_return nl_abort, assumption) | simp add: nl_evals)+)

lemma nl_other:
  assumes "at_point t th dir kdir L m k" "u \<noteq> t" "\<And>k'. at_point t th dir kdir L m k' \<Longrightarrow> leaves F S (f () k')"
  shows "leaves F S (k_bind (k_threads u g) f k)" "leaves F S (k_bind (k_unlock_thread u) f k)"
  using assms by (simp_all add: at_point_def k_bind_def k_threads_def k_unlock_thread_def k_modify_def)

lemma nl_map:
  assumes "at_point t th dir kdir L m k" "\<And>k'. at_point t th dir kdir (L @ es) m k' \<Longrightarrow> leaves F S (f () k')"
  shows "leaves F S (k_bind (k_modify (\<lambda>k. k\<lparr>k_log := k_log k @ es\<rparr>)) f k)"
  using assms by (simp add: at_point_def k_bind_def k_modify_def)

lemma nl_lock:
  assumes "t_lock (sd_threads (k_sched k) u) = 0"
    "\<And>k'. k_sched k' = thread_update u (\<lambda>th. th\<lparr>t_lock := 1\<rparr>) (k_sched k) \<Longrightarrow> k_log k' = k_log k \<Longrightarrow>
       k_results k' = k_results k \<Longrightarrow> leaves F S (f () k')"
  shows "leaves F S (k_bind (k_lock_thread u) f k)"
  using assms by (simp add: k_prims)

lemma nl_thread: "leaves F S (f (sd_threads (k_sched k) u) k) \<Longrightarrow> leaves F S (k_bind (k_thread u) f k)"
  by (simp add: k_prims)

lemma thread_clone_leaves:
  assumes "k_log k = []" "source \<notin> set (k_results k)" "t_lock (sd_threads (k_sched k) source) = 0"
    and n: "t_userStackPages (sd_threads (k_sched k) source) \<noteq> 1"
  shows "leaves (\<lambda>_. True) (destroys_to overdrawn resolve) (thread_clone call resolve p source errno k)"
  unfolding thread_clone_def
proof (rule nl_lock[OF assms(3)], rule nl_thread, rule nl_createVoid[OF _ refl], goal_cases)
  case (1 k')
  then show ?case using assms(1) by simp
next
  case (2 k1 k')
  then show ?case by (simp add: leaves_def k_prims)
next
  case (3 k1 t l k' th)
  define src where "src = sd_threads (k_sched k1) source"
  have src: "t_userStackPages src \<noteq> 1" using n 3(1) by (simp add: src_def)
  have u: "source \<noteq> t" using 3(3,6) assms(2) by auto
  show ?case
    using 3(4,5,7) u src unfolding src_def[symmetric]
    by - (simp, ((rule nl_rules nl_threads nl_map, assumption) | (rule nl_other(2), assumption, assumption) | rule nl_when |
        (rule nl_return nl_abort, assumption) | simp add: nl_evals)+)
qed

lemma word4_inj: "4 * of_nat i = (4 * of_nat j :: u32) \<Longrightarrow> i < 1024 \<Longrightarrow> j < 1024 \<Longrightarrow> i = j"
proof -
  assume a: "4 * of_nat i = (4 * of_nat j :: u32)" "i < 1024" "j < 1024"
  have "unat (4 * of_nat i :: u32) = 4 * i" "unat (4 * of_nat j :: u32) = 4 * j"
    using a(2,3) by (simp_all add: unat_word_ariths unat_of_nat)
  then have "4 * i = 4 * j" unfolding a(1) by simp
  then show "i = j" by simp
qed

lemma mem_push_above:
  "length vs + j < 1024 \<Longrightarrow> mem_push s vs m (s + 4 * of_nat j) = m (s + 4 * of_nat j)"
proof (induction vs arbitrary: s m j)
  case (Cons v vs)
  have e: "s + 4 * of_nat j = (s - 4) + 4 * of_nat (Suc j)" by (simp add: algebra_simps)
  have "(4 :: u32) * of_nat (Suc j) \<noteq> 0" using word4_inj[of "Suc j" 0] Cons.prems by auto
  then have "s - 4 + 4 * of_nat (Suc j) \<noteq> s - 4" by (metis add_cancel_right_right)
  moreover have "mem_push (s - 4) vs (m(s - 4 := v)) (s - 4 + 4 * of_nat (Suc j)) = (m(s - 4 := v)) (s - 4 + 4 * of_nat (Suc j))"
    using Cons.prems by (intro Cons.IH) simp
  ultimately show ?case unfolding mem_push.simps e by (simp only: fun_upd_other not_False_eq_True)
qed simp

lemma mem_push_read:
  "length vs < 1024 \<Longrightarrow> i < length vs \<Longrightarrow>
   mem_push s vs m (s - 4 * of_nat (length vs) + 4 * of_nat i) = rev vs ! i"
proof (induction vs arbitrary: s m)
  case (Cons v vs)
  have e: "s - 4 * of_nat (length (v # vs)) + 4 * of_nat i = (s - 4) - 4 * of_nat (length vs) + 4 * of_nat i"
    by (simp add: algebra_simps)
  show ?case
  proof (cases "i < length vs")
    case True
    then have "mem_push (s - 4) vs (m(s - 4 := v)) ((s - 4) - 4 * of_nat (length vs) + 4 * of_nat i) = rev vs ! i"
      using Cons.prems by (intro Cons.IH) simp_all
    moreover have "rev (v # vs) ! i = rev vs ! i" using True by (simp add: nth_append)
    ultimately show ?thesis unfolding e by (simp only: mem_push.simps)
  next
    case False
    then have i: "i = length vs" using Cons.prems by simp
    have "mem_push (s - 4) vs (m(s - 4 := v)) (s - 4 + 4 * of_nat 0) = v"
      using Cons.prems by (subst mem_push_above) simp_all
    moreover have "rev (v # vs) ! i = v" by (simp add: nth_append i)
    moreover have "(s - 4) - 4 * of_nat (length vs) + 4 * of_nat i = s - 4 + 4 * of_nat 0" unfolding i by simp
    ultimately show ?thesis unfolding e by (simp only: mem_push.simps)
  qed
qed simp
definition frame_at :: "(ptr \<Rightarrow> u32) \<Rightarrow> ptr \<Rightarrow> u32 list \<Rightarrow> bool" where
  "frame_at m a vs \<longleftrightarrow> (\<forall>i < length vs. m (a + 4 * of_nat i) = rev vs ! i)"

lemma frame_at_push: "length vs < 1024 \<Longrightarrow> frame_at (mem_push s vs m) (s - 4 * of_nat (length vs)) vs"
  using mem_push_read by (simp add: frame_at_def)

definition user_frame :: "ptr \<Rightarrow> u32 \<Rightarrow> ptr \<Rightarrow> thread_t \<Rightarrow> ptr \<Rightarrow> ptr \<Rightarrow> effect list \<Rightarrow> (ptr \<Rightarrow> u32) \<Rightarrow> bool" where
  "user_frame entry argc t th dir kdir L m \<longleftrightarrow>
     t_esp th = t_kernelStackVirt th + 4096 - 76 \<and>
     frame_at m (t_esp th) (cpu_frame 0x23 (t_userStackVirt th + 4092 - argc * 4) 0x1B entry 0x23)"

definition kernel_frame :: "ptr \<Rightarrow> u32 \<Rightarrow> ptr \<Rightarrow> thread_t \<Rightarrow> ptr \<Rightarrow> ptr \<Rightarrow> effect list \<Rightarrow> (ptr \<Rightarrow> u32) \<Rightarrow> bool" where
  "kernel_frame entry argc t th dir kdir L m \<longleftrightarrow>
     t_esp th = t_kernelStackVirt th + 4096 - 4 * argc - 76 \<and>
     frame_at m (t_esp th) (cpu_frame 0x10 0 0x8 entry 0x10)"

lemma cpu_frame_push:
  "a = s - 76 \<Longrightarrow> frame_at (mem_push s (cpu_frame ss esp cs eip sreg) m) a (cpu_frame ss esp cs eip sreg)"
  using frame_at_push[of "cpu_frame ss esp cs eip sreg" s m] by (simp add: cpu_frame_def)

lemma length_cpu_frame: "length (cpu_frame ss esp cs eip sreg) = 19"
  by (simp add: cpu_frame_def)

lemma thread_createUserland_frame:
  assumes "p_pdirectory (sd_procs (k_sched k) p) = dir" "k_log k = []"
  shows "leaves (\<lambda>_. True) (user_frame entry (of_nat (length args)))
     (thread_createUserland call resolve p entry sz args errno k)"
  unfolding thread_createUserland_def Let_def
  by (rule nl_createVoid[OF assms(2,1)], simp add: k_return_def leaves_def,
      ((rule nl_rules nl_threads, assumption) | rule nl_when | (rule nl_return nl_abort, assumption) | rule cpu_frame_push |
       simp add: thread_initial_def user_frame_def sizeof_cpu_state_t_def)+)

lemma k_bind_assoc: "k_bind (k_bind m f) g = k_bind m (\<lambda>x. k_bind (f x) g)"
  by (simp add: k_bind_def fun_eq_iff bind_res_assoc case_prod_unfold)

lemma k_bind_if: "k_bind (if b then m else n) f = (if b then k_bind m f else k_bind n f)"
  by simp

lemma thread_createKernel_frame:
  assumes "p_pdirectory (sd_procs (k_sched k) p) = dir" "k_log k = []"
  shows "leaves (\<lambda>_. True) (kernel_frame entry (of_nat (length args)))
     (thread_createKernel call resolve p entry args errno k)"
  unfolding thread_createKernel_def Let_def k_bind_assoc k_bind_if
  by (cases "args = []"; simp only: if_True if_False; rule nl_createVoid[OF assms(2,1)], simp add: k_return_def leaves_def,
      ((rule nl_rules nl_threads, assumption) | rule nl_when | (rule nl_return nl_abort, assumption) | rule cpu_frame_push |
       simp add: thread_initial_def kernel_frame_def length_cpu_frame)+)

section \<open>Theorems\<close>

text \<open>
  C15. A user thread accounts for its resources: when its creation fails at any point, everything acquired
  has been released again, and destroying the created thread releases exactly what the creation
  acquired.
\<close>

theorem thread_createUserland_owns:
  assumes "k_log k = []" "thread_createUserland call resolve p entry sz args errno k = Inr (t, k')"
  shows "if t = 0 then balanced (k_log k')
     else \<exists>k''. thread_destroy call resolve t k' = Inr ((), k'') \<and> balanced (k_log k'')"
  using thread_createUserland_leaves[OF refl assms(1), where p = p and resolve = resolve and call = call and entry = entry and sz = sz and args = args and errno = errno] assms(2)
    leaves_destroys[of balanced balanced resolve t k' call]
  by (auto simp: leaves_def[of _ _ "Inr (0, k')"])

text \<open>
  Destroying a kernel thread unmaps its stack twice, and destroying a clone whose source has more than
  one page of user stack releases frames that were never allocated for it.
\<close>

theorem thread_destroy_overdraws:
  assumes "k_log k = []" "t \<noteq> 0"
    "thread_createKernel call resolve p entry [] errno k = Inr (t, k') \<or>
     thread_clone call resolve p source errno k = Inr (t, k') \<and> source \<notin> set (k_results k) \<and>
       t_lock (sd_threads (k_sched k) source) = 0 \<and> t_userStackPages (sd_threads (k_sched k) source) \<noteq> 1"
  shows "\<exists>k''. thread_destroy call resolve t k' = Inr ((), k'') \<and> overdrawn (k_log k'')"
  using assms(3)
proof (elim disjE conjE)
  assume "thread_createKernel call resolve p entry [] errno k = Inr (t, k')"
  then show ?thesis using thread_createKernel_leaves[OF refl assms(1), where p = p and resolve = resolve and call = call and entry = entry and errno = errno]
      leaves_destroys[OF _ assms(2)] by metis
next
  assume c: "thread_clone call resolve p source errno k = Inr (t, k')" and s: "source \<notin> set (k_results k)"
    "t_lock (sd_threads (k_sched k) source) = 0" "t_userStackPages (sd_threads (k_sched k) source) \<noteq> 1"
  show ?thesis using thread_clone_leaves[OF assms(1) s, of resolve call p errno] c leaves_destroys[OF _ assms(2)] by metis
qed

text \<open>
  C26. A new thread starts with the frame of 19 words that the interrupt return pops: adding the size of
  the frame to its stack pointer, as the scheduler does, gives the top of its kernel stack, below which
  room is left for the arguments of a kernel thread. The stack pointer of a user thread starts in the
  first of its at least 32 stack pages, so all but 4092 bytes of its stack are out of reach.
\<close>

theorem thread_create_frame:
  assumes "k_log k = []" "t \<noteq> 0" "thread_create call resolve p entry sz args errno k = Inr (t, k')"
  shows "let th = sd_threads (k_sched k') t; top = t_esp th + sizeof_cpu_state_t; argc = of_nat (length args) in
     if p_ring0 (sd_procs (k_sched k) p)
     then top = t_kernelStackVirt th + 4096 - 4 * argc \<and> frame_at (k_mem k') (t_esp th) (cpu_frame 0x10 0 0x8 entry 0x10)
     else top = t_kernelStackVirt th + 4096 \<and>
       frame_at (k_mem k') (t_esp th) (cpu_frame 0x23 (t_userStackVirt th + (4092 - 4 * argc)) 0x1B entry 0x23)"
proof -
  have c: "thread_create call resolve p entry sz args errno k =
      (if p_ring0 (sd_procs (k_sched k) p) then thread_createKernel call resolve p entry args errno k
       else thread_createUserland call resolve p entry sz args errno k)"
    by (simp add: thread_create_def k_bind_def k_process_def k_get_def)
  show ?thesis
    using assms(2,3) thread_createUserland_frame[OF refl assms(1), where p = p and resolve = resolve and call = call and entry = entry and sz = sz and args = args and errno = errno]
      thread_createKernel_frame[OF refl assms(1), where p = p and resolve = resolve and call = call and entry = entry and args = args and errno = errno]
    by (auto simp: c leaves_def at_point_def user_frame_def kernel_frame_def sizeof_cpu_state_t_def Let_def algebra_simps
        split: if_splits)
qed

text \<open>The same calculus for operations that do not create a thread.\<close>

definition log_point :: "sched \<Rightarrow> ptr \<Rightarrow> effect list \<Rightarrow> kenv \<Rightarrow> bool" where
  "log_point st kdir L k \<longleftrightarrow> k_sched k = st \<and> k_kernelDirectory k = kdir \<and> k_log k = L"

definition ends :: "('a \<Rightarrow> kenv \<Rightarrow> bool) \<Rightarrow> ('a \<times> kenv) result \<Rightarrow> bool" where
  "ends Q r \<longleftrightarrow> (case r of Inl e \<Rightarrow> True | Inr (x, k) \<Rightarrow> Q x k)"

lemma ends_get:
  assumes "log_point st kdir L k"
  shows "ends Q (f (sd_threads st t) k) \<Longrightarrow> ends Q (k_bind (k_thread t) f k)"
    "ends Q (g (sd_procs st p) k) \<Longrightarrow> ends Q (k_bind (k_process p) g k)"
    "ends Q (h kdir k) \<Longrightarrow> ends Q (k_bind (k_get k_kernelDirectory) h k)"
  using assms by (simp_all add: log_point_def k_prims)

lemma ends_alloc:
  assumes "log_point st kdir L k" "\<And>k'. log_point st kdir L k' \<Longrightarrow> ends Q (f 0 k')"
    "\<And>x k'. x \<noteq> 0 \<Longrightarrow> log_point st kdir (L @ map Acquire (what x)) k' \<Longrightarrow> ends Q (f x k')"
  shows "ends Q (k_bind (k_alloc what) f k)"
  using assms by (cases "k_next k = 0") (simp_all add: log_point_def k_bind_def k_alloc_def)

lemma ends_effects:
  assumes "log_point st kdir L k"
  shows "(\<And>k'. log_point st kdir (L @ [Release r]) k' \<Longrightarrow> ends Q (f () k')) \<Longrightarrow> ends Q (k_bind (k_release r) f k)"
    "(\<And>k'. log_point st kdir L k' \<Longrightarrow> ends Q (f () k')) \<Longrightarrow> ends Q (k_bind (k_clear_pages b c) f k)"
    "(\<And>k'. log_point st kdir L k' \<Longrightarrow> ends Q (f () k')) \<Longrightarrow> ends Q (k_bind (k_copy_pages b d c) f k)"
    "(\<And>k'. log_point st kdir L k' \<Longrightarrow> ends Q (f () k')) \<Longrightarrow> ends Q (k_bind (k_set_errno e i) f k)"
    "(\<And>k' st'. log_point st' kdir L k' \<Longrightarrow> ends Q (f () k')) \<Longrightarrow> ends Q (k_bind (k_threads t g) f k)"
    "(k_log k = L \<Longrightarrow> Q x k) \<Longrightarrow> ends Q (k_return x k)"
  using assms by (simp_all add: log_point_def k_prims ends_def)

lemma ends_fail: "ends Q (k_bind (k_fail e) f k)"
  by (simp add: k_prims ends_def)

lemma ends_when:
  assumes "b \<Longrightarrow> ends Q (k_bind m f k)" "\<not> b \<Longrightarrow> ends Q (f () k)"
  shows "ends Q (k_bind (k_when b m) f k)"
  using assms by (simp add: k_when_def)

lemmas ends_rules = ends_get ends_effects ends_alloc[where what = "\<lambda>x. [Frames x n]" for n, folded k_pm_alloc_def]
  ends_alloc[where what = "\<lambda>x. [Pages d x n]" for d n, folded k_vm_alloc_def]
  ends_effects(1)[where r = "Frames x n" for x n, folded k_pm_free_def]
  ends_effects(1)[where r = "Pages d x n" for d x n, folded k_vm_free_def]

text \<open>
  The first request for a thread's local storage acquires frames and pages for it and nothing else. A
  request for more pages replaces them, but the mapping of the old area in the kernel directory stays.
\<close>

theorem thread_getTLSArea_leaks:
  assumes "thread_getTLSArea resolve t n k = Inr (v, k')" "v \<noteq> - 1" "k_log k = []"
    "th = sd_threads (k_sched k) t" "dir = p_pdirectory (sd_procs (k_sched k) (t_process th))" "m = max 1 (min 5 n)"
    "t_tlsVirtual th = 0 \<or> t_tlsPages th < m"
  shows "\<exists>pm. if t_tlsVirtual th = 0
     then owned (k_log k') {#} = Some {#Frames pm m, Pages dir v m#}
     else \<exists>leak. owned (k_log k') {#Frames (resolve dir (t_tlsVirtual th)) (t_tlsPages th), Pages dir (t_tlsVirtual th) (t_tlsPages th)#} =
       Some {#Frames pm m, Pages dir v m, Pages (k_kernelDirectory k) leak (t_tlsPages th)#}"
proof -
  let ?tv = "t_tlsVirtual th" and ?tn = "t_tlsPages th" and ?kdir = "k_kernelDirectory k"
  let ?Q = "\<lambda>v k'. v \<noteq> - 1 \<longrightarrow> (\<exists>pm target leak. k_log k' =
      [Acquire (Frames pm m), Acquire (Pages dir v m), Acquire (Pages ?kdir target m)] @
      (if ?tv = 0 then [] else [Acquire (Pages ?kdir leak ?tn), Release (Pages dir ?tv ?tn), Release (Frames (resolve dir ?tv) ?tn)]) @
      [Release (Pages ?kdir target m)])"
  have k: "log_point (k_sched k) ?kdir [] k" using assms(3) by (simp add: log_point_def)
  have new: "\<not> (?tv \<noteq> 0 \<and> m \<le> ?tn)" using assms(7) by auto
  have "ends ?Q (thread_getTLSArea resolve t n k)"
    unfolding thread_getTLSArea_def Let_def
    by (rule ends_get(1)[OF k], fold assms(4-6), simp only: new if_False, rule ends_get(2)[OF k], fold assms(5),
        insert assms(7) k, cases "?tv = 0";
        ((rule ends_rules, assumption) | rule ends_when ends_fail | simp add: k_bind_assoc)+)
  then obtain pm target leak where "k_log k' =
      [Acquire (Frames pm m), Acquire (Pages dir v m), Acquire (Pages ?kdir target m)] @
      (if ?tv = 0 then [] else [Acquire (Pages ?kdir leak ?tn), Release (Pages dir ?tv ?tn), Release (Frames (resolve dir ?tv) ?tn)]) @
      [Release (Pages ?kdir target m)]"
    using assms(1,2) by (auto simp: ends_def)
  then show ?thesis by (intro exI[of _ pm]) (auto simp: add_mset_commute intro!: exI[of _ leak])
qed

definition sample_env :: "ptr list \<Rightarrow> kenv" where
  "sample_env rs = \<lparr>k_sched = process_update 3 (\<lambda>p. p\<lparr>p_pdirectory := 8192, p_ring0 := False, p_threads := []\<rparr>) sample_sched,
     k_results = rs, k_log = [], k_errno = 0, k_mem = (\<lambda>_. 0), k_kernelDirectory = 4096,
     k_pid = 1, k_lists = (\<lambda>_. the (list_create True 36 28 32)), k_fields = (\<lambda>_ _. 0)\<rparr>"

definition no_call :: "ptr \<Rightarrow> ptr \<Rightarrow> thread_event \<Rightarrow> unit kop" where
  "no_call c t e = k_return ()"

definition result_of :: "('a \<times> kenv) result \<Rightarrow> 'a option" where
  "result_of r = (case r of Inl e \<Rightarrow> None | Inr (x, k) \<Rightarrow> Some x)"

lemma result_ofE:
  assumes "result_of r = Some x"
  obtains k where "r = Inr (x, k)"
  using assms by (auto simp: result_of_def split: sum.splits)

lemma sample_sched_simps:
  "p_threadLock (sd_procs sample_sched 3) = 0" "sd_threads sample_sched 11 = sample_thread" "sd_procs sample_sched 1 = sample_process"
  by (simp_all add: sample_defs)

lemmas sample_evals = sample_env_def sample_sched_simps thread_createVoid_def k_prims k_next_def result_of_def Let_def
  thread_attachToProcess_def

lemma sample_user:
  "result_of (thread_createUserland no_call (\<lambda>_ _. 0) 3 400 100 [7] True (sample_env [900, 901, 902, 903, 904, 905, 906])) = Some 900"
  by (simp add: sample_evals thread_createUserland_def)

lemma sample_clone:
  "result_of (thread_clone no_call (\<lambda>_ _. 0) 3 11 True (sample_env [900, 901, 902, 903, 904, 905, 906])) = Some 900"
  by (simp add: sample_evals thread_clone_def sample_thread_def)

lemma sample_tls: "result_of (thread_getTLSArea (\<lambda>_ _. 0) 11 2 (sample_env [900, 901, 902])) = Some 901"
  by (simp add: sample_evals thread_getTLSArea_def sample_thread_def)

theorem thread_createUserland_owns_witness:
  "\<exists>k' k''. thread_createUserland no_call (\<lambda>_ _. 0) 3 400 100 [7] True (sample_env [900, 901, 902, 903, 904, 905, 906]) = Inr (900, k') \<and>
     thread_destroy no_call (\<lambda>_ _. 0) 900 k' = Inr ((), k'') \<and> balanced (k_log k'')"
proof -
  obtain k' where k': "thread_createUserland no_call (\<lambda>_ _. 0) 3 400 100 [7] True (sample_env [900, 901, 902, 903, 904, 905, 906]) = Inr (900, k')"
    using sample_user by (rule result_ofE)
  show ?thesis using thread_createUserland_owns[OF _ k'] k' by (simp add: sample_env_def)
qed

theorem thread_destroy_overdraws_witness:
  "\<exists>k' k''. thread_clone no_call (\<lambda>_ _. 0) 3 11 True (sample_env [900, 901, 902, 903, 904, 905, 906]) = Inr (900, k') \<and>
     thread_destroy no_call (\<lambda>_ _. 0) 900 k' = Inr ((), k'') \<and> overdrawn (k_log k'')"
proof -
  obtain k' where k': "thread_clone no_call (\<lambda>_ _. 0) 3 11 True (sample_env [900, 901, 902, 903, 904, 905, 906]) = Inr (900, k')"
    using sample_clone by (rule result_ofE)
  have "t_lock (sd_threads (k_sched (sample_env rs)) 11) = 0" "t_userStackPages (sd_threads (k_sched (sample_env rs)) 11) \<noteq> 1"
    "k_log (sample_env rs) = []" "k_results (sample_env rs) = rs" for rs
    by (simp_all add: sample_env_def sample_defs)
  then show ?thesis
    using thread_destroy_overdraws[of "sample_env [900, 901, 902, 903, 904, 905, 906]" 900 no_call "\<lambda>_ _. 0" 3 0 True k' 11] k'
    by simp
qed

theorem thread_create_frame_witness:
  "\<exists>k'. thread_create no_call (\<lambda>_ _. 0) 3 400 100 [7] True (sample_env [900, 901, 902, 903, 904, 905, 906]) = Inr (900, k') \<and>
     frame_at (k_mem k') (t_esp (sd_threads (k_sched k') 900))
       (cpu_frame 0x23 (t_userStackVirt (sd_threads (k_sched k') 900) + 4088) 0x1B 400 0x23)"
proof -
  have ring: "\<not> p_ring0 (sd_procs (k_sched (sample_env rs)) 3)" "k_log (sample_env rs) = []" for rs
    by (simp_all add: sample_env_def)
  have "result_of (thread_create no_call (\<lambda>_ _. 0) 3 400 100 [7] True (sample_env [900, 901, 902, 903, 904, 905, 906])) = Some 900"
    using sample_user by (simp add: thread_create_def k_bind_def k_process_def k_get_def ring)
  then obtain k' where k': "thread_create no_call (\<lambda>_ _. 0) 3 400 100 [7] True (sample_env [900, 901, 902, 903, 904, 905, 906]) = Inr (900, k')"
    by (rule result_ofE)
  show ?thesis using thread_create_frame[OF ring(2) _ k'] k' ring by (simp add: Let_def)
qed

theorem thread_getTLSArea_leaks_witness:
  "\<exists>k' pm. thread_getTLSArea (\<lambda>_ _. 0) 11 2 (sample_env [900, 901, 902]) = Inr (901, k') \<and>
     owned (k_log k') {#} = Some {#Frames pm 2, Pages 4096 901 2#}"
proof -
  obtain k' where k': "thread_getTLSArea (\<lambda>_ _. 0) 11 2 (sample_env [900, 901, 902]) = Inr (901, k')"
    using sample_tls by (rule result_ofE)
  show ?thesis using thread_getTLSArea_leaks[OF k' _ _ refl refl refl] k'
    by (simp add: sample_env_def sample_defs)
qed

end
