(* ===== verification/Mmap.thy ===== *)
theory Mmap
  imports ThreadResources
begin

text \<open>
  \<^verbatim>\<open>src/sys/syscall/scmmap.c\<close>: the mappings a process asks for. The descriptions are entries of a linked list
  (\<^verbatim>\<open>container/list.c\<close>); a field of a description is the memory at the entry's address and the field's offset,
  which is also how the list operations see its links.
\<close>

section \<open>Descriptions\<close>

definition PROT_NONE :: u32 where "PROT_NONE = 0"

definition PROT_READ :: u32 where "PROT_READ = 1"

definition PROT_WRITE :: u32 where "PROT_WRITE = 2"

definition MAP_SHARED :: u32 where "MAP_SHARED = 1"

definition MAP_PRIVATE :: u32 where "MAP_PRIVATE = 2"

definition MAP_ANONYMOUS :: u32 where "MAP_ANONYMOUS = 4"

definition MAP_FAILED :: u32 where "MAP_FAILED = - 1"

datatype dfield = d_process | d_vaddress | d_paddress | d_length | d_protection | d_next | d_prev | d_listNext | d_listPrev

fun offsetof :: "dfield \<Rightarrow> u32" where
  "offsetof d_process = 0"
| "offsetof d_vaddress = 4"
| "offsetof d_paddress = 8"
| "offsetof d_length = 12"
| "offsetof d_protection = 16"
| "offsetof d_next = 20"
| "offsetof d_prev = 24"
| "offsetof d_listNext = 28"
| "offsetof d_listPrev = 32"

text \<open>Reading and writing a field; a null pointer faults.\<close>

definition k_field :: "dfield \<Rightarrow> ptr \<Rightarrow> u32 kop" where
  "k_field f e = (if e = 0 then k_fail OutOfBounds else k_get (\<lambda>k. k_fields k (offsetof f) e))"

definition k_setField :: "dfield \<Rightarrow> ptr \<Rightarrow> u32 \<Rightarrow> unit kop" where
  "k_setField f e v =
     (if e = 0 then k_fail OutOfBounds else k_modify (\<lambda>k. k\<lparr>k_fields := mem_write (k_fields k) (offsetof f) e v\<rparr>))"

fun k_setFields :: "ptr \<Rightarrow> (dfield \<times> u32) list \<Rightarrow> unit kop" where
  "k_setFields e [] = k_return ()"
| "k_setFields e ((f, v) # fs) = k_bind (k_setField f e v) (\<lambda>_. k_setFields e fs)"

section \<open>The list of a process\<close>

definition k_list :: "ptr \<Rightarrow> (list_t \<Rightarrow> lmem \<Rightarrow> (list_t \<times> lmem) result) \<Rightarrow> unit kop" where
  "k_list process f k =
     bind_res (f (k_lists k process) (k_fields k)) (\<lambda>(list, mem).
     Inr ((), k\<lparr>k_lists := (k_lists k)(process := list), k_fields := mem\<rparr>))"

definition mm_lock :: "ptr \<Rightarrow> unit kop" where
  "mm_lock process = k_list process (\<lambda>list mem. bind_res (list_lock list) (\<lambda>list. Inr (list, mem)))"

definition mm_unlock :: "ptr \<Rightarrow> unit kop" where
  "mm_unlock process = k_list process (\<lambda>list mem. Inr (list_unlock list, mem))"

definition mm_addBack :: "ptr \<Rightarrow> ptr kop" where
  "mm_addBack process =
     k_bind k_halloc (\<lambda>entry.
     k_bind (k_list process (\<lambda>list mem. bind_res (list_addBack list mem entry) (\<lambda>(_, list, mem). Inr (list, mem)))) (\<lambda>_.
     k_return entry))"

definition mm_remove :: "ptr \<Rightarrow> ptr \<Rightarrow> unit kop" where
  "mm_remove process entry =
     k_bind (k_list process (\<lambda>list mem. bind_res (list_remove list mem entry) (\<lambda>(list, mem, _). Inr (list, mem)))) (\<lambda>_.
     k_hfree entry)"

definition mm_first :: "ptr \<Rightarrow> ptr kop" where
  "mm_first process = k_get (\<lambda>k. l_first (k_lists k process))"

definition k_copy_bytes :: "ptr \<Rightarrow> ptr \<Rightarrow> u32 \<Rightarrow> unit kop" where
  "k_copy_bytes dst src n =
     k_modify (\<lambda>k. k\<lparr>k_mem := (\<lambda>a. if a - dst < n then k_mem k (src + (a - dst)) else k_mem k a)\<rparr>)"

text \<open>\<^verbatim>\<open>vm_alloc\<close> and \<^verbatim>\<open>vm_allocLimit\<close> assert that at least one page is wanted.\<close>

definition mm_vm_alloc :: "ptr \<Rightarrow> u32 \<Rightarrow> ptr kop" where
  "mm_vm_alloc dir pages = (if pages = 0 then k_fail KernelPanic else k_vm_alloc dir pages)"

section \<open>Operations\<close>

definition mmap_vmflagsForProtectionFlags :: "u32 \<Rightarrow> u32" where
  "mmap_vmflagsForProtectionFlags protection =
     (let vmflags = VM_PAGETABLEFLAG_PRESENT;
          vmflags = (if protection AND PROT_NONE = 0 then vmflags OR VM_FLAGS_USERLAND else vmflags)
      in if protection AND PROT_READ = 0 \<and> protection AND PROT_WRITE \<noteq> 0
         then vmflags OR VM_PAGETABLEFLAG_WRITEABLE else vmflags)"

text \<open>
  Splitting off the part of a description from \<open>address\<close> on. The results that the callers ignore are left
  out; \<^verbatim>\<open>list_addBack\<close> may fail, and the new description is then written through a null pointer.
\<close>

definition mmap_splitDescription :: "ptr \<Rightarrow> u32 \<Rightarrow> u32 \<Rightarrow> unit kop" where
  "mmap_splitDescription description address len =
     k_bind (k_field d_process description) (\<lambda>process.
     let len = (if len mod 4096 \<noteq> 0 then VM_PAGE_ALIGN_UP len else len) in
     k_bind (k_field d_length description) (\<lambda>dlen.
     if dlen = len then k_return ()
     else
       k_bind (k_field d_vaddress description) (\<lambda>dv.
       k_bind (k_field d_paddress description) (\<lambda>dp.
       k_bind (k_field d_protection description) (\<lambda>dprot.
       k_bind (k_field d_next description) (\<lambda>dnext.
       k_bind (k_field d_prev description) (\<lambda>dprev.
       if dv = address then
         k_bind (mm_addBack process) (\<lambda>next'.
         k_bind (k_setFields next' [(d_paddress, dp + len), (d_vaddress, dv + len), (d_length, dlen - len),
           (d_protection, dprot), (d_next, dnext), (d_process, process)]) (\<lambda>_.
         k_setFields description [(d_length, dlen - (dlen - len)), (d_next, next')]))
       else if dv + dlen = address + len then
         k_bind (mm_addBack process) (\<lambda>prev'.
         k_bind (k_setFields prev' [(d_paddress, dp), (d_vaddress, dv), (d_length, dlen - len),
           (d_protection, dprot), (d_prev, dprev), (d_process, process)]) (\<lambda>_.
         k_setFields description [(d_vaddress, dv + (dlen - len)), (d_paddress, dp + (dlen - len)),
           (d_length, dlen - (dlen - len)), (d_prev, prev')]))
       else
         k_bind (mm_addBack process) (\<lambda>prev'.
         k_bind (k_setFields prev' [(d_paddress, dp), (d_vaddress, dv), (d_length, address - dv),
           (d_protection, dprot), (d_prev, dprev), (d_process, process)]) (\<lambda>_.
         k_bind (mm_addBack process) (\<lambda>next'.
         k_bind (k_setFields next' [(d_paddress, dp + len), (d_vaddress, dv + len),
           (d_length, (dv + dlen) - (address + len)), (d_protection, dprot), (d_next, dnext), (d_process, process)]) (\<lambda>_.
         k_setFields description [(d_vaddress, dv + (address - dv)), (d_paddress, dp + (address - dv)),
           (d_length, dlen - ((address - dv) + ((dv + dlen) - (address + len)))),
           (d_prev, prev'), (d_next, next')])))))))))))"

definition mmap_joinDescription :: "ptr \<Rightarrow> ptr \<Rightarrow> unit kop" where
  "mmap_joinDescription description joining =
     k_bind (k_field d_next description) (\<lambda>dnext.
     k_bind (k_field d_prev description) (\<lambda>dprev.
     if \<not> (joining = dnext \<or> joining = dprev) then k_fail Assertion
     else
       k_bind (k_field d_process description) (\<lambda>process.
       k_bind (k_field d_length description) (\<lambda>dlen.
       k_bind (k_field d_length joining) (\<lambda>jlen.
       k_bind (if dnext = joining then
           k_bind (k_field d_next joining) (\<lambda>n. k_setFields description [(d_next, n), (d_length, dlen + jlen)])
         else
           k_bind (k_field d_prev joining) (\<lambda>p.
           k_bind (k_field d_vaddress joining) (\<lambda>v.
           k_bind (k_field d_paddress joining) (\<lambda>pa.
           k_setFields description [(d_prev, p), (d_length, dlen + jlen), (d_vaddress, v), (d_paddress, pa)])))) (\<lambda>_.
       mm_remove process joining))))))"

text \<open>
  The walk along the fragments of a mapping, which ends at the fragment that holds the last byte wanted; a
  fragment that is too long is split. The \<open>fuel\<close> bounds the number of fragments visited.
\<close>

fun join_search :: "nat \<Rightarrow> ptr \<Rightarrow> u32 \<Rightarrow> ptr kop" where
  "join_search 0 current lengthLeft = k_fail Diverges"
| "join_search (Suc fuel) current lengthLeft =
     (if current = 0 then k_return 0
      else
        k_bind (k_field d_length current) (\<lambda>clen.
        if lengthLeft \<le> clen then
          k_bind (k_field d_vaddress current) (\<lambda>cv.
          k_bind (k_when (clen - lengthLeft > 0) (mmap_splitDescription current cv (clen - lengthLeft))) (\<lambda>_.
          k_return current))
        else
          k_bind (k_field d_next current) (\<lambda>nxt. join_search fuel nxt (lengthLeft - clen))))"

fun join_loop :: "nat \<Rightarrow> ptr \<Rightarrow> ptr \<Rightarrow> unit kop" where
  "join_loop 0 description last' = k_fail Diverges"
| "join_loop (Suc fuel) description last' =
     k_bind (k_field d_next description) (\<lambda>current.
     k_bind (mmap_joinDescription description current) (\<lambda>_.
     if current = last' then k_return () else join_loop fuel description last'))"

definition mmap_tryJoinFragments :: "nat \<Rightarrow> ptr \<Rightarrow> u32 \<Rightarrow> u32 \<Rightarrow> bool kop" where
  "mmap_tryJoinFragments fuel description address len =
     k_bind (k_field d_next description) (\<lambda>current.
     k_bind (k_field d_vaddress description) (\<lambda>dv.
     k_bind (k_field d_length description) (\<lambda>dlen.
     k_bind (join_search fuel current ((address + len) - (dv + dlen))) (\<lambda>last'.
     if last' \<noteq> 0 then k_bind (join_loop fuel description last') (\<lambda>_. k_return True)
     else k_return False))))"

text \<open>The system calls; the arguments are the words on the user's stack.\<close>

definition sc_mmap_failed :: "ptr \<Rightarrow> ptr \<Rightarrow> u32 kop" where
  "sc_mmap_failed process description =
     k_bind (mm_remove process description) (\<lambda>_. k_bind (mm_unlock process) (\<lambda>_. k_return MAP_FAILED))"

definition sc_mmap :: "ptr \<Rightarrow> u32 \<Rightarrow> u32 \<Rightarrow> u32 \<Rightarrow> u32 \<Rightarrow> u32 kop" where
  "sc_mmap process address len protection mflags =
     k_bind (mm_lock process) (\<lambda>_.
     k_bind (mm_addBack process) (\<lambda>description.
     if description = 0 then
       k_bind (mm_unlock process) (\<lambda>_. k_bind (k_set_errno True ENOMEM) (\<lambda>_. k_return MAP_FAILED))
     else
       k_bind (k_setField d_process description process) (\<lambda>_.
       if mflags AND MAP_PRIVATE \<noteq> 0 \<and> mflags AND MAP_SHARED \<noteq> 0 then sc_mmap_failed process description
       else if mflags AND MAP_PRIVATE \<noteq> 0 \<and> mflags AND MAP_ANONYMOUS \<noteq> 0 then
         (if address mod 4096 \<noteq> 0 \<or> len mod 4096 \<noteq> 0 then
            k_bind (mm_unlock process) (\<lambda>_. k_bind (k_set_errno True EINVAL) (\<lambda>_. k_return MAP_FAILED))
          else
            k_bind (k_process process) (\<lambda>p.
            k_bind (k_get k_kernelDirectory) (\<lambda>kdir.
            let dir = p_pdirectory p; pages = VM_PAGE_COUNT len in
            k_bind (k_pm_alloc pages) (\<lambda>pmemory.
            if pmemory = 0 then k_bind (k_set_errno True ENOMEM) (\<lambda>_. sc_mmap_failed process description)
            else
              k_bind (k_bind (mm_vm_alloc dir pages) (\<lambda>vmemory.
                if address \<noteq> 0 \<and> vmemory = 0 then mm_vm_alloc dir pages else k_return vmemory)) (\<lambda>vmemory.
              if vmemory = 0 then
                k_bind (k_set_errno True ENOMEM) (\<lambda>_.
                k_bind (k_pm_free pmemory pages) (\<lambda>_. sc_mmap_failed process description))
              else
                k_bind (mm_vm_alloc kdir pages) (\<lambda>memory.
                if memory = 0 then
                  k_bind (k_set_errno True ENOMEM) (\<lambda>_.
                  k_bind (k_vm_free dir vmemory pages) (\<lambda>_.
                  k_bind (k_pm_free pmemory pages) (\<lambda>_. sc_mmap_failed process description)))
                else
                  k_bind (k_clear_pages memory pages) (\<lambda>_.
                  k_bind (k_vm_free kdir memory pages) (\<lambda>_.
                  k_bind (k_setFields description [(d_vaddress, vmemory), (d_paddress, pmemory), (d_length, len),
                    (d_protection, protection)]) (\<lambda>_.
                  k_bind (mm_unlock process) (\<lambda>_. k_return vmemory))))))))))
       else sc_mmap_failed process description)))"

text \<open>
  The search of \<^verbatim>\<open>munmap\<close> and \<^verbatim>\<open>mprotect\<close> starts at the first description of the list and follows its
  fragments.
\<close>

fun mm_find :: "nat \<Rightarrow> ptr \<Rightarrow> u32 \<Rightarrow> ptr kop" where
  "mm_find 0 description address = k_fail Diverges"
| "mm_find (Suc fuel) description address =
     (if description = 0 then k_return 0
      else
        k_bind (k_field d_vaddress description) (\<lambda>dv.
        k_bind (k_field d_length description) (\<lambda>dlen.
        if dv \<ge> address \<and> address \<le> dv + dlen then k_return description
        else k_bind (k_field d_next description) (\<lambda>nxt. mm_find fuel nxt address))))"

definition sc_mm_apply :: "nat \<Rightarrow> (ptr \<Rightarrow> unit kop) \<Rightarrow> ptr \<Rightarrow> u32 \<Rightarrow> u32 \<Rightarrow> u32 kop" where
  "sc_mm_apply fuel action process address len =
     (if address mod 4096 \<noteq> 0 \<or> len = 0 then k_bind (k_set_errno True EINVAL) (\<lambda>_. k_return (- 1))
      else
        k_bind (mm_lock process) (\<lambda>_.
        k_bind (mm_first process) (\<lambda>first.
        k_bind (mm_find fuel first address) (\<lambda>description.
        if description = 0 then
          k_bind (mm_unlock process) (\<lambda>_. k_bind (k_set_errno True EINVAL) (\<lambda>_. k_return (- 1)))
        else
          k_bind (k_field d_vaddress description) (\<lambda>dv.
          k_bind (k_field d_length description) (\<lambda>dlen.
          k_bind (if address + len > dv + dlen then mmap_tryJoinFragments fuel description address len
            else k_return True) (\<lambda>ok.
          if \<not> ok then k_bind (k_set_errno True ENOMEM) (\<lambda>_. k_return (- 1))
          else
            k_bind (mmap_splitDescription description address len) (\<lambda>_.
            k_bind (action description) (\<lambda>_.
            k_bind (mm_unlock process) (\<lambda>_.
            k_return 0))))))))))"

definition sc_munmap :: "nat \<Rightarrow> ptr \<Rightarrow> u32 \<Rightarrow> u32 \<Rightarrow> u32 kop" where
  "sc_munmap fuel process =
     sc_mm_apply fuel (\<lambda>description.
       k_bind (k_process process) (\<lambda>p.
       k_bind (k_field d_length description) (\<lambda>dlen.
       k_bind (k_field d_vaddress description) (\<lambda>dv.
       let pages = VM_PAGE_COUNT dlen in
       k_bind (k_vm_free (p_pdirectory p) dv pages) (\<lambda>_.
       k_bind (k_pm_free dv pages) (\<lambda>_.
       mm_remove process description)))))) process"

text \<open>\<^verbatim>\<open>vm_mapPageRange\<close> overwrites the entries of pages that are mapped; the log records it as such.\<close>

definition sc_mprotect :: "nat \<Rightarrow> ptr \<Rightarrow> u32 \<Rightarrow> u32 \<Rightarrow> u32 \<Rightarrow> u32 kop" where
  "sc_mprotect fuel process address len protection =
     sc_mm_apply fuel (\<lambda>description.
       k_bind (k_process process) (\<lambda>p.
       k_bind (k_field d_length description) (\<lambda>dlen.
       k_bind (k_field d_vaddress description) (\<lambda>dv.
       k_bind (k_field d_paddress description) (\<lambda>dp.
       k_bind (k_modify (\<lambda>k. k\<lparr>k_log := k_log k @
         [Remap (p_pdirectory p) dp dv (VM_PAGE_COUNT dlen) (mmap_vmflagsForProtectionFlags protection)]\<rparr>)) (\<lambda>_.
       k_setField d_protection description protection)))))) process address len"

fun mmap_copyLoop :: "nat \<Rightarrow> ptr \<Rightarrow> ptr \<Rightarrow> unit kop" where
  "mmap_copyLoop 0 target src = k_fail Diverges"
| "mmap_copyLoop (Suc fuel) target src =
     (if src = 0 then k_return ()
      else
        k_bind (mm_addBack target) (\<lambda>dst.
        k_bind (k_field d_length src) (\<lambda>slen.
        k_bind (k_field d_vaddress src) (\<lambda>sv.
        k_bind (k_field d_protection src) (\<lambda>sprot.
        let pages = VM_PAGE_COUNT slen in
        k_bind (k_pm_alloc pages) (\<lambda>pm.
        k_bind (k_setFields dst [(d_paddress, pm), (d_vaddress, sv), (d_protection, sprot), (d_length, slen)]) (\<lambda>_.
        k_bind (k_process target) (\<lambda>t.
        if pm = 0 \<and> pages \<noteq> 0 then k_fail KernelPanic
        else
          k_bind (k_modify (\<lambda>k. k\<lparr>k_log := k_log k @ [Acquire (Pages (p_pdirectory t) sv pages)]\<rparr>)) (\<lambda>_.
          k_bind (k_get k_kernelDirectory) (\<lambda>kdir.
          k_bind (mm_vm_alloc kdir pages) (\<lambda>srcmem.
          k_bind (mm_vm_alloc kdir pages) (\<lambda>dstmem.
          if srcmem = 0 \<or> dstmem = 0 then k_fail OutOfBounds
          else
            k_bind (k_copy_bytes dstmem srcmem slen) (\<lambda>_.
            k_bind (k_vm_free kdir srcmem pages) (\<lambda>_.
            k_bind (k_vm_free kdir dstmem pages) (\<lambda>_.
            k_bind (k_field d_next src) (\<lambda>nxt.
            mmap_copyLoop fuel target nxt))))))))))))))))"

definition mmap_copyMappings :: "nat \<Rightarrow> ptr \<Rightarrow> ptr \<Rightarrow> bool kop" where
  "mmap_copyMappings fuel target source =
     k_bind (mm_lock target) (\<lambda>_.
     k_bind (mm_lock source) (\<lambda>_.
     k_bind (mm_first source) (\<lambda>first.
     k_bind (mmap_copyLoop fuel target first) (\<lambda>_.
     k_bind (mm_unlock source) (\<lambda>_.
     k_bind (mm_unlock target) (\<lambda>_.
     k_return True))))))"

section \<open>Facts about descriptions and their list\<close>

lemma mem_write_read: "mem_write m f e v f' e' = (if f' = f \<and> e' = e then v else m f' e')"
  by (simp add: mem_write_def)

lemma k_field_ok [simp]: "e \<noteq> 0 \<Longrightarrow> k_field f e k = Inr (k_fields k (offsetof f) e, k)"
  by (simp add: k_field_def k_get_def)

lemma k_setField_ok [simp]:
  "e \<noteq> 0 \<Longrightarrow> k_setField f e v k = Inr ((), k\<lparr>k_fields := mem_write (k_fields k) (offsetof f) e v\<rparr>)"
  by (simp add: k_setField_def k_modify_def)

text \<open>A list in which \<^verbatim>\<open>list_create\<close> has put the offsets of the links, and whose internal lock is free.\<close>

definition map_list :: "list_t \<Rightarrow> bool" where
  "map_list list \<longleftrightarrow> l_offsetNext list = 28 \<and> l_offsetPrev list = 32 \<and> l_fillEntry list = None \<and> l_internalLock list = 0"

definition is_link :: "dfield \<Rightarrow> bool" where
  "is_link f \<longleftrightarrow> f = d_listNext \<or> f = d_listPrev"

lemma offsetof_link: "\<not> is_link f \<Longrightarrow> offsetof f \<noteq> 28 \<and> offsetof f \<noteq> 32"
  by (cases f) (simp_all add: is_link_def)

text \<open>Adding a description succeeds when its block is allocated; all fields but the links are 0.\<close>

lemma mm_addBack_ok:
  assumes "map_list (k_lists k p)" "k_next k = e" "e \<noteq> 0"
  obtains k' where "mm_addBack p k = Inr (e, k')" "map_list (k_lists k' p)" "l_lock (k_lists k' p) = l_lock (k_lists k p)"
    "\<And>f x. \<not> is_link f \<Longrightarrow> k_fields k' (offsetof f) x = (if x = e then 0 else k_fields k (offsetof f) x)"
    "k_results k' = tl (k_results k)" "k_log k' = k_log k @ [Acquire (Heap e)]"
    "k_sched k' = k_sched k" "k_kernelDirectory k' = k_kernelDirectory k" "l_first (k_lists k p) \<noteq> 0 \<longrightarrow> l_first (k_lists k' p) = l_first (k_lists k p)"
proof -
  let ?list = "k_lists k p"
  obtain list' mem' where ins: "list_insertBack ?list (\<lambda>off. (k_fields k off)(e := 0)) e = Inr (list', mem')"
    "map_list list'" "l_lock list' = l_lock ?list" "l_first ?list \<noteq> 0 \<longrightarrow> l_first list' = l_first ?list"
    "\<And>off x. off \<noteq> 28 \<Longrightarrow> off \<noteq> 32 \<Longrightarrow> mem' off x = (if x = e then 0 else k_fields k off x)"
    using assms(1) by (auto simp: list_insertBack_def map_list_def Let_def mem_write_read)
  have "list_addBack ?list (k_fields k) e = Inr (e, list', mem')"
    using ins(1) assms by (simp add: list_addBack_def list_addWith_def map_list_def)
  then show ?thesis
    using ins offsetof_link assms(2,3)
    by (intro that[of "k\<lparr>k_results := tl (k_results k), k_log := k_log k @ [Acquire (Heap e)],
          k_lists := (k_lists k)(p := list'), k_fields := mem'\<rparr>"])
      (simp_all add: mm_addBack_def k_bind_def k_halloc_def k_alloc_def k_list_def k_return_def)
qed

section \<open>Splitting\<close>

definition piece :: "kenv \<Rightarrow> ptr \<Rightarrow> u32 \<times> u32 \<times> u32" where
  "piece k e = (k_fields k (offsetof d_vaddress) e, k_fields k (offsetof d_paddress) e, k_fields k (offsetof d_length) e)"

lemma not_links [simp]: "\<not> is_link d_vaddress" "\<not> is_link d_paddress" "\<not> is_link d_length" "\<not> is_link d_protection"
  "\<not> is_link d_next" "\<not> is_link d_prev" "\<not> is_link d_process"
  by (simp_all add: is_link_def)

lemmas split_evals = mmap_splitDescription_def k_bind_def k_return_def mem_write_read piece_def Let_def

text \<open>
  C12. Splitting the range of \<open>n\<close> bytes at \<open>address\<close> off a description: at its start and at its end the two
  descriptions are adjacent and cover the old one, in virtual as in physical memory. In the middle the
  right part is put at \<^verbatim>\<open>vaddress + n\<close> instead of \<^verbatim>\<open>address + n\<close>, so it overlaps its neighbours.
\<close>

theorem mmap_split_pieces:
  assumes "map_list (k_lists k proc)" "k_fields k (offsetof d_process) e = proc" "e \<noteq> 0" "piece k e = (v, p, len)"
    "n mod 4096 = 0" "n \<noteq> len" "k_results k = a # b # rs" "a \<noteq> 0" "b \<noteq> 0" "a \<noteq> e" "b \<noteq> e" "a \<noteq> b"
  shows "\<exists>k'. mmap_splitDescription e address n k = Inr ((), k') \<and>
     (if address = v then piece k' e = (v, p, n) \<and> piece k' a = (v + n, p + n, len - n)
      else if v + len = address + n then piece k' a = (v, p, address - v) \<and> piece k' e = (address, p + (address - v), n)
      else piece k' a = (v, p, address - v) \<and> piece k' e = (address, p + (address - v), n) \<and>
        piece k' b = (v + n, p + n, v + len - (address + n)))"
proof -
  have next_a: "k_next k = a" using assms(7) by (simp add: k_next_def)
  obtain k1 where k1: "mm_addBack proc k = Inr (a, k1)" "map_list (k_lists k1 proc)"
    "\<And>f x. \<not> is_link f \<Longrightarrow> k_fields k1 (offsetof f) x = (if x = a then 0 else k_fields k (offsetof f) x)"
    "k_results k1 = b # rs"
    by (rule mm_addBack_ok[OF assms(1) next_a assms(8)]) (use assms(7) in auto)
  note f1 = k1(3)[of d_vaddress, simplified] k1(3)[of d_paddress, simplified] k1(3)[of d_length, simplified]
    k1(3)[of d_next, simplified] k1(3)[of d_prev, simplified] k1(3)[of d_protection, simplified]
  have fields: "k_fields k 4 e = v" "k_fields k 8 e = p" "k_fields k 12 e = len" "k_fields k 0 e = proc"
    using assms(2,4) by (auto simp: piece_def)
  consider (head) "address = v" | (tail) "address \<noteq> v" "v + len = address + n" | (mid) "address \<noteq> v" "v + len \<noteq> address + n"
    by blast
  then show ?thesis
  proof cases
    case head
    then show ?thesis using assms(3,5,6,8,10) fields k1(1) by (auto simp: split_evals f1)
  next
    case tail
    then have "len - n = address - v" "len - (address - v) = n" by (simp_all add: algebra_simps)
    then show ?thesis using tail assms(3,5,6,8,10) fields k1(1) by (auto simp: split_evals f1)
  next
    case mid
    define prot next' prev' where "prot = k_fields k 16 e" and "next' = k_fields k 20 e" and "prev' = k_fields k 24 e"
    define fs where "fs = [(d_paddress, p), (d_vaddress, v), (d_length, address - v), (d_protection, prot), (d_prev, prev'), (d_process, proc)]"
    obtain k2 where k2: "k_setFields a fs k1 = Inr ((), k2)" "k_lists k2 = k_lists k1" "k_results k2 = b # rs" "piece k2 a = (v, p, address - v)"
      "piece k2 e = (v, p, len)"
      using assms(8,10) k1(4) fields by (simp add: fs_def k_bind_def k_return_def piece_def mem_write_read f1)
    have "map_list (k_lists k2 proc)" "k_next k2 = b" using k1(2) k2(2,3) by (simp_all add: k_next_def)
    then obtain k3 where k3: "mm_addBack proc k2 = Inr (b, k3)"
      "\<And>f x. \<not> is_link f \<Longrightarrow> k_fields k3 (offsetof f) x = (if x = b then 0 else k_fields k2 (offsetof f) x)"
      by (rule mm_addBack_ok[OF _ _ assms(9)]) auto
    note f3 = k3(2)[of d_vaddress, simplified] k3(2)[of d_paddress, simplified] k3(2)[of d_length, simplified]
    have "len - ((address - v) + (v + len - (address + n))) = n" "v + (address - v) = address" by (simp_all add: algebra_simps)
    then show ?thesis using mid assms(3,5,6,8-12) fields k1(1) k2(1,4,5) k3(1)
      by (simp add: mmap_splitDescription_def k_bind_def Let_def del: k_setFields.simps flip: prot_def next'_def prev'_def fs_def)
        (simp add: k_return_def piece_def mem_write_read f3 k_bind_def)
  qed
qed

section \<open>Mapping\<close>

definition mpoint :: "ptr \<Rightarrow> ptr \<Rightarrow> ptr \<Rightarrow> effect list \<Rightarrow> kenv \<Rightarrow> bool" where
  "mpoint proc dir kdir L k \<longleftrightarrow> map_list (k_lists k proc) \<and> l_lock (k_lists k proc) = 1 \<and>
     p_pdirectory (sd_procs (k_sched k) proc) = dir \<and> k_kernelDirectory k = kdir \<and> k_log k = L"

lemma mp_alloc:
  assumes "mpoint proc dir kdir L k" "\<And>k'. mpoint proc dir kdir L k' \<Longrightarrow> ends Q (f 0 k')"
    "\<And>x k'. x \<noteq> 0 \<Longrightarrow> mpoint proc dir kdir (L @ map Acquire (what x)) k' \<Longrightarrow> ends Q (f x k')"
  shows "ends Q (k_bind (k_alloc what) f k)"
  using assms by (cases "k_next k = 0") (simp_all add: mpoint_def k_bind_def k_alloc_def)

lemma mp_vm_alloc:
  assumes "mpoint proc dir kdir L k" "\<And>k'. mpoint proc dir kdir L k' \<Longrightarrow> ends Q (f 0 k')"
    "\<And>x k'. x \<noteq> 0 \<Longrightarrow> mpoint proc dir kdir (L @ [Acquire (Pages d x n)]) k' \<Longrightarrow> ends Q (f x k')"
  shows "ends Q (k_bind (mm_vm_alloc d n) f k)"
  using assms mp_alloc[OF assms(1), of Q f "\<lambda>x. [Pages d x n]"]
  by (simp add: mm_vm_alloc_def k_vm_alloc_def ends_fail)

lemma mp_effects:
  assumes "mpoint proc dir kdir L k"
  shows "(\<And>k'. mpoint proc dir kdir (L @ [Release r]) k' \<Longrightarrow> ends Q (f () k')) \<Longrightarrow> ends Q (k_bind (k_release r) f k)"
    "(\<And>k'. mpoint proc dir kdir L k' \<Longrightarrow> ends Q (f () k')) \<Longrightarrow> ends Q (k_bind (k_clear_pages b c) f k)"
    "(\<And>k'. mpoint proc dir kdir L k' \<Longrightarrow> ends Q (f () k')) \<Longrightarrow> ends Q (k_bind (k_set_errno g i) f k)"
    "e \<noteq> 0 \<Longrightarrow> (\<And>k'. mpoint proc dir kdir L k' \<Longrightarrow> ends Q (f () k')) \<Longrightarrow> ends Q (k_bind (k_setField fld e v) f k)"
    "(\<And>pr. p_pdirectory pr = dir \<Longrightarrow> ends Q (h pr k)) \<Longrightarrow> ends Q (k_bind (k_process proc) h k)"
    "ends Q (j kdir k) \<Longrightarrow> ends Q (k_bind (k_get k_kernelDirectory) j k)"
  using assms by (simp_all add: mpoint_def k_prims)

lemma mp_unlock:
  assumes "mpoint proc dir kdir L k" "\<And>k'. l_lock (k_lists k' proc) = 0 \<Longrightarrow> k_log k' = L \<Longrightarrow> Q x k'"
  shows "ends Q (k_bind (mm_unlock proc) (\<lambda>_. k_return x) k)"
    "ends Q (k_bind (mm_unlock proc) (\<lambda>_. k_bind (k_set_errno g i) (\<lambda>_. k_return x)) k)"
  using assms by (simp_all add: mpoint_def mm_unlock_def k_list_def k_prims list_unlock_def ends_def)

lemma mm_remove_ok:
  assumes "map_list (k_lists k proc)"
  obtains list' mem' where "mm_remove proc e k =
     Inr ((), k\<lparr>k_lists := (k_lists k)(proc := list'), k_fields := mem', k_log := k_log k @ [Release (Heap e)]\<rparr>)"
    "map_list list'" "l_lock list' = l_lock (k_lists k proc)"
proof -
  obtain list' mem' where "list_removeSoft (k_lists k proc) (k_fields k) e = Inr (list', mem')" "map_list list'"
    "l_lock list' = l_lock (k_lists k proc)"
    using assms by (auto simp: list_removeSoft_def map_list_def Let_def)
  then show ?thesis using that by (simp add: mm_remove_def k_list_def list_remove_def k_prims)
qed

lemma mp_failed:
  assumes "mpoint proc dir kdir L k" "\<And>k'. l_lock (k_lists k' proc) = 0 \<Longrightarrow> k_log k' = L @ [Release (Heap e)] \<Longrightarrow> Q MAP_FAILED k'"
  shows "ends Q (sc_mmap_failed proc e k)"
proof -
  have ml: "map_list (k_lists k proc)" using assms(1) by (simp add: mpoint_def)
  obtain list' mem' where rm: "mm_remove proc e k =
      Inr ((), k\<lparr>k_lists := (k_lists k)(proc := list'), k_fields := mem', k_log := k_log k @ [Release (Heap e)]\<rparr>)"
    "map_list list'" "l_lock list' = l_lock (k_lists k proc)" by (rule mm_remove_ok[OF ml])
  let ?k = "k\<lparr>k_lists := (k_lists k)(proc := list'), k_fields := mem', k_log := k_log k @ [Release (Heap e)]\<rparr>"
  note rm(1)
  moreover have "mpoint proc dir kdir (L @ [Release (Heap e)]) ?k" using assms(1) rm(2,3) by (simp add: mpoint_def)
  ultimately show ?thesis
    using mp_unlock(1)[of proc dir kdir "L @ [Release (Heap e)]" ?k Q MAP_FAILED] assms(2)
    by (simp add: sc_mmap_failed_def k_bind_def)
qed

lemma mp_describe:
  assumes "mpoint proc dir kdir L k" "e \<noteq> 0"
    "\<And>k'. l_lock (k_lists k' proc) = 0 \<Longrightarrow> k_log k' = L \<Longrightarrow> piece k' e = (v, p, len) \<Longrightarrow> Q v k'"
  shows "ends Q (k_bind (k_setFields e [(d_vaddress, v), (d_paddress, p), (d_length, len), (d_protection, pr)]) (\<lambda>_.
     k_bind (mm_unlock proc) (\<lambda>_. k_return v)) k)"
  using assms by (simp add: mpoint_def mm_unlock_def k_list_def k_prims list_unlock_def ends_def piece_def mem_write_read)

lemma mp_addBack:
  assumes "mpoint proc dir kdir L k" "\<And>k'. mpoint proc dir kdir L k' \<Longrightarrow> ends Q (f 0 k')"
    "\<And>e k'. e \<noteq> 0 \<Longrightarrow> mpoint proc dir kdir (L @ [Acquire (Heap e)]) k' \<Longrightarrow> ends Q (f e k')"
  shows "ends Q (k_bind (mm_addBack proc) f k)"
proof (cases "k_next k = 0")
  case True
  then have "\<exists>k'. mm_addBack proc k = Inr (0, k') \<and> mpoint proc dir kdir L k'"
    using assms(1) by (simp add: mm_addBack_def list_addBack_def list_addWith_def k_list_def k_prims mpoint_def)
  then show ?thesis using assms(2) by (auto simp: k_bind_def)
next
  case False
  have ml: "map_list (k_lists k proc)" using assms(1) by (simp add: mpoint_def)
  obtain k' where "mm_addBack proc k = Inr (k_next k, k')" "mpoint proc dir kdir (L @ [Acquire (Heap (k_next k))]) k'"
    by (rule mm_addBack_ok[OF ml refl False]) (use assms(1) in \<open>auto simp: mpoint_def\<close>)
  then show ?thesis using assms(3)[OF False] by (simp add: k_bind_def)
qed

lemma ends_if:
  "(b \<Longrightarrow> ends Q (m k)) \<Longrightarrow> (\<not> b \<Longrightarrow> ends Q (n k)) \<Longrightarrow> ends Q ((if b then m else n) k)"
  by simp

lemmas mp_rules = mp_addBack mp_effects(2,3,5,6) mp_vm_alloc mp_unlock mp_failed
  mp_alloc[where what = "\<lambda>x. [Frames x n]" for n, folded k_pm_alloc_def]
  mp_effects(1)[where r = "Frames x n" for x n, folded k_pm_free_def]
  mp_effects(1)[where r = "Pages d x n" for d x n, folded k_vm_free_def]


section \<open>Unmapping\<close>

lemma mm_lock_ok:
  "l_lock (k_lists k proc) = 0 \<Longrightarrow>
   mm_lock proc k = Inr ((), k\<lparr>k_lists := (k_lists k)(proc := (k_lists k proc)\<lparr>l_lock := 1\<rparr>)\<rparr>)"
  by (simp add: mm_lock_def k_list_def list_lock_def)

lemmas unmap_evals = sc_munmap_def sc_mm_apply_def mm_lock_ok mm_first_def mm_unlock_def k_list_def list_unlock_def

text \<open>
  Any page-aligned address below the first mapping, with the length of that mapping, makes \<^verbatim>\<open>munmap\<close>
  unmap it; the frames it releases are those with the number of the virtual address, not the frames of
  the mapping.
\<close>

theorem sc_munmap_releases:
  assumes "map_list (k_lists k proc)" "l_lock (k_lists k proc) = 0" "l_first (k_lists k proc) = e" "e \<noteq> 0"
    "piece k e = (v, p, n)" "k_fields k (offsetof d_process) e = proc" "n mod 4096 = 0" "n \<noteq> 0"
    "address mod 4096 = 0" "address \<le> v" "address \<le> v + n" "address + n \<le> v + n"
    "dir = p_pdirectory (sd_procs (k_sched k) proc)"
  shows "\<exists>k'. sc_munmap (Suc fuel) proc address n k = Inr (0, k') \<and> l_lock (k_lists k' proc) = 0 \<and>
     k_log k' = k_log k @ [Release (Pages dir v (VM_PAGE_COUNT n)), Release (Frames v (VM_PAGE_COUNT n)), Release (Heap e)]"
proof -
  let ?k = "k\<lparr>k_lists := (k_lists k)(proc := (k_lists k proc)\<lparr>l_lock := 1\<rparr>)\<rparr>"
  let ?k2 = "?k\<lparr>k_log := k_log k @ [Release (Pages dir v (VM_PAGE_COUNT n)), Release (Frames v (VM_PAGE_COUNT n))]\<rparr>"
  have "map_list (k_lists ?k2 proc)" using assms(1) by (simp add: map_list_def)
  then obtain list' mem' where rm: "mm_remove proc e ?k2 =
      Inr ((), ?k2\<lparr>k_lists := (k_lists ?k2)(proc := list'), k_fields := mem', k_log := k_log ?k2 @ [Release (Heap e)]\<rparr>)"
    by (rule mm_remove_ok)
  have f: "k_fields k 4 e = v" "k_fields k 8 e = p" "k_fields k 12 e = n" "k_fields k 0 e = proc"
    using assms(5,6) by (auto simp: piece_def)
  have split: "mmap_splitDescription e address n ?k = Inr ((), ?k)"
    using assms(4,7) f by (simp add: mmap_splitDescription_def k_bind_def k_return_def Let_def)
  have find: "mm_find (Suc fuel) e address ?k = Inr (e, ?k)"
    using assms(4,10,11) f by (simp add: k_bind_def k_return_def)
  show ?thesis
    using assms(2,3,4,8,9) f rm assms(13)
    by (simp add: unmap_evals k_bind_def find split k_return_def k_get_def k_process_def k_vm_free_def k_pm_free_def
        k_release_def k_modify_def Let_def leD[OF assms(12)] del: mm_find.simps)
qed

text \<open>
  An address inside the first mapping is not found when that mapping has no fragments. A range that
  reaches beyond the last fragment is refused with the list left locked, so that the next call never
  returns.
\<close>

theorem sc_munmap_refuses:
  assumes "l_lock (k_lists k proc) = 0" "l_first (k_lists k proc) = e" "e \<noteq> 0" "piece k e = (v, p, len)"
    "k_fields k (offsetof d_next) e = 0" "address mod 4096 = 0" "n \<noteq> 0"
    "v < address \<or> address \<le> v \<and> address \<le> v + len \<and> v + len < address + n"
  shows "\<exists>k'. sc_munmap (Suc (Suc fuel)) proc address n k = Inr (- 1, k') \<and> k_log k' = k_log k \<and>
     (if v < address then k_errno k' = EINVAL \<and> l_lock (k_lists k' proc) = 0
      else k_errno k' = ENOMEM \<and> (\<forall>address len prot mflags. sc_mmap proc address len prot mflags k' = Inl Diverges))"
proof -
  let ?k = "k\<lparr>k_lists := (k_lists k)(proc := (k_lists k proc)\<lparr>l_lock := 1\<rparr>)\<rparr>"
  have f: "k_fields k 4 e = v" "k_fields k 8 e = p" "k_fields k 12 e = len" "k_fields k 20 e = 0"
    using assms(4,5) by (auto simp: piece_def)
  show ?thesis
  proof (cases "v < address")
    case True
    then have "mm_find (Suc (Suc fuel)) e address ?k = Inr (0, ?k)"
      using assms(3) f by (simp add: k_bind_def k_return_def not_le)
    then show ?thesis using assms(1-3,6,7) True
      by (simp add: unmap_evals k_bind_def k_return_def k_get_def k_set_errno_def k_when_def k_modify_def del: mm_find.simps)
  next
    case False
    then have c: "address \<le> v" "address \<le> v + len" "v + len < address + n" using assms(8) by auto
    have find: "mm_find (Suc (Suc fuel)) e address ?k = Inr (e, ?k)"
      using assms(3) c f by (simp add: k_bind_def k_return_def)
    have join: "mmap_tryJoinFragments (Suc (Suc fuel)) e address n ?k = Inr (False, ?k)"
      using assms(3) f by (simp add: mmap_tryJoinFragments_def k_bind_def k_return_def)
    have lck: "sc_mmap proc a l pr fl k' = Inl Diverges" if "l_lock (k_lists k' proc) = 1" for a l pr fl k'
      using that by (simp add: sc_mmap_def k_bind_def mm_lock_def k_list_def list_lock_def)
    show ?thesis using assms(1-3,6,7) c False f
      by (simp add: unmap_evals k_bind_def find join k_return_def k_get_def k_set_errno_def k_when_def k_modify_def lck
          del: mm_find.simps)
  qed
qed

text \<open>The page flags of a mapping do not depend on the protection that was asked for.\<close>

theorem mmap_ignores_protection: "mmap_vmflagsForProtectionFlags protection = VM_FLAGS_USERLAND"
  by (simp add: mmap_vmflagsForProtectionFlags_def PROT_NONE_def VM_FLAGS_USERLAND_def VM_PAGETABLEFLAG_PRESENT_def
      VM_PAGETABLEFLAG_WRITEABLE_def VM_PAGETABLEFLAG_USERSPACE_def Let_def)

text \<open>A process with one mapping of two pages, and one without mappings.\<close>

definition mapped_env :: kenv where
  "mapped_env = (sample_env [300, 301, 302, 303])
     \<lparr>k_lists := (\<lambda>_. (the (list_create True 36 28 32))\<lparr>l_first := 200, l_last := 200, l_count := 1\<rparr>),
      k_fields := (\<lambda>_ _. 0)(0 := (\<lambda>_. 3), 4 := (\<lambda>_. 0x8000), 8 := (\<lambda>_. 0x20000), 12 := (\<lambda>_. 0x2000))\<rparr>"

lemma mapped_env_simps:
  "map_list (k_lists mapped_env 3)" "l_lock (k_lists mapped_env 3) = 0" "l_first (k_lists mapped_env 3) = 200"
  "piece mapped_env 200 = (0x8000, 0x20000, 0x2000)" "k_fields mapped_env (offsetof d_process) 200 = 3"
  "k_fields mapped_env (offsetof d_next) 200 = 0" "k_fields mapped_env 0 200 = 3" "k_fields mapped_env 20 200 = 0" "k_results mapped_env = [300, 301, 302, 303]" "k_log mapped_env = []"
  by (simp_all add: mapped_env_def sample_env_def map_list_def list_create_def piece_def)

theorem mmap_split_pieces_witness:
  "\<exists>k'. mmap_splitDescription 200 0x8000 0x1000 mapped_env = Inr ((), k') \<and>
     piece k' 200 = (0x8000, 0x20000, 0x1000) \<and> piece k' 300 = (0x9000, 0x21000, 0x1000)"
  using mmap_split_pieces[of mapped_env 3 200 "0x8000" "0x20000" "0x2000" "0x1000" 300 301 "[302, 303]" "0x8000"]
  by (simp add: mapped_env_simps)

theorem sc_munmap_releases_witness:
  "\<exists>k'. sc_munmap (Suc 0) 3 0x1000 0x2000 mapped_env = Inr (0, k') \<and>
     k_log k' = [Release (Pages 8192 0x8000 2), Release (Frames 0x8000 2), Release (Heap 200)]"
proof -
  have d: "8192 = p_pdirectory (sd_procs (k_sched mapped_env) 3)" by (simp add: mapped_env_def sample_env_def)
  have n: "VM_PAGE_COUNT 0x2000 = 2" by (simp add: VM_PAGE_COUNT_def)
  show ?thesis
    using sc_munmap_releases[OF mapped_env_simps(1-3) _ mapped_env_simps(4,5) _ _ _ _ _ _ d, of "0x1000" 0]
    unfolding n mapped_env_simps by auto
qed

theorem sc_munmap_refuses_witness:
  "\<exists>k'. sc_munmap (Suc (Suc 0)) 3 0x9000 0x1000 mapped_env = Inr (- 1, k') \<and> k_errno k' = EINVAL"
  using sc_munmap_refuses[OF mapped_env_simps(2,3) _ mapped_env_simps(4,6), of "0x9000" "0x1000" 0] by auto


end
