(* ===== verification/ThreadBlocks.thy ===== *)
theory ThreadBlocks
  imports Threads
begin

text \<open>
  Blocking in \<^verbatim>\<open>src/sys/scheduler/thread.c\<close>: the counter \<^verbatim>\<open>blocks\<close> of a thread is the number of threads it waits
  for plus one while it sleeps. Joining, notifying, sleeping and waking keep this up, and so does the
  scheduler when it wakes a sleeper.
\<close>

section \<open>Counting the blocks\<close>

definition wait_count :: "ptr \<Rightarrow> thread_listener list \<Rightarrow> nat" where
  "wait_count t ls = length (filter (\<lambda>l. l_blocks l \<and> l_listener l = t) ls)"

definition waits :: "ptr set \<Rightarrow> sched \<Rightarrow> ptr \<Rightarrow> nat" where
  "waits T st t = (\<Sum>u \<in> T. wait_count t (t_listener (sd_threads st u)))"

definition blocks_inv :: "ptr set \<Rightarrow> sched \<Rightarrow> bool" where
  "blocks_inv T st \<longleftrightarrow> finite T \<and>
     (\<forall>u \<in> T. distinct (map l_node (t_listener (sd_threads st u))) \<and>
        (\<forall>l \<in> set (t_listener (sd_threads st u)). (l_blocks l \<longrightarrow> l_oneShot l) \<and> l_listener l \<in> T \<and> l_callback l = 0)) \<and>
     (\<forall>t \<in> T. unat (t_blocks (sd_threads st t)) = waits T st t + of_bool (t_sleeping (sd_threads st t)))"

lemma blocks_invD:
  assumes "blocks_inv T st" "u \<in> T"
  shows "distinct (map l_node (t_listener (sd_threads st u)))"
    "l \<in> set (t_listener (sd_threads st u)) \<Longrightarrow> (l_blocks l \<longrightarrow> l_oneShot l) \<and> l_listener l \<in> T \<and> l_callback l = 0"
  using assms by (simp_all add: blocks_inv_def)

lemma wait_count_simps [simp]:
  "wait_count t [] = 0"
  "wait_count t (l # ls) = (if l_blocks l \<and> l_listener l = t then 1 else 0) + wait_count t ls"
  "wait_count t (ls @ ms) = wait_count t ls + wait_count t ms"
  by (simp_all add: wait_count_def)

lemma waits_update:
  assumes "finite T" "u \<in> T"
  shows "waits T (thread_update u f st) t + wait_count t (t_listener (sd_threads st u)) =
     waits T st t + wait_count t (t_listener (f (sd_threads st u)))"
proof -
  have "(\<Sum>v \<in> T - {u}. wait_count t (t_listener (sd_threads (thread_update u f st) v))) =
      (\<Sum>v \<in> T - {u}. wait_count t (t_listener (sd_threads st v)))"
    by (intro sum.cong) auto
  then show ?thesis
    unfolding waits_def by (simp only: sum.remove[OF assms]) simp
qed

lemma waits_same: "(\<And>th. t_listener (f th) = t_listener th) \<Longrightarrow> waits T (thread_update u f st) t = waits T st t"
  unfolding waits_def by (intro sum.cong) auto

text \<open>An update that keeps the listeners and changes the counter with the sleeping flag.\<close>

lemma blocks_inv_update:
  assumes "blocks_inv T st" "\<And>th. t_listener (f th) = t_listener th"
    "u \<in> T \<Longrightarrow> unat (t_blocks (f (sd_threads st u))) + of_bool (t_sleeping (sd_threads st u)) =
       unat (t_blocks (sd_threads st u)) + of_bool (t_sleeping (f (sd_threads st u)))"
  shows "blocks_inv T (thread_update u f st)"
  using assms by (auto simp: blocks_inv_def waits_same)

lemma blocks_positive:
  assumes "blocks_inv T st" "u \<in> T" "t_sleeping (sd_threads st u)"
  shows "unat (t_blocks (sd_threads st u) - 1) + 1 = unat (t_blocks (sd_threads st u))"
proof -
  have "0 < unat (t_blocks (sd_threads st u))" using assms by (auto simp: blocks_inv_def)
  then show ?thesis using unat_pred_pos by (metis Suc_eq_plus1 Suc_pred')
qed

lemma thread_sleep_inv:
  assumes "blocks_inv T st" "unat (t_blocks (sd_threads st u)) < 255"
  shows "blocks_inv T (thread_update u (thread_sleep now time) st)"
proof (rule blocks_inv_update[OF assms(1)])
  have "unat (t_blocks (sd_threads st u) + 1) = unat (t_blocks (sd_threads st u)) + 1"
    using assms(2) by (simp add: unat_word_ariths)
  then show "unat (t_blocks (thread_sleep now time (sd_threads st u))) + of_bool (t_sleeping (sd_threads st u)) =
      unat (t_blocks (sd_threads st u)) + of_bool (t_sleeping (thread_sleep now time (sd_threads st u)))"
    by (simp add: thread_sleep_def Let_def)
qed (simp add: thread_sleep_def Let_def)

lemma thread_wakeup_inv:
  assumes "blocks_inv T st"
  shows "blocks_inv T (thread_update u thread_wakeup st)"
  by (rule blocks_inv_update[OF assms]) (use blocks_positive[OF assms] in \<open>auto simp: thread_wakeup_def\<close>)

lemma sd_wake_inv:
  assumes "blocks_inv T st"
  shows "blocks_inv T (thread_update u (sd_wake now) st)"
  by (rule blocks_inv_update[OF assms]) (use blocks_positive[OF assms] in \<open>auto simp: sd_wake_def Let_def\<close>)

section \<open>Attaching and notifying\<close>

lemma blocks_inv_cong:
  "(\<And>t. t_listener (sd_threads st' t) = t_listener (sd_threads st t)) \<Longrightarrow>
   (\<And>t. t_blocks (sd_threads st' t) = t_blocks (sd_threads st t)) \<Longrightarrow>
   (\<And>t. t_sleeping (sd_threads st' t) = t_sleeping (sd_threads st t)) \<Longrightarrow> blocks_inv T st' = blocks_inv T st"
  by (simp add: blocks_inv_def waits_def)

lemma blocks_inv_lock [simp]: "blocks_inv T (thread_update u (\<lambda>th. th\<lparr>t_lock := g th\<rparr>) st) = blocks_inv T st"
  by (rule blocks_inv_cong) simp_all

text \<open>One more listener, and one more block for its thread.\<close>

lemma blocks_inv_attach:
  assumes inv: "blocks_inv T st" and u: "u \<in> T" "l_listener l \<in> T"
    and l: "l_blocks l \<longrightarrow> l_oneShot l" "l_callback l = 0" "l_node l \<notin> l_node ` set (t_listener (sd_threads st u))"
    and room: "unat (t_blocks (sd_threads st (l_listener l))) < 255"
  shows "blocks_inv T (thread_update (l_listener l) (\<lambda>th. if l_blocks l then th\<lparr>t_blocks := t_blocks th + 1\<rparr> else th)
     (thread_update u (\<lambda>th. th\<lparr>t_listener := t_listener th @ [l]\<rparr>) st))"
proof -
  let ?st1 = "thread_update u (\<lambda>th. th\<lparr>t_listener := t_listener th @ [l]\<rparr>) st"
  let ?g = "\<lambda>th. if l_blocks l then th\<lparr>t_blocks := t_blocks th + 1\<rparr> else th :: thread_t"
  have fin: "finite T" using inv by (simp add: blocks_inv_def)
  have w: "waits T ?st1 t = waits T st t + (if l_blocks l \<and> l_listener l = t then 1 else 0)" for t
    using waits_update[OF fin u(1), of "\<lambda>th. th\<lparr>t_listener := t_listener th @ [l]\<rparr>" st t] by simp
  have same: "waits T (thread_update v ?g ?st1) t = waits T ?st1 t" for v t by (rule waits_same) simp
  have inc: "unat (t_blocks (sd_threads st (l_listener l)) + 1) = unat (t_blocks (sd_threads st (l_listener l))) + 1"
    using room by (simp add: unat_word_ariths)
  show ?thesis
    using inv l u inc unfolding blocks_inv_def same w by auto
qed

lemma drop_both: "a' + d = a \<Longrightarrow> w' + d = w \<Longrightarrow> a = w + s \<Longrightarrow> a' = w' + (s :: nat)"
  by simp

text \<open>
  One round of the loop: the first listener of the rest is dropped if it is a one-shot listener, and
  its thread loses a block if it waits.
\<close>

lemma blocks_inv_fire:
  assumes inv: "blocks_inv T st" and u: "u \<in> T" and ls: "t_listener (sd_threads st u) = kept @ l # ls"
  shows "blocks_inv T (thread_update u (\<lambda>th. if l_oneShot l then th\<lparr>t_listener := kept @ ls\<rparr> else th)
     (thread_update (l_listener l) (\<lambda>th. if l_blocks l then th\<lparr>t_blocks := t_blocks th - 1\<rparr> else th) st))"
    (is "blocks_inv T ?st2")
proof -
  let ?g = "\<lambda>th. if l_blocks l then th\<lparr>t_blocks := t_blocks th - 1\<rparr> else th :: thread_t"
  let ?st1 = "thread_update (l_listener l) ?g st"
  have fin: "finite T" and l: "l_blocks l \<longrightarrow> l_oneShot l" "l_listener l \<in> T" using inv u ls by (auto simp: blocks_inv_def)
  have ls1: "t_listener (sd_threads ?st1 u) = kept @ l # ls" using ls by auto
  have same: "waits T ?st1 t = waits T st t" for t by (rule waits_same) simp
  have w: "waits T ?st2 t + (if l_blocks l \<and> l_listener l = t then 1 else 0) = waits T st t" for t
    using waits_update[OF fin u, of "\<lambda>th. if l_oneShot l then th\<lparr>t_listener := kept @ ls\<rparr> else th" ?st1 t] ls1 l(1) same[of t]
    by (auto split: if_splits)
  have "unat (t_blocks (sd_threads st (l_listener l)) - 1) + 1 = unat (t_blocks (sd_threads st (l_listener l)))" if "l_blocks l"
  proof -
    have "1 \<le> waits T st (l_listener l)" using w[of "l_listener l"] that by simp
    then have "0 < unat (t_blocks (sd_threads st (l_listener l)))" using inv l(2) by (simp add: blocks_inv_def)
    then show ?thesis using unat_pred_pos by (metis Suc_eq_plus1 Suc_pred')
  qed
  then have b: "unat (t_blocks (sd_threads ?st2 t)) + (if l_blocks l \<and> l_listener l = t then 1 else 0) =
      unat (t_blocks (sd_threads st t))" for t
    by auto
  have c: "unat (t_blocks (sd_threads ?st2 t)) = waits T ?st2 t + of_bool (t_sleeping (sd_threads ?st2 t))" if "t \<in> T" for t
  proof -
    have "t_sleeping (sd_threads ?st2 t) = t_sleeping (sd_threads st t)" by simp
    then have "unat (t_blocks (sd_threads st t)) = waits T st t + of_bool (t_sleeping (sd_threads ?st2 t))"
      using inv that by (simp only: blocks_inv_def)
    then show ?thesis by (rule drop_both[OF b w])
  qed
  have "distinct (map l_node (t_listener (sd_threads ?st2 v))) \<and>
      set (t_listener (sd_threads ?st2 v)) \<subseteq> set (t_listener (sd_threads st v))" if "v \<in> T" for v
    using blocks_invD(1)[OF inv that] ls by (cases "v = u") auto
  then show ?thesis using inv c unfolding blocks_inv_def by (meson subsetD)
qed

section \<open>The operations\<close>

lemma thread_update_if: "thread_update u (\<lambda>th. if c then f th else th) st = (if c then thread_update u f st else st)"
  by (simp add: thread_update_def)

lemma k_notify_round:
  assumes "l_callback l = 0"
  shows "notify_loop call u e (l # ls) k =
     notify_loop call u e ls
       (if l_event l = e
        then k\<lparr>k_sched := thread_update u
            (\<lambda>th. if l_oneShot l then th\<lparr>t_listener := filter (\<lambda>m. l_node m \<noteq> l_node l) (t_listener th)\<rparr> else th)
            (thread_update (l_listener l) (\<lambda>th. if l_blocks l then th\<lparr>t_blocks := t_blocks th - 1\<rparr> else th) (k_sched k)),
          k_log := k_log k @ (if l_oneShot l then [Release (Heap (l_node l))] else [])\<rparr>
        else k)"
  using assms by (simp add: k_bind_def k_when_def k_return_def k_threads_def k_modify_def k_hfree_def k_release_def thread_update_if)

text \<open>The loop over the rest \<open>ls\<close> of the listeners, of which \<open>kept\<close> have been passed.\<close>

lemma notify_loop_inv:
  assumes "blocks_inv T (k_sched k)" "u \<in> T" "t_listener (sd_threads (k_sched k) u) = kept @ ls"
  shows "\<exists>k'. notify_loop call u e ls k = Inr ((), k') \<and> blocks_inv T (k_sched k') \<and>
     t_listener (sd_threads (k_sched k') u) = kept @ filter (\<lambda>l. \<not> l_oneShot l) ls"
  using assms
proof (induction ls arbitrary: k kept)
  case Nil
  then show ?case by (simp add: k_return_def)
next
  case (Cons l ls)
  have wf: "l_callback l = 0" "distinct (map l_node (kept @ l # ls))"
    using blocks_invD(1)[OF Cons.prems(1,2)] blocks_invD(2)[OF Cons.prems(1,2), of l] Cons.prems(3) by simp_all
  have ev: "l_event l = e" by (cases "l_event l"; cases e) simp
  let ?st1 = "thread_update (l_listener l) (\<lambda>th. if l_blocks l then th\<lparr>t_blocks := t_blocks th - 1\<rparr> else th) (k_sched k)"
  let ?st2 = "thread_update u (\<lambda>th. if l_oneShot l then th\<lparr>t_listener := filter (\<lambda>m. l_node m \<noteq> l_node l) (t_listener th)\<rparr> else th) ?st1"
  have ls: "t_listener (sd_threads ?st1 u) = kept @ l # ls" using Cons.prems(3) by auto
  have "filter (\<lambda>m. l_node m \<noteq> l_node l) kept = kept" "filter (\<lambda>m. l_node m \<noteq> l_node l) ls = ls"
    using wf(2) by (simp_all add: filter_id_conv image_iff) metis+
  then have "filter (\<lambda>m. l_node m \<noteq> l_node l) (kept @ l # ls) = kept @ ls" by simp
  then have st2: "?st2 = thread_update u (\<lambda>th. if l_oneShot l then th\<lparr>t_listener := kept @ ls\<rparr> else th) ?st1"
    using ls by (simp add: thread_update_def)
  have inv: "blocks_inv T ?st2" unfolding st2 by (rule blocks_inv_fire[OF Cons.prems])
  define kept' where "kept' = (if l_oneShot l then kept else kept @ [l])"
  have ls2: "t_listener (sd_threads ?st2 u) = kept' @ ls" unfolding st2 using ls by (simp add: kept'_def)
  have "kept' @ filter (\<lambda>l. \<not> l_oneShot l) ls = kept @ filter (\<lambda>l. \<not> l_oneShot l) (l # ls)" by (simp add: kept'_def)
  moreover let ?k2 = "k\<lparr>k_sched := ?st2, k_log := k_log k @ (if l_oneShot l then [Release (Heap (l_node l))] else [])\<rparr>"
  have k2: "k_sched ?k2 = ?st2" by simp
  have "\<exists>k'. notify_loop call u e ls ?k2 = Inr ((), k') \<and> blocks_inv T (k_sched k') \<and>
      t_listener (sd_threads (k_sched k') u) = kept' @ filter (\<lambda>l. \<not> l_oneShot l) ls"
    by (rule Cons.IH) (simp_all only: k2 inv ls2 Cons.prems(2))
  moreover have "notify_loop call u e (l # ls) k = notify_loop call u e ls ?k2"
    unfolding k_notify_round[OF wf(1)] using ev by (simp only: if_True refl)
  ultimately show ?case by metis
qed

text \<open>
  Notifying always ends with an unlocked thread whose waiting listeners are gone, and keeps the
  counters right.
\<close>

lemma thread_notify_unblocks:
  assumes "blocks_inv T (k_sched k)" "u \<in> T" "t_lock (sd_threads (k_sched k) u) = 0"
  shows "\<exists>k'. thread_notify call u thread_eventDidExit k = Inr ((), k') \<and> blocks_inv T (k_sched k') \<and>
     t_lock (sd_threads (k_sched k') u) = 0 \<and> (\<forall>l \<in> set (t_listener (sd_threads (k_sched k') u)). \<not> l_blocks l)"
proof -
  let ?k = "k\<lparr>k_sched := thread_update u (\<lambda>th. th\<lparr>t_lock := 1\<rparr>) (k_sched k)\<rparr>"
  have inv: "blocks_inv T (k_sched ?k)" using assms(1) blocks_inv_lock[of T u "\<lambda>_. 1"] by simp
  obtain k' where k': "notify_loop call u thread_eventDidExit (t_listener (sd_threads (k_sched ?k) u)) ?k = Inr ((), k')"
    "blocks_inv T (k_sched k')" "t_listener (sd_threads (k_sched k') u) = filter (\<lambda>l. \<not> l_oneShot l) (t_listener (sd_threads (k_sched ?k) u))"
    using notify_loop_inv[OF inv assms(2), of "[]" _ call thread_eventDidExit] by auto
  have "blocks_inv T (thread_update u (\<lambda>th. th\<lparr>t_lock := 0\<rparr>) (k_sched k'))"
    using k'(2) blocks_inv_lock[of T u "\<lambda>_. 0"] by simp
  moreover have "\<forall>l \<in> set (t_listener (sd_threads (k_sched k') u)). \<not> l_blocks l"
    using k'(3) inv assms(2) by (auto simp: blocks_inv_def)
  ultimately show ?thesis
    using k'(1) assms(3)
    by (simp add: thread_notify_def k_bind_def k_lock_thread_def k_thread_def k_get_def k_threads_def k_modify_def k_unlock_thread_def)
qed

lemma thread_join_inv:
  assumes inv: "blocks_inv T (k_sched k)" and T: "u \<in> T" "t \<in> T" and lck: "t_lock (sd_threads (k_sched k) u) = 0"
    and node: "k_next k \<noteq> 0" "k_next k \<notin> l_node ` set (t_listener (sd_threads (k_sched k) u))"
    and room: "unat (t_blocks (sd_threads (k_sched k) t)) < 255"
  shows "\<exists>k'. thread_join t u k = Inr ((), k') \<and> blocks_inv T (k_sched k') \<and>
     waits T (k_sched k') t = waits T (k_sched k) t + 1"
proof -
  let ?l = "\<lparr>l_node = k_next k, l_event = thread_eventDidExit, l_listener = t, l_blocks = True, l_oneShot = True, l_callback = 0\<rparr>"
  let ?st1 = "thread_update u (\<lambda>th. th\<lparr>t_lock := 1\<rparr>) (k_sched k)"
  let ?st2 = "thread_update u (\<lambda>th. th\<lparr>t_listener := t_listener th @ [?l]\<rparr>) ?st1"
  let ?st3 = "thread_update t (\<lambda>th. th\<lparr>t_blocks := t_blocks th + 1\<rparr>) ?st2"
  let ?st4 = "thread_update u (\<lambda>th. th\<lparr>t_lock := 0\<rparr>) ?st3"
  have inv1: "blocks_inv T ?st1" using inv blocks_inv_lock[of T u "\<lambda>_. 1"] by simp
  have "unat (t_blocks (sd_threads ?st1 t)) < 255" "k_next k \<notin> l_node ` set (t_listener (sd_threads ?st1 u))"
    using room node(2) by auto
  then have "blocks_inv T ?st3"
    using blocks_inv_attach[OF inv1 T(1), of ?l] T(2) by (simp del: update_simps)
  then have inv4: "blocks_inv T ?st4" using blocks_inv_lock[of T u "\<lambda>_. 0" ?st3] by simp
  have fin: "finite T" using inv by (simp add: blocks_inv_def)
  have "waits T ?st2 t = waits T ?st1 t + 1"
    using waits_update[OF fin T(1), of "\<lambda>th. th\<lparr>t_listener := t_listener th @ [?l]\<rparr>" ?st1 t] by simp
  then have "waits T ?st4 t = waits T (k_sched k) t + 1" by (simp add: waits_same)
  moreover have "\<exists>k'. thread_join t u k = Inr ((), k') \<and> k_sched k' = ?st4"
    using lck node(1) by (simp add: thread_join_def thread_attachListener_def k_bind_def k_lock_thread_def k_thread_def
        k_get_def k_threads_def k_modify_def k_unlock_thread_def k_halloc_def k_alloc_def k_when_def k_next_def)
  ultimately show ?thesis using inv4 by auto
qed

section \<open>The scheduler\<close>

lemma blocks_inv_threads: "sd_threads st' = sd_threads st \<Longrightarrow> blocks_inv T st' = blocks_inv T st"
  by (rule blocks_inv_cong) simp_all

lemma blocks_inv_other:
  "blocks_inv T (thread_update u (\<lambda>th. th\<lparr>t_usedTicks := g th\<rparr>) st) = blocks_inv T st"
  "blocks_inv T (thread_update u (\<lambda>th. th\<lparr>t_wasNice := h th\<rparr>) st) = blocks_inv T st"
  "blocks_inv T (thread_update u (\<lambda>th. th\<lparr>t_esp := i th\<rparr>) st) = blocks_inv T st"
  by (rule blocks_inv_cong, simp_all)+

lemma sd_finish_inv: "blocks_inv T (sd_finish st p t) = blocks_inv T st"
  by (rule blocks_inv_cong) (simp_all add: sd_finish_def thread_update_def)

lemma sd_reap_threads: "sd_reap st p t = Inr (st', p', t') \<Longrightarrow> sd_threads st' = sd_threads st"
  by (auto simp: sd_reap_def Let_def split: if_splits option.splits)

lemma sd_advance_threads: "sd_advance st p t = (st', p', t') \<Longrightarrow> sd_threads st' = sd_threads st"
  by (auto simp: sd_advance_def Let_def)

lemma sd_step_inv:
  assumes "blocks_inv T st"
  shows "case sd_step now at st of Inl e \<Rightarrow> True | Inr (Continue at' st') \<Rightarrow> blocks_inv T st' | Inr (Return esp st') \<Rightarrow> blocks_inv T st'"
proof (cases at)
  case None
  show ?thesis
  proof (cases "sd_reap st (sd_currentProcess st) (scheduledThread st (sd_currentProcess st))")
    case (Inl e)
    then show ?thesis using None by (simp add: sd_step_def)
  next
    case (Inr r)
    obtain st' p t where r: "r = (st', p, t)" by (cases r)
    have "blocks_inv T st'" using blocks_inv_threads[OF sd_reap_threads] Inr r assms by blast
    then show ?thesis using None Inr r by (simp add: sd_step_def blocks_inv_other)
  qed
next
  case (Some pt)
  obtain p t where pt: "pt = (p, t)" by (cases pt)
  have w: "blocks_inv T (thread_update t (sd_wake now) st)" by (rule sd_wake_inv[OF assms])
  obtain st' p' t' where adv: "sd_advance (thread_update t (sd_wake now) st) p t = (st', p', t')" by (metis prod_cases3)
  have st': "blocks_inv T st'" using blocks_inv_threads[OF sd_advance_threads[OF adv]] w by blast
  moreover have "blocks_inv T (st'\<lparr>sd_currentProcess := q\<rparr>)" for q
    using blocks_inv_threads[of "st'\<lparr>sd_currentProcess := q\<rparr>" st'] st' by simp
  ultimately show ?thesis
    using Some pt adv w assms by (simp add: sd_step_def sd_finish_inv Let_def)
qed

definition keeps_blocks :: "ptr set \<Rightarrow> (u32 \<times> sched) result \<Rightarrow> bool" where
  "keeps_blocks T r \<longleftrightarrow> (case r of Inl e \<Rightarrow> True | Inr (esp, st) \<Rightarrow> blocks_inv T st)"

lemma sd_run_inv:
  assumes "sd_run now at st = Some r" "blocks_inv T st"
  shows "keeps_blocks T r"
proof -
  have "blocks_inv T st \<longrightarrow> keeps_blocks T r"
  proof (rule sd_run.raw_induct[of "\<lambda>now at st r. blocks_inv T st \<longrightarrow> keeps_blocks T r", OF _ assms(1)])
    fix run now at st r
    assume IH: "\<And>now at st r. run now at st = Some r \<Longrightarrow> blocks_inv T st \<longrightarrow> keeps_blocks T r"
      and r: "(case sd_step now at st of Inl e \<Rightarrow> Some (Inl e) | Inr (Continue at' st') \<Rightarrow> run now at' st'
          | Inr (Return esp st') \<Rightarrow> Some (Inr (esp, st'))) = Some r"
    show "blocks_inv T st \<longrightarrow> keeps_blocks T r"
    proof (cases "sd_step now at st")
      case (Inl e)
      then show ?thesis using r by (auto simp: keeps_blocks_def)
    next
      case (Inr o')
      then show ?thesis using r sd_step_inv[of T st now at] IH by (cases o') (auto simp: keeps_blocks_def[of T "Inr (_, _)"])
    qed
  qed
  then show ?thesis using assms(2) by blast
qed


definition two_threads :: kenv where
  "two_threads = \<lparr>k_sched = sample_sched, k_results = [77], k_log = [], k_errno = 0, k_mem = (\<lambda>_. 0), k_kernelDirectory = 4096,
     k_pid = 1, k_lists = (\<lambda>_. the (list_create True 36 28 32)), k_fields = (\<lambda>_ _. 0)\<rparr>"


end
