(* ===== verification/Processes.thy ===== *)
theory Processes
  imports Mmap ThreadBlocks
begin

text \<open>
  \<^verbatim>\<open>src/sys/scheduler/process.c\<close>, the system calls of \<^verbatim>\<open>scprocess.c\<close> and \<^verbatim>\<open>scthread.c\<close>, and the collection of
  dead objects in \<^verbatim>\<open>kerneld.c\<close>. As for threads, allocations take their results from the environment and
  a log records them; an executable image, a file system context and a page directory with its tables
  count as one resource each.
\<close>

section \<open>Creation\<close>

definition PROCESS_NULL :: u32 where "PROCESS_NULL = 0xFFFFFFFF"

definition kSDMaxOpenFiles :: nat where "kSDMaxOpenFiles = 512"

definition k_processes :: "ptr \<Rightarrow> (process_t \<Rightarrow> process_t) \<Rightarrow> unit kop" where
  "k_processes p f = k_modify (\<lambda>k. k\<lparr>k_sched := process_update p f (k_sched k)\<rparr>)"

definition process_getUniqueID :: "u32 kop" where
  "process_getUniqueID = k_bind (k_get k_pid) (\<lambda>uid. k_bind (k_modify (\<lambda>k. k\<lparr>k_pid := uid + 1\<rparr>)) (\<lambda>_. k_return uid))"

text \<open>The fields \<^verbatim>\<open>process_createVoid\<close> sets; the scheduled thread is set by the first thread that is attached.\<close>

definition process_initial :: "u32 \<Rightarrow> ptr \<Rightarrow> u32 \<Rightarrow> 64 word \<Rightarrow> ptr \<Rightarrow> process_t \<Rightarrow> process_t" where
  "process_initial pid parent ppid now mappings p =
     p\<lparr>p_pid := pid, p_died := False, p_ring0 := False, p_lock := SPINLOCK_INIT,
       p_parent := (if parent \<noteq> 0 then ppid else PROCESS_NULL), p_pprocess := parent,
       p_image := 0, p_pdirectory := 0, p_context := 0, p_startTime := now, p_usedTime := 0, p_mappings := mappings,
       p_files := replicate kSDMaxOpenFiles 0, p_openFiles := 0,
       p_threadLock := SPINLOCK_INIT, p_threadCounter := 0, p_threads := []\<rparr>"

definition process_createVoid :: "64 word \<Rightarrow> bool \<Rightarrow> ptr kop" where
  "process_createVoid now errno =
     k_bind k_halloc (\<lambda>process.
     if process = 0 then k_bind (k_set_errno errno ENOMEM) (\<lambda>_. k_return 0)
     else
       k_bind (k_get (\<lambda>k. sd_currentProcess (k_sched k))) (\<lambda>parent.
       k_bind (k_process parent) (\<lambda>pp.
       k_bind process_getUniqueID (\<lambda>pid.
       k_bind k_halloc (\<lambda>mappings.
       k_bind (k_processes process (process_initial pid parent (p_pid pp) now mappings)) (\<lambda>_.
       k_bind (k_modify (\<lambda>k. k\<lparr>k_lists := (k_lists k)(process := the (list_create True 36 28 32))\<rparr>)) (\<lambda>_.
       if mappings = 0
       then k_bind (k_hfree process) (\<lambda>_. k_bind (k_set_errno errno ENOMEM) (\<lambda>_. k_return 0))
       else k_return process)))))))"

fun insert_after :: "ptr \<Rightarrow> ptr \<Rightarrow> ptr list \<Rightarrow> ptr list" where
  "insert_after y x [] = []"
| "insert_after y x (z # zs) = (if z = y then z # x # zs else z # insert_after y x zs)"

text \<open>
  The new process is put after its parent, in whatever list the parent is; a process without a parent
  faults.
\<close>

definition process_insert :: "ptr \<Rightarrow> sched \<Rightarrow> sched result" where
  "process_insert process st =
     bind_res (spinlock_lock (sd_lock st)) (\<lambda>lck.
     let parent = p_pprocess (sd_procs st process) in
     if parent = 0 then Inl OutOfBounds
     else Inr (st\<lparr>sd_processes := insert_after parent process (sd_processes st),
                  sd_deadProcesses := insert_after parent process (sd_deadProcesses st),
                  sd_lock := spinlock_unlock lck\<rparr>))"

section \<open>Destruction\<close>

fun destroy_threads :: "(ptr \<Rightarrow> ptr \<Rightarrow> thread_event \<Rightarrow> unit kop) \<Rightarrow> (ptr \<Rightarrow> ptr \<Rightarrow> ptr) \<Rightarrow> ptr list \<Rightarrow> unit kop" where
  "destroy_threads call resolve [] = k_return ()"
| "destroy_threads call resolve (t # ts) =
     k_bind (thread_destroy call resolve t) (\<lambda>_. destroy_threads call resolve ts)"

text \<open>The loop over the mappings follows the fragments of the first one.\<close>

fun destroy_mappings :: "nat \<Rightarrow> ptr \<Rightarrow> ptr \<Rightarrow> unit kop" where
  "destroy_mappings 0 dir description = k_fail Diverges"
| "destroy_mappings (Suc fuel) dir description =
     (if description = 0 then k_return ()
      else
        k_bind (k_field d_length description) (\<lambda>len.
        k_bind (k_field d_vaddress description) (\<lambda>v.
        k_bind (k_field d_paddress description) (\<lambda>p.
        k_bind (k_field d_next description) (\<lambda>nxt.
        k_bind (k_vm_free dir v (VM_PAGE_COUNT len)) (\<lambda>_.
        k_bind (k_pm_free p (VM_PAGE_COUNT len)) (\<lambda>_.
        destroy_mappings fuel dir nxt)))))))"

definition mm_destroy :: "ptr \<Rightarrow> ptr \<Rightarrow> unit kop" where
  "mm_destroy process handle k =
     (case list_destroy (k_lists k process) (k_fields k) of
        None \<Rightarrow> Inl Diverges
      | Some es \<Rightarrow> Inr ((), k\<lparr>k_log := k_log k @ map (\<lambda>e. Release (Heap e)) es @ [Release (Heap handle)]\<rparr>))"

definition process_destroy :: "nat \<Rightarrow> (ptr \<Rightarrow> ptr \<Rightarrow> thread_event \<Rightarrow> unit kop) \<Rightarrow> (ptr \<Rightarrow> ptr \<Rightarrow> ptr) \<Rightarrow> ptr \<Rightarrow> unit kop" where
  "process_destroy fuel call resolve process =
     k_bind (k_process process) (\<lambda>p.
     k_bind (destroy_threads call resolve (p_threads p)) (\<lambda>_.
     k_bind (k_when (p_image p \<noteq> 0) (k_release (Image (p_image p)))) (\<lambda>_.
     k_bind (k_when (p_context p \<noteq> 0) (k_release (Context (p_context p)))) (\<lambda>_.
     k_bind (mm_first process) (\<lambda>first.
     k_bind (destroy_mappings fuel (p_pdirectory p) first) (\<lambda>_.
     k_bind (k_release (Directory (p_pdirectory p))) (\<lambda>_.
     k_bind (mm_destroy process (p_mappings p)) (\<lambda>_.
     k_hfree process))))))))"

definition process_bail :: "nat \<Rightarrow> (ptr \<Rightarrow> ptr \<Rightarrow> thread_event \<Rightarrow> unit kop) \<Rightarrow> (ptr \<Rightarrow> ptr \<Rightarrow> ptr) \<Rightarrow> ptr \<Rightarrow> bool \<Rightarrow> ptr kop" where
  "process_bail fuel call resolve process errno =
     k_bind (process_destroy fuel call resolve process) (\<lambda>_. k_bind (k_set_errno errno ENOMEM) (\<lambda>_. k_return 0))"

section \<open>Programs, forks and the first process\<close>

text \<open>
  \<^verbatim>\<open>vm_createDirectory\<close> (\<^verbatim>\<open>src/sys/memory/vmemory.c\<close>) maps the frame it allocates for the directory without testing it;
  mapping frame 0 fails an assertion.
\<close>

definition k_vm_createDirectory :: "ptr kop" where
  "k_vm_createDirectory = k_bind (k_alloc (\<lambda>x. [Directory x])) (\<lambda>x. if x = 0 then k_fail KernelPanic else k_return x)"

definition process_createWithFile :: "nat \<Rightarrow> (ptr \<Rightarrow> ptr \<Rightarrow> thread_event \<Rightarrow> unit kop) \<Rightarrow> (ptr \<Rightarrow> ptr \<Rightarrow> ptr) \<Rightarrow>
    64 word \<Rightarrow> (ptr \<Rightarrow> ptr) \<Rightarrow> bool \<Rightarrow> bool \<Rightarrow> ptr kop" where
  "process_createWithFile fuel call resolve now entry name errno =
     (if \<not> name then k_bind (k_set_errno errno EINVAL) (\<lambda>_. k_return 0)
      else
        k_bind (process_createVoid now errno) (\<lambda>process.
        if process = 0 then k_return 0
        else
          k_bind k_vm_createDirectory (\<lambda>dir.
          k_bind (k_processes process (\<lambda>p. p\<lparr>p_pdirectory := dir\<rparr>)) (\<lambda>_.
          k_bind (k_alloc (\<lambda>x. [Image x])) (\<lambda>image.
          k_bind (k_processes process (\<lambda>p. p\<lparr>p_image := image\<rparr>)) (\<lambda>_.
          if image = 0 then process_bail fuel call resolve process errno
          else
            k_bind (k_alloc (\<lambda>x. [Context x])) (\<lambda>context.
            k_bind (k_processes process (\<lambda>p. p\<lparr>p_context := context\<rparr>)) (\<lambda>_.
            if context = 0 then process_bail fuel call resolve process errno
            else
              k_bind (thread_create call resolve process (entry image) (4 * 4096) [] errno) (\<lambda>thread.
              if thread = 0 then k_bind (process_destroy fuel call resolve process) (\<lambda>_. k_return 0)
              else k_bind (k_sched_op (process_insert process)) (\<lambda>_. k_return process))))))))))"

definition process_fork :: "nat \<Rightarrow> (ptr \<Rightarrow> ptr \<Rightarrow> thread_event \<Rightarrow> unit kop) \<Rightarrow> (ptr \<Rightarrow> ptr \<Rightarrow> ptr) \<Rightarrow>
    64 word \<Rightarrow> ptr \<Rightarrow> bool \<Rightarrow> ptr kop" where
  "process_fork fuel call resolve now parent errno =
     k_bind (process_createVoid now errno) (\<lambda>child.
     if child = 0 then k_return 0
     else
       k_bind k_vm_createDirectory (\<lambda>dir.
       k_bind (k_process parent) (\<lambda>pp.
       k_bind (k_alloc (\<lambda>x. [Image x])) (\<lambda>image.
       k_bind (k_processes child (\<lambda>p. p\<lparr>p_pdirectory := dir, p_image := image, p_ring0 := p_ring0 pp\<rparr>)) (\<lambda>_.
       k_bind (k_alloc (\<lambda>x. [Context x])) (\<lambda>context.
       k_bind (k_processes child (\<lambda>p. p\<lparr>p_context := context\<rparr>)) (\<lambda>_.
       if context = 0 then process_bail fuel call resolve child errno
       else
         k_bind (thread_clone call resolve child (p_scheduledThread pp) errno) (\<lambda>thread.
         if thread = 0 then k_bind (process_destroy fuel call resolve child) (\<lambda>_. k_return 0)
         else
           k_bind (mmap_copyMappings fuel child parent) (\<lambda>_.
           k_bind (k_sched_op (process_insert child)) (\<lambda>_. k_return child))))))))))"

definition process_forgeInitialProcess :: "(ptr \<Rightarrow> ptr \<Rightarrow> thread_event \<Rightarrow> unit kop) \<Rightarrow> (ptr \<Rightarrow> ptr \<Rightarrow> ptr) \<Rightarrow> ptr \<Rightarrow> 64 word \<Rightarrow> ptr kop" where
  "process_forgeInitialProcess call resolve kernelContext now =
     k_bind (k_sched_op (\<lambda>st. bind_res (spinlock_lock (sd_lock st)) (\<lambda>lck. Inr (st\<lparr>sd_lock := lck\<rparr>)))) (\<lambda>_.
     k_bind (process_createVoid now False) (\<lambda>process.
     k_bind (k_when (process \<noteq> 0)
       (k_bind (k_get k_kernelDirectory) (\<lambda>kdir.
        k_bind (k_processes process (\<lambda>p. p\<lparr>p_pdirectory := kdir, p_ring0 := True, p_context := kernelContext\<rparr>)) (\<lambda>_.
        k_bind (thread_create call resolve process 0 4096 [] False) (\<lambda>_.
        k_modify (\<lambda>k. k\<lparr>k_sched := process_setFirstProcess process (k_sched k)\<rparr>)))))) (\<lambda>_.
     k_bind (k_modify (\<lambda>k. k\<lparr>k_sched := (k_sched k)\<lparr>sd_lock := 0\<rparr>\<rparr>)) (\<lambda>_.
     k_return process))))"

section \<open>Looking up\<close>

definition process_getParent :: "sched \<Rightarrow> ptr" where
  "process_getParent st = p_pprocess (sd_procs st (sd_currentProcess st))"

fun process_with_pid :: "(ptr \<Rightarrow> process_t) \<Rightarrow> ptr list \<Rightarrow> u32 \<Rightarrow> ptr" where
  "process_with_pid pr [] pid = 0"
| "process_with_pid pr (p # ps) pid = (if p_pid (pr p) = pid then p else process_with_pid pr ps pid)"

definition process_getWithPid :: "sched \<Rightarrow> u32 \<Rightarrow> (ptr \<times> sched) result" where
  "process_getWithPid st pid =
     bind_res (spinlock_lock (sd_lock st)) (\<lambda>lck.
     Inr (process_with_pid (sd_procs st) (sd_processes st) pid, st\<lparr>sd_lock := spinlock_unlock lck\<rparr>))"

definition process_lock :: "process_t \<Rightarrow> process_t result" where
  "process_lock p = bind_res (spinlock_lock (p_lock p)) (\<lambda>lck. Inr (p\<lparr>p_lock := lck\<rparr>))"

definition process_unlock :: "process_t \<Rightarrow> process_t" where
  "process_unlock p = p\<lparr>p_lock := spinlock_unlock (p_lock p)\<rparr>"

section \<open>File descriptors\<close>

definition kSDInvalidFile :: ptr where "kSDInvalidFile = 0xFFFFFFFF"

fun first_free :: "nat \<Rightarrow> ptr list \<Rightarrow> nat option" where
  "first_free i [] = None"
| "first_free i (f # fs) = (if f = 0 then Some i else first_free (Suc i) fs)"

definition process_allocateFiledescriptor :: "process_t \<Rightarrow> int \<times> process_t" where
  "process_allocateFiledescriptor p =
     (case first_free 0 (p_files p) of
        None \<Rightarrow> (- 1, p)
      | Some i \<Rightarrow> (int i, p\<lparr>p_files := (p_files p)[i := kSDInvalidFile]\<rparr>))"

text \<open>Only the upper bound of a descriptor is tested; a negative one leaves the array.\<close>

definition process_setFileForFiledescriptor :: "process_t \<Rightarrow> int \<Rightarrow> ptr \<Rightarrow> process_t result" where
  "process_setFileForFiledescriptor p fd file =
     (if fd \<ge> int kSDMaxOpenFiles then Inr p
      else if fd < 0 then Inl OutOfBounds
      else bind_res (write_cell (p_files p) (nat fd) file) (\<lambda>fs. Inr (p\<lparr>p_files := fs\<rparr>)))"

definition process_releaseFiledescriptor :: "process_t \<Rightarrow> int \<Rightarrow> process_t result" where
  "process_releaseFiledescriptor p fd =
     (if fd \<ge> int kSDMaxOpenFiles then Inr p
      else if fd < 0 then Inl OutOfBounds
      else bind_res (write_cell (p_files p) (nat fd) 0) (\<lambda>fs. Inr (p\<lparr>p_files := fs\<rparr>)))"

definition process_fileWithFiledescriptor :: "process_t \<Rightarrow> int \<Rightarrow> ptr result" where
  "process_fileWithFiledescriptor p fd =
     (if fd \<ge> int kSDMaxOpenFiles then Inr 0
      else if fd < 0 then Inl OutOfBounds
      else read_cell (p_files p) (nat fd))"

section \<open>System calls\<close>

definition sc_schedule :: "64 word \<Rightarrow> u32 \<Rightarrow> sched \<Rightarrow> (sched \<Rightarrow> sched) \<Rightarrow> (u32 \<times> u32 \<times> sched) result option" where
  "sc_schedule now esp st after =
     (case sd_schedule now esp st of
        None \<Rightarrow> None
      | Some (Inl e) \<Rightarrow> Some (Inl e)
      | Some (Inr (esp, st)) \<Rightarrow> Some (Inr (0, esp, after st)))"

text \<open>The results are the value for the caller, the stack pointer to switch to, and the state.\<close>

definition sc_sleep :: "64 word \<Rightarrow> u32 \<Rightarrow> u32 \<Rightarrow> sched \<Rightarrow> (u32 \<times> u32 \<times> sched) result option" where
  "sc_sleep now esp time st =
     (let thread = thread_getCurrentThread st;
          st = thread_update thread (\<lambda>th. th\<lparr>t_blocks := t_blocks th + 1\<rparr>) st;
          st = (if time > 0 then thread_update thread (thread_sleep now (ucast time)) st else st)
      in sc_schedule now esp st (thread_update thread (\<lambda>th. th\<lparr>t_blocks := t_blocks th - 1\<rparr>)))"

definition sc_threadExit :: "64 word \<Rightarrow> u32 \<Rightarrow> sched \<Rightarrow> (u32 \<times> u32 \<times> sched) result option" where
  "sc_threadExit now esp st =
     sc_schedule now esp (thread_update (thread_getCurrentThread st) (\<lambda>th. th\<lparr>t_died := True\<rparr>) st) id"

definition sc_threadSelf :: "sched \<Rightarrow> u32" where
  "sc_threadSelf st = t_id (sd_threads st (thread_getCurrentThread st))"

definition sc_exit :: "64 word \<Rightarrow> u32 \<Rightarrow> sched \<Rightarrow> (u32 \<times> u32 \<times> sched) result option" where
  "sc_exit now esp st =
     sc_schedule now esp (process_update (sd_currentProcess st) (\<lambda>p. p\<lparr>p_died := True\<rparr>) st) id"

definition sc_pid :: "sched \<Rightarrow> u32" where
  "sc_pid st = p_pid (sd_procs st (sd_currentProcess st))"

definition sc_ppid :: "sched \<Rightarrow> u32" where
  "sc_ppid st = p_parent (sd_procs st (sd_currentProcess st))"

text \<open>System calls that allocate run in the environment; switching is the last thing they do.\<close>

definition k_schedule :: "64 word \<Rightarrow> u32 \<Rightarrow> kenv \<Rightarrow> (u32 \<times> u32 \<times> kenv) result option" where
  "k_schedule now esp k =
     (case sd_schedule now esp (k_sched k) of
        None \<Rightarrow> None
      | Some (Inl e) \<Rightarrow> Some (Inl e)
      | Some (Inr (esp, st)) \<Rightarrow> Some (Inr (0, esp, k\<lparr>k_sched := st\<rparr>)))"

definition sc_threadJoin :: "64 word \<Rightarrow> u32 \<Rightarrow> u32 \<Rightarrow> kenv \<Rightarrow> (u32 \<times> u32 \<times> kenv) result option" where
  "sc_threadJoin now esp tid k =
     (let thread = thread_getWithID (k_sched k) tid in
      if thread = 0 then Some (Inr (- 1, esp, k\<lparr>k_errno := EINVAL\<rparr>))
      else
        (case thread_join (thread_getCurrentThread (k_sched k)) thread k of
           Inl e \<Rightarrow> Some (Inl e)
         | Inr (_, k) \<Rightarrow> k_schedule now esp k))"

fun join_all :: "ptr list \<Rightarrow> ptr \<Rightarrow> unit kop" where
  "join_all [] toJoin = k_return ()"
| "join_all (t # ts) toJoin = k_bind (thread_join t toJoin) (\<lambda>_. join_all ts toJoin)"

definition sc_wait :: "64 word \<Rightarrow> u32 \<Rightarrow> u32 \<Rightarrow> kenv \<Rightarrow> (u32 \<times> u32 \<times> kenv) result option" where
  "sc_wait now esp pid k =
     (case process_getWithPid (k_sched k) pid of
        Inl e \<Rightarrow> Some (Inl e)
      | Inr (process, st) \<Rightarrow>
          (let k = k\<lparr>k_sched := st\<rparr> in
           if process = 0 \<or> p_died (sd_procs st process) then Some (Inr (- 1, esp, k\<lparr>k_errno := EINVAL\<rparr>))
           else
             (case join_all (p_threads (sd_procs st (sd_currentProcess st))) (mainThread st process) k of
                Inl e \<Rightarrow> Some (Inl e)
              | Inr (_, k) \<Rightarrow> k_schedule now esp k)))"

definition sc_threadAttach :: "(ptr \<Rightarrow> ptr \<Rightarrow> thread_event \<Rightarrow> unit kop) \<Rightarrow> (ptr \<Rightarrow> ptr \<Rightarrow> ptr) \<Rightarrow> u32 \<Rightarrow> u32 \<Rightarrow> u32 \<Rightarrow> u32 \<Rightarrow> u32 kop" where
  "sc_threadAttach call resolve entry stacksize arg1 arg2 =
     k_bind (k_get (\<lambda>k. sd_currentProcess (k_sched k))) (\<lambda>process.
     k_bind (thread_create call resolve process entry stacksize [arg1, arg2] True) (\<lambda>thread.
     if thread = 0 then k_return (- 1)
     else k_bind (k_thread thread) (\<lambda>th. k_return (t_id th))))"

text \<open>The child's saved \<^verbatim>\<open>eax\<close> is the twelfth word of its frame.\<close>

definition sc_fork :: "nat \<Rightarrow> (ptr \<Rightarrow> ptr \<Rightarrow> thread_event \<Rightarrow> unit kop) \<Rightarrow> (ptr \<Rightarrow> ptr \<Rightarrow> ptr) \<Rightarrow> 64 word \<Rightarrow> u32 \<Rightarrow> u32 kop" where
  "sc_fork fuel call resolve now esp =
     k_bind (k_get (\<lambda>k. sd_currentProcess (k_sched k))) (\<lambda>process.
     k_bind (k_process process) (\<lambda>p.
     k_bind (k_threads (p_scheduledThread p) (\<lambda>th. th\<lparr>t_esp := esp\<rparr>)) (\<lambda>_.
     k_bind (process_fork fuel call resolve now process True) (\<lambda>child.
     if child = 0 then k_return (- 1)
     else
       k_bind (k_process child) (\<lambda>c.
       k_bind (k_thread (p_scheduledThread c)) (\<lambda>th.
       k_bind (k_modify (\<lambda>k. k\<lparr>k_mem := (k_mem k)(t_esp th + 44 := 0)\<rparr>)) (\<lambda>_.
       k_return (p_pid c))))))))"

section \<open>Collection\<close>

text \<open>One round of the kernel daemon: dead processes and threads are destroyed, then the daemon is nice.\<close>

fun destroy_processes :: "nat \<Rightarrow> (ptr \<Rightarrow> ptr \<Rightarrow> thread_event \<Rightarrow> unit kop) \<Rightarrow> (ptr \<Rightarrow> ptr \<Rightarrow> ptr) \<Rightarrow> ptr list \<Rightarrow> unit kop" where
  "destroy_processes fuel call resolve [] = k_return ()"
| "destroy_processes fuel call resolve (p # ps) =
     k_bind (process_destroy fuel call resolve p) (\<lambda>_. destroy_processes fuel call resolve ps)"

definition k_collect :: "(sched \<Rightarrow> ('a \<times> sched) result) \<Rightarrow> 'a kop" where
  "k_collect f k = bind_res (f (k_sched k)) (\<lambda>(x, st). Inr (x, k\<lparr>k_sched := st\<rparr>))"

definition kerneld_round :: "nat \<Rightarrow> (ptr \<Rightarrow> ptr \<Rightarrow> thread_event \<Rightarrow> unit kop) \<Rightarrow> (ptr \<Rightarrow> ptr \<Rightarrow> ptr) \<Rightarrow> ptr \<Rightarrow> unit kop" where
  "kerneld_round fuel call resolve self =
     k_bind (k_collect process_getCollectableProcesses) (\<lambda>ps.
     k_bind (destroy_processes fuel call resolve ps) (\<lambda>_.
     k_bind (k_collect thread_getCollectableThreads) (\<lambda>ts.
     k_bind (destroy_threads call resolve ts) (\<lambda>_.
     k_bind (k_process self) (\<lambda>p.
     k_threads (hd (p_threads p)) (\<lambda>th. th\<lparr>t_wasNice := True\<rparr>))))))"

section \<open>The table of descriptors\<close>

text \<open>
  What the file system relies on: a table of slots in which a slot is found, filled, read and given
  back.
\<close>

locale descriptor_table =
  fixes alloc :: "'s \<Rightarrow> int \<times> 's"
    and put :: "'s \<Rightarrow> int \<Rightarrow> 'f \<Rightarrow> 's result"
    and release :: "'s \<Rightarrow> int \<Rightarrow> 's result"
    and get :: "'s \<Rightarrow> int \<Rightarrow> 'f result"
    and inv :: "'s \<Rightarrow> bool"
    and cap :: nat
    and free :: 'f
    and reserved :: 'f
  assumes get_law: "inv s \<Longrightarrow> 0 \<le> fd \<Longrightarrow> fd < int cap \<Longrightarrow> \<exists>f. get s fd = Inr f"
    and put_law: "inv s \<Longrightarrow> 0 \<le> fd \<Longrightarrow> fd < int cap \<Longrightarrow> \<exists>s'. put s fd f = Inr s' \<and> inv s' \<and> get s' fd = Inr f \<and>
      (\<forall>e. 0 \<le> e \<longrightarrow> e \<noteq> fd \<longrightarrow> get s' e = get s e)"
    and release_law: "inv s \<Longrightarrow> 0 \<le> fd \<Longrightarrow> fd < int cap \<Longrightarrow> release s fd = put s fd free"
    and alloc_law: "inv s \<Longrightarrow> alloc s = (fd, s') \<Longrightarrow>
      (if fd = - 1 then s' = s \<and> (\<forall>e. 0 \<le> e \<and> e < int cap \<longrightarrow> get s e \<noteq> Inr free)
       else 0 \<le> fd \<and> fd < int cap \<and> get s fd = Inr free \<and> (\<forall>e. 0 \<le> e \<and> e < fd \<longrightarrow> get s e \<noteq> Inr free) \<and>
         put s fd reserved = Inr s')"
    and distinct_law: "reserved \<noteq> free"
begin

text \<open>A slot that was found is not found again until it is given back, and then it is the next one.\<close>

lemma alloc_inv: "inv s \<Longrightarrow> alloc s = (fd, s') \<Longrightarrow> inv s'"
  using alloc_law[of s fd s'] put_law[of s fd reserved] by (auto split: if_splits)

lemma alloc_fresh:
  assumes "inv s" "alloc s = (fd, s')" "fd \<noteq> - 1" "alloc s' = (fd', s'')"
  shows "fd' \<noteq> fd"
proof -
  have fd: "0 \<le> fd" "fd < int cap" "put s fd reserved = Inr s'" using alloc_law[OF assms(1,2)] assms(3) by auto
  then have "get s' fd = Inr reserved" using put_law[OF assms(1) fd(1,2), of reserved] by auto
  then show ?thesis using alloc_law[OF alloc_inv[OF assms(1,2)] assms(4)] distinct_law fd by (auto split: if_splits)
qed

lemma alloc_put_get_release:
  assumes "inv s" "alloc s = (fd, s')" "fd \<noteq> - 1"
  shows "\<exists>s2 s3. put s' fd f = Inr s2 \<and> inv s2 \<and> get s2 fd = Inr f \<and> release s2 fd = Inr s3 \<and> inv s3 \<and>
     (\<forall>e. 0 \<le> e \<longrightarrow> get s3 e = get s e) \<and> (\<exists>s4. alloc s3 = (fd, s4))"
proof -
  have fd: "0 \<le> fd" "fd < int cap" "put s fd reserved = Inr s'" "get s fd = Inr free"
    "\<forall>e. 0 \<le> e \<and> e < fd \<longrightarrow> get s e \<noteq> Inr free"
    using alloc_law[OF assms(1,2)] assms(3) by auto
  have s': "inv s'" "\<forall>e. 0 \<le> e \<longrightarrow> e \<noteq> fd \<longrightarrow> get s' e = get s e" using put_law[OF assms(1) fd(1,2), of reserved] fd(3) by auto
  obtain s2 where s2: "put s' fd f = Inr s2" "inv s2" "get s2 fd = Inr f" "\<forall>e. 0 \<le> e \<longrightarrow> e \<noteq> fd \<longrightarrow> get s2 e = get s' e"
    using put_law[OF s'(1) fd(1,2)] by blast
  obtain s3 where s3: "put s2 fd free = Inr s3" "inv s3" "get s3 fd = Inr free" "\<forall>e. 0 \<le> e \<longrightarrow> e \<noteq> fd \<longrightarrow> get s3 e = get s2 e"
    using put_law[OF s2(2) fd(1,2)] by blast
  have eq: "\<forall>e. 0 \<le> e \<longrightarrow> get s3 e = get s e" using s3 s2 s' fd(4) by metis
  obtain fd' s4 where a: "alloc s3 = (fd', s4)" by (metis surj_pair)
  have "fd' = fd"
  proof (rule ccontr)
    assume ne: "fd' \<noteq> fd"
    show False
    proof (cases "fd' = - 1")
      case True
      then show False using alloc_law[OF s3(2) a] s3(3) fd(1,2) by auto
    next
      case False
      then have l: "0 \<le> fd'" "get s3 fd' = Inr free" "\<forall>e. 0 \<le> e \<and> e < fd' \<longrightarrow> get s3 e \<noteq> Inr free"
        using alloc_law[OF s3(2) a] by auto
      then have "fd' < fd" using ne s3(3) fd(1) by force
      then show False using l eq fd(5) by auto
    qed
  qed
  then show ?thesis using s2 s3 eq a release_law[OF s2(2) fd(1,2)] by metis
qed

end

lemma first_free_None: "first_free i fs = None \<longleftrightarrow> 0 \<notin> set fs"
  by (induction i fs rule: first_free.induct) auto

lemma first_free_Some:
  "first_free i fs = Some j \<Longrightarrow> i \<le> j \<and> j - i < length fs \<and> fs ! (j - i) = 0 \<and> (\<forall>m < j - i. fs ! m \<noteq> 0)"
proof (induction i fs rule: first_free.induct)
  case (2 i f fs)
  show ?case
  proof (cases "f = 0")
    case False
    then have "Suc i \<le> j \<and> j - Suc i < length fs \<and> fs ! (j - Suc i) = 0 \<and> (\<forall>m < j - Suc i. fs ! m \<noteq> 0)" using 2 by simp
    moreover from this have "j - i = Suc (j - Suc i)" by (elim conjE) linarith
    ultimately show ?thesis using False by (auto simp: less_Suc_eq_0_disj)
  qed (use 2 in simp)
qed simp

definition files_wf :: "process_t \<Rightarrow> bool" where
  "files_wf p \<longleftrightarrow> length (p_files p) = kSDMaxOpenFiles"

lemmas fd_defs = process_allocateFiledescriptor_def process_setFileForFiledescriptor_def process_releaseFiledescriptor_def
  process_fileWithFiledescriptor_def files_wf_def kSDInvalidFile_def

interpretation fdt: descriptor_table process_allocateFiledescriptor process_setFileForFiledescriptor process_releaseFiledescriptor
  process_fileWithFiledescriptor files_wf kSDMaxOpenFiles 0 kSDInvalidFile
proof unfold_locales
  fix s fd s' assume wf: "files_wf s" and a: "process_allocateFiledescriptor s = (fd, s')"
  show "if fd = - 1 then s' = s \<and> (\<forall>e. 0 \<le> e \<and> e < int kSDMaxOpenFiles \<longrightarrow> process_fileWithFiledescriptor s e \<noteq> Inr 0)
       else 0 \<le> fd \<and> fd < int kSDMaxOpenFiles \<and> process_fileWithFiledescriptor s fd = Inr 0 \<and>
         (\<forall>e. 0 \<le> e \<and> e < fd \<longrightarrow> process_fileWithFiledescriptor s e \<noteq> Inr 0) \<and>
         process_setFileForFiledescriptor s fd kSDInvalidFile = Inr s'"
  proof (cases "first_free 0 (p_files s)")
    case None
    then have "0 \<notin> set (p_files s)" by (simp add: first_free_None)
    then show ?thesis using None wf a by (auto simp: fd_defs in_set_conv_nth)
  next
    case (Some j)
    then show ?thesis using wf a first_free_Some[OF Some] by (auto simp: fd_defs)
  qed
qed (auto simp: fd_defs)



text \<open>Only descriptors from 512 on are refused; a negative one is used as an index.\<close>

theorem filedescriptor_negative:
  assumes "fd < 0"
  shows "process_fileWithFiledescriptor p fd = Inl OutOfBounds" "process_setFileForFiledescriptor p fd fl = Inl OutOfBounds"
    "process_releaseFiledescriptor p fd = Inl OutOfBounds"
  using assms by (simp_all add: process_fileWithFiledescriptor_def process_setFileForFiledescriptor_def process_releaseFiledescriptor_def)

section \<open>The lists of processes and threads\<close>

lemma set_insert_after: "set (insert_after y x xs) = (if y \<in> set xs then insert x (set xs) else set xs)"
  by (induction y x xs rule: insert_after.induct) auto

lemma distinct_insert_after: "distinct xs \<Longrightarrow> x \<notin> set xs \<Longrightarrow> distinct (insert_after y x xs)"
  by (induction y x xs rule: insert_after.induct) (auto simp: set_insert_after)

lemma insert_after_split: "y \<in> set xs \<Longrightarrow> distinct xs \<Longrightarrow> \<exists>as bs. xs = as @ y # bs \<and> insert_after y x xs = as @ y # x # bs"
proof (induction y x xs rule: insert_after.induct)
  case (2 y x z zs)
  show ?case
  proof (cases "z = y")
    case False
    then obtain as bs where "zs = as @ y # bs" "insert_after y x zs = as @ y # x # bs" using 2 by auto
    then have "z # zs = (z # as) @ y # bs \<and> insert_after y x (z # zs) = (z # as) @ y # x # bs" using False by simp
    then show ?thesis by blast
  qed (auto intro: exI[of _ "[]"])
qed simp



section \<open>Process numbers\<close>

lemma process_with_pid_cases:
  "0 \<notin> set ps \<Longrightarrow> distinct (map (p_pid \<circ> pr) ps) \<Longrightarrow>
   (if \<exists>p \<in> set ps. p_pid (pr p) = pid then process_with_pid pr ps pid \<in> set ps \<and> p_pid (pr (process_with_pid pr ps pid)) = pid
    else process_with_pid pr ps pid = 0)"
  by (induction pr ps pid rule: process_with_pid.induct) auto

definition pids_ok :: "kenv \<Rightarrow> bool" where
  "pids_ok k \<longleftrightarrow> 0 \<notin> set (sd_processes (k_sched k)) \<and>
     distinct (map (\<lambda>p. p_pid (sd_procs (k_sched k) p)) (sd_processes (k_sched k))) \<and>
     (\<forall>p \<in> set (sd_processes (k_sched k)). p_pid (sd_procs (k_sched k) p) < k_pid k)"

text \<open>
  C10. As long as the counter does not wrap around, the numbers of the processes in the list differ and are
  below the counter: a process that is created gets a new number, so inserting it keeps the numbers
  different, and looking up a number finds the one process that has it.
\<close>

theorem pids_unique:
  assumes ok: "pids_ok k" and "k_pid k \<noteq> - 1" "sd_lock (k_sched k) = 0"
    and c: "process_createVoid now errno k = Inr (c, k')" "c \<noteq> 0" "c \<notin> set (sd_processes (k_sched k))"
    and i: "process_insert c (k_sched k') = Inr st'"
  shows "p_pid (sd_procs (k_sched k') c) = k_pid k \<and> k_pid k' = k_pid k + 1 \<and> pids_ok (k'\<lparr>k_sched := st'\<rparr>) \<and>
     (\<forall>p \<in> set (sd_processes (k_sched k)). process_with_pid (sd_procs (k_sched k)) (sd_processes (k_sched k)) (p_pid (sd_procs (k_sched k) p)) = p)"
proof -
  let ?st = "k_sched k" and ?ps = "sd_processes (k_sched k)"
  have k': "k_pid k' = k_pid k + 1 \<and> p_pid (sd_procs (k_sched k') c) = k_pid k \<and> sd_processes (k_sched k') = ?ps \<and>
      (\<forall>p. p \<noteq> c \<longrightarrow> sd_procs (k_sched k') p = sd_procs ?st p)"
    using c(1,2) by (auto simp: process_createVoid_def process_getUniqueID_def k_processes_def k_prims process_initial_def split: if_splits)
  then have st': "sd_processes st' = insert_after (p_pprocess (sd_procs (k_sched k') c)) c ?ps" "sd_procs st' = sd_procs (k_sched k')"
    using i by (auto simp: process_insert_def Let_def spinlock_lock_def split: if_splits)
  have lt: "p_pid (sd_procs ?st p) < k_pid k" if "p \<in> set ?ps" for p using ok that by (simp add: pids_ok_def)
  have inj: "inj_on (\<lambda>p. p_pid (sd_procs ?st p)) (set ?ps)" "distinct ?ps" "0 \<notin> set ?ps"
    using ok by (auto simp: pids_ok_def distinct_map)
  have "unat (k_pid k + 1) = Suc (unat (k_pid k))" using unatSuc[of "k_pid k"] assms(2) by (metis add.commute add_eq_0_iff)
  then have le: "x \<le> k_pid k \<Longrightarrow> x < k_pid k + 1" for x by (simp add: word_less_nat_alt word_le_nat_alt)
  let ?qs = "insert_after (p_pprocess (sd_procs (k_sched k') c)) c ?ps"
  have qs: "set ?qs \<subseteq> insert c (set ?ps)" "distinct ?qs"
    using distinct_insert_after[OF inj(2) c(3)] by (auto simp: set_insert_after)
  have "inj_on (\<lambda>p. p_pid (sd_procs (k_sched k') p)) (insert c (set ?ps))"
    using inj(1) k' c(3) lt unfolding inj_on_def by (metis insert_iff less_irrefl)
  then have "inj_on (\<lambda>p. p_pid (sd_procs (k_sched k') p)) (set ?qs)" using qs(1) by (rule inj_on_subset)
  then have "distinct (map (\<lambda>p. p_pid (sd_procs (k_sched k') p)) ?qs)" using qs(2) by (simp only: distinct_map simp_thms)
  moreover have "p_pid (sd_procs (k_sched k') p) < k_pid k + 1" if "p \<in> set ?qs" for p
    using that qs(1) k' lt[of p] le c(3) by (cases "p = c") auto
  ultimately have "pids_ok (k'\<lparr>k_sched := st'\<rparr>)"
    using st' k' qs(1) inj(3) c(2) by (auto simp: pids_ok_def)
  moreover have "process_with_pid (sd_procs ?st) ?ps (p_pid (sd_procs ?st p)) = p" if "p \<in> set ?ps" for p
  proof -
    have d: "distinct (map (p_pid \<circ> sd_procs ?st) ?ps)" using ok by (simp add: pids_ok_def comp_def)
    have "process_with_pid (sd_procs ?st) ?ps (p_pid (sd_procs ?st p)) \<in> set ?ps"
      "p_pid (sd_procs ?st (process_with_pid (sd_procs ?st) ?ps (p_pid (sd_procs ?st p)))) = p_pid (sd_procs ?st p)"
      using process_with_pid_cases[OF inj(3) d, of "p_pid (sd_procs ?st p)"] that by (auto split: if_splits)
    then show ?thesis using inj(1) that by (auto simp: inj_on_def)
  qed
  ultimately show ?thesis using k' by blast
qed

definition numbered_env :: kenv where
  "numbered_env = (sample_env [40, 41])\<lparr>k_pid := 5, k_sched := process_update 2 (\<lambda>p. p\<lparr>p_pid := 1\<rparr>) sample_sched\<rparr>"

theorem pids_unique_witness:
  "\<exists>k' st'. process_createVoid 0 True numbered_env = Inr (40, k') \<and> process_insert 40 (k_sched k') = Inr st' \<and>
     p_pid (sd_procs (k_sched k') 40) = 5 \<and> pids_ok (k'\<lparr>k_sched := st'\<rparr>)"
proof -
  have "\<exists>k'. process_createVoid 0 True numbered_env = Inr (40, k') \<and> sd_lock (k_sched k') = 0 \<and> p_pprocess (sd_procs (k_sched k') 40) = 1"
    by (simp add: process_createVoid_def process_getUniqueID_def k_processes_def sample_evals numbered_env_def process_initial_def
        sample_defs)
  then obtain k' where c: "process_createVoid 0 True numbered_env = Inr (40, k')" "sd_lock (k_sched k') = 0"
    "p_pprocess (sd_procs (k_sched k') 40) = 1" by blast
  obtain st' where i: "process_insert 40 (k_sched k') = Inr st'" using c(2,3) by (simp add: process_insert_def Let_def)
  have "pids_ok numbered_env" "k_pid numbered_env = 5" "sd_lock (k_sched numbered_env) = 0" "40 \<notin> set (sd_processes (k_sched numbered_env))"
    by (auto simp: pids_ok_def numbered_env_def sample_env_def sample_defs)
  then show ?thesis using pids_unique[OF _ _ _ c(1) _ _ i] c(1) i by simp
qed

end
