(* ===== verification/VMemory.thy ===== *)
theory VMemory
  imports PMBoot
begin

text \<open>
  \<^verbatim>\<open>src/sys/memory/vmemory.c\<close>: page directories and page tables. The memory of the machine is a
  function from the addresses of 32-bit words to words, and every access of the kernel goes through the
  translation the processor makes with the directory of the kernel, so that the tables are read and
  written through the addresses the code uses: the directory maps itself in its entry 255, and the
  tables of other directories are mapped for the time of the access. Names with the prefix \<open>vm0\<close> are the
  functions whose names start with two underscores. The variable \<^verbatim>\<open>__vm_kernelDirectory\<close> is set to its only
  value before it is used. The translation has no buffer: every change of an entry is followed by
  \<^verbatim>\<open>invlpg\<close> for its page.
\<close>

section \<open>Constants\<close>

definition VM_PAGETABLEFLAG_ALL :: u32 where "VM_PAGETABLEFLAG_ALL = 0x7F"

definition VM_DIRECTORY_LENGTH :: u32 where "VM_DIRECTORY_LENGTH = 1024"

definition VM_PAGETABLE_LENGTH :: u32 where "VM_PAGETABLE_LENGTH = 1024"

definition VM_PAGE_SIZE :: u32 where "VM_PAGE_SIZE = 4096"

definition VM_LOWER_LIMIT :: u32 where "VM_LOWER_LIMIT = 4096"

definition VM_UPPER_LIMIT :: u32 where "VM_UPPER_LIMIT = 0xFFFFF000"

definition VM_KERNEL_PAGE_TABLES :: u32 where "VM_KERNEL_PAGE_TABLES = 0x3FC00000"

definition IR_TRAMPOLINE_BEGIN :: u32 where "IR_TRAMPOLINE_BEGIN = 0xFFAFF000"

lemmas vm_consts = VM_PAGETABLEFLAG_PRESENT_def VM_PAGETABLEFLAG_WRITEABLE_def VM_PAGETABLEFLAG_USERSPACE_def
  VM_FLAGS_KERNEL_def VM_FLAGS_USERLAND_def VM_DIRECTORY_LENGTH_def VM_PAGETABLE_LENGTH_def VM_PAGE_SIZE_def
  VM_LOWER_LIMIT_def VM_UPPER_LIMIT_def VM_KERNEL_PAGE_TABLES_def VM_KERNEL_DIRECTORY_ADDRESS_def

section \<open>Memory and translation\<close>

text \<open>
  \<open>vm_paging\<close> is the paging bit of the processor and the opposite of \<^verbatim>\<open>__vm_usePhysicalKernelPages\<close>: \<^verbatim>\<open>vm_init\<close>
  changes both at its end.
\<close>

record vm_state =
  vm_mem :: "u32 \<Rightarrow> u32"
  vm_paging :: bool
  vm_heap :: pm_bitmap
  vm_spinlock :: spinlock

abbreviation kdir :: u32 where "kdir \<equiv> VM_KERNEL_DIRECTORY_ADDRESS"

definition present :: "u32 \<Rightarrow> bool" where
  "present entry \<longleftrightarrow> entry AND VM_PAGETABLEFLAG_PRESENT \<noteq> 0"

definition base_of :: "u32 \<Rightarrow> u32" where
  "base_of entry = entry AND NOT 0xFFF"

definition dir_index :: "u32 \<Rightarrow> u32" where
  "dir_index va = va div 4096 div 1024"

definition table_index :: "u32 \<Rightarrow> u32" where
  "table_index va = va div 4096 mod 1024"

text \<open>The entry of the page of \<open>va\<close>, and the walk of the processor, from the directory at \<open>dir\<close>.\<close>

definition entry_of :: "(u32 \<Rightarrow> u32) \<Rightarrow> u32 \<Rightarrow> u32 \<Rightarrow> u32" where
  "entry_of mem dir va =
     (let table = mem (dir + 4 * dir_index va)
      in if present table then mem (base_of table + 4 * table_index va) else 0)"

definition walk :: "(u32 \<Rightarrow> u32) \<Rightarrow> u32 \<Rightarrow> u32 \<Rightarrow> u32 option" where
  "walk mem dir va =
     (let entry = entry_of mem dir va in if present entry then Some (base_of entry + va mod 4096) else None)"

type_synonym 'a vmop = "vm_state \<Rightarrow> ('a \<times> vm_state) result"

definition v_return :: "'a \<Rightarrow> 'a vmop" where
  "v_return x st = Inr (x, st)"

definition v_bind :: "'a vmop \<Rightarrow> ('a \<Rightarrow> 'b vmop) \<Rightarrow> 'b vmop" where
  "v_bind m f st = bind_res (m st) (\<lambda>(x, st). f x st)"

definition v_assert :: "bool \<Rightarrow> unit vmop" where
  "v_assert b st = (if b then Inr ((), st) else Inl Assertion)"

definition v_phys :: "u32 \<Rightarrow> vm_state \<Rightarrow> u32 option" where
  "v_phys a st = (if vm_paging st then walk (vm_mem st) kdir a else Some a)"

definition v_load :: "u32 \<Rightarrow> u32 vmop" where
  "v_load a st = (case v_phys a st of None \<Rightarrow> Inl OutOfBounds | Some p \<Rightarrow> Inr (vm_mem st p, st))"

definition v_store :: "u32 \<Rightarrow> u32 \<Rightarrow> unit vmop" where
  "v_store a v st =
     (case v_phys a st of None \<Rightarrow> Inl OutOfBounds | Some p \<Rightarrow> Inr ((), st\<lparr>vm_mem := (vm_mem st)(p := v)\<rparr>))"

text \<open>\<^verbatim>\<open>memset (a, 0, 4 * n)\<close>, a word at a time.\<close>

fun v_clear :: "u32 \<Rightarrow> nat \<Rightarrow> unit vmop" where
  "v_clear a 0 = v_return ()"
| "v_clear a (Suc n) = v_bind (v_store a 0) (\<lambda>_. v_clear (a + 4) n)"

definition v_paging :: "bool vmop" where
  "v_paging st = Inr (vm_paging st, st)"

definition v_pm_alloc :: "u32 \<Rightarrow> u32 vmop" where
  "v_pm_alloc pages st = (case pm_alloc (vm_heap st) pages of (page, heap) \<Rightarrow> Inr (page, st\<lparr>vm_heap := heap\<rparr>))"

definition v_pm_free :: "u32 \<Rightarrow> u32 \<Rightarrow> unit vmop" where
  "v_pm_free page pages st = Inr ((), st\<lparr>vm_heap := pm_free (vm_heap st) page pages\<rparr>)"

definition vm_lock :: "unit vmop" where
  "vm_lock st = bind_res (spinlock_lock (vm_spinlock st)) (\<lambda>lck. Inr ((), st\<lparr>vm_spinlock := lck\<rparr>))"

definition vm_unlock :: "unit vmop" where
  "vm_unlock st = Inr ((), st\<lparr>vm_spinlock := spinlock_unlock (vm_spinlock st)\<rparr>)"

section \<open>Searching for free pages\<close>

text \<open>
  The three searches have the same two loops; they differ in what they look at in a directory entry and
  in the tables. \<open>free i\<close> reads whether page \<open>i\<close> of the table is free.
\<close>

function scan_table :: "(u32 \<Rightarrow> bool vmop) \<Rightarrow> u32 \<Rightarrow> u32 \<Rightarrow> u32 \<Rightarrow> u32 \<Rightarrow> u32 \<Rightarrow> (u32 \<times> u32) vmop" where
  "scan_table free pages pageTableIndex pageIndex foundPages regionStart =
     (if pageIndex < VM_PAGETABLE_LENGTH then
        v_bind (free pageIndex) (\<lambda>isFree.
        if isFree then
          (let regionStart = (if foundPages = 0 then push_bit 22 pageTableIndex + push_bit 12 pageIndex else regionStart);
               foundPages = foundPages + 1
           in if foundPages \<ge> pages then v_return (foundPages, regionStart)
              else scan_table free pages pageTableIndex (pageIndex + 1) foundPages regionStart)
        else scan_table free pages pageTableIndex (pageIndex + 1) 0 regionStart)
      else v_return (foundPages, regionStart))"
  by pat_completeness auto
termination
  by (relation "measure (\<lambda>(free, pages, t, i, found, start). unat VM_PAGETABLE_LENGTH - unat i)")
    (auto simp: unat_Suc_no_wrap word_less_nat_alt diff_less_mono2)

declare scan_table.simps [simp del]

text \<open>
  The outer loop. \<open>mapped t\<close> reads whether the directory has a table for entry \<open>t\<close>, and
  \<open>visit t f\<close> makes that table accessible around \<open>f\<close>.
\<close>

function scan_directory :: "(u32 \<Rightarrow> bool vmop) \<Rightarrow> (u32 \<Rightarrow> ((u32 \<Rightarrow> bool vmop) \<Rightarrow> (u32 \<times> u32) vmop) \<Rightarrow> (u32 \<times> u32) vmop) \<Rightarrow>
    u32 \<Rightarrow> u32 \<Rightarrow> u32 \<Rightarrow> u32 \<Rightarrow> u32 \<Rightarrow> u32 \<Rightarrow> (u32 \<times> u32) vmop" where
  "scan_directory mapped visit pages upperLimit pageTableIndex pageIndex foundPages regionStart =
     (if foundPages < pages \<and> push_bit 22 pageTableIndex < upperLimit then
        (if pageTableIndex \<ge> VM_DIRECTORY_LENGTH then v_return (0, regionStart)
         else
           v_bind (mapped pageTableIndex) (\<lambda>has.
           v_bind
             (if has
              then visit pageTableIndex (\<lambda>free. scan_table free pages pageTableIndex pageIndex foundPages regionStart)
              else v_return (foundPages + VM_PAGETABLE_LENGTH,
                if foundPages = 0 then push_bit 22 pageTableIndex + push_bit 12 pageIndex else regionStart))
             (\<lambda>(foundPages, regionStart).
              scan_directory mapped visit pages upperLimit (pageTableIndex + 1) 0 foundPages regionStart)))
      else v_return (foundPages, regionStart))"
  by pat_completeness auto
termination
  by (relation "measure (\<lambda>(m, v, pages, u, t, i, found, start). unat VM_DIRECTORY_LENGTH - unat t)")
    (auto simp: unat_Suc_no_wrap word_less_nat_alt not_le diff_less_mono2)

declare scan_directory.simps [simp del]

definition find_pages :: "(u32 \<Rightarrow> bool vmop) \<Rightarrow> (u32 \<Rightarrow> ((u32 \<Rightarrow> bool vmop) \<Rightarrow> (u32 \<times> u32) vmop) \<Rightarrow> (u32 \<times> u32) vmop) \<Rightarrow>
    u32 \<Rightarrow> u32 \<Rightarrow> u32 \<Rightarrow> u32 vmop" where
  "find_pages mapped visit pages lowerLimit upperLimit =
     v_bind (v_assert (pages > 0 \<and> lowerLimit \<ge> VM_LOWER_LIMIT \<and> upperLimit \<le> VM_UPPER_LIMIT)) (\<lambda>_.
     v_bind (v_assert (lowerLimit mod VM_PAGE_SIZE = 0)) (\<lambda>_.
     v_bind (v_assert (upperLimit mod VM_PAGE_SIZE = 0)) (\<lambda>_.
     v_bind (scan_directory mapped visit pages upperLimit (drop_bit 22 lowerLimit)
       (drop_bit 12 lowerLimit mod VM_PAGETABLE_LENGTH) 0 0) (\<lambda>(foundPages, regionStart).
     v_return (if foundPages \<ge> pages \<and> regionStart + pages * VM_PAGE_SIZE \<le> upperLimit then regionStart else 0)))))"

definition dir_mapped :: "u32 \<Rightarrow> u32 \<Rightarrow> bool vmop" where
  "dir_mapped directory t = v_bind (v_load (directory + 4 * t)) (\<lambda>entry. v_return (present entry))"

definition table_free :: "u32 \<Rightarrow> u32 \<Rightarrow> bool vmop" where
  "table_free table i = v_bind (v_load (table + 4 * i)) (\<lambda>entry. v_return (\<not> present entry))"

definition vm0_findFreePages_kernel :: "u32 \<Rightarrow> u32 \<Rightarrow> u32 \<Rightarrow> u32 vmop" where
  "vm0_findFreePages_kernel =
     find_pages (dir_mapped kdir) (\<lambda>t f. f (table_free (VM_KERNEL_PAGE_TABLES + push_bit 12 t)))"

section \<open>Mapping pages\<close>

text \<open>
  \<^verbatim>\<open>__vm_mapPage__noLock\<close> for the directory of the kernel, which does not call itself, and for any directory:
  for another one, whose address is that of a mapping in the kernel, the page table is mapped into the
  kernel around the access.
\<close>

definition map_asserts :: "u32 \<Rightarrow> u32 \<Rightarrow> u32 \<Rightarrow> unit vmop" where
  "map_asserts paddress vaddress vmflags =
     v_bind (v_assert (vaddress > 0)) (\<lambda>_.
     v_bind (v_assert (paddress > 0 \<or> vmflags = 0)) (\<lambda>_.
     v_bind (v_assert (vaddress mod VM_PAGE_SIZE = 0)) (\<lambda>_.
     v_assert (paddress mod VM_PAGE_SIZE = 0))))"

definition vm0_mapPage_kernel :: "u32 \<Rightarrow> u32 \<Rightarrow> u32 \<Rightarrow> unit vmop" where
  "vm0_mapPage_kernel paddress vaddress vmflags =
     v_bind (map_asserts paddress vaddress vmflags) (\<lambda>_.
     let index = vaddress div VM_PAGE_SIZE; slot = kdir + 4 * (index div VM_DIRECTORY_LENGTH);
         window = VM_KERNEL_PAGE_TABLES + (4 * index AND NOT 0xFFF) in
     v_bind (v_load slot) (\<lambda>table.
     v_bind v_paging (\<lambda>paging.
     v_bind
       (if \<not> present table then
          v_bind (v_pm_alloc 1) (\<lambda>pageTable.
          v_bind (v_store slot (pageTable OR VM_FLAGS_USERLAND)) (\<lambda>_.
          let pageTable = (if paging then window else pageTable) in
          v_bind (v_clear pageTable 256) (\<lambda>_. v_return pageTable)))
        else v_return (if paging then window else base_of table)) (\<lambda>pageTable.
     v_store (pageTable + 4 * (index mod VM_PAGETABLE_LENGTH)) (paddress OR vmflags)))))"

definition vm0_mapPage :: "u32 \<Rightarrow> u32 \<Rightarrow> u32 \<Rightarrow> u32 \<Rightarrow> unit vmop" where
  "vm0_mapPage directory paddress vaddress vmflags =
     (if directory = kdir then vm0_mapPage_kernel paddress vaddress vmflags
      else
        v_bind (map_asserts paddress vaddress vmflags) (\<lambda>_.
        let index = vaddress div VM_PAGE_SIZE; slot = directory + 4 * (index div VM_DIRECTORY_LENGTH) in
        v_bind (v_load slot) (\<lambda>table.
        v_bind
          (if \<not> present table then
             v_bind (v_pm_alloc 1) (\<lambda>pageTable.
             v_bind (v_store slot (pageTable OR VM_FLAGS_USERLAND)) (\<lambda>_.
             v_bind (vm0_findFreePages_kernel 1 VM_LOWER_LIMIT VM_UPPER_LIMIT) (\<lambda>kernelPage.
             v_bind (vm0_mapPage_kernel pageTable kernelPage VM_FLAGS_KERNEL) (\<lambda>_.
             v_bind (v_clear kernelPage 256) (\<lambda>_. v_return kernelPage)))))
           else
             v_bind (vm0_findFreePages_kernel 1 VM_LOWER_LIMIT VM_UPPER_LIMIT) (\<lambda>kernelPage.
             v_bind (vm0_mapPage_kernel (base_of table) kernelPage VM_FLAGS_KERNEL) (\<lambda>_. v_return kernelPage))) (\<lambda>kernelPage.
        v_bind (v_store (kernelPage + 4 * (index mod VM_PAGETABLE_LENGTH)) (paddress OR vmflags)) (\<lambda>_.
        vm0_mapPage_kernel 0 kernelPage 0)))))"

fun map_range :: "u32 \<Rightarrow> u32 \<Rightarrow> u32 \<Rightarrow> nat \<Rightarrow> u32 \<Rightarrow> unit vmop" where
  "map_range directory paddress vaddress 0 vmflags = v_return ()"
| "map_range directory paddress vaddress (Suc n) vmflags =
     v_bind (vm0_mapPage directory paddress vaddress vmflags) (\<lambda>_.
     map_range directory (paddress + VM_PAGE_SIZE) (vaddress + VM_PAGE_SIZE) n vmflags)"

definition vm0_mapPageRange :: "u32 \<Rightarrow> u32 \<Rightarrow> u32 \<Rightarrow> u32 \<Rightarrow> u32 \<Rightarrow> unit vmop" where
  "vm0_mapPageRange directory paddress vaddress pages vmflags = map_range directory paddress vaddress (unat pages) vmflags"

text \<open>\<^verbatim>\<open>__vm_alloc_noLock\<close> for the directory of the kernel, with which it and the searches map a table or directory.\<close>

definition vm0_alloc_kernel :: "u32 \<Rightarrow> u32 \<Rightarrow> u32 \<Rightarrow> u32 vmop" where
  "vm0_alloc_kernel paddress pages vmflags =
     v_bind (vm0_findFreePages_kernel pages VM_LOWER_LIMIT VM_UPPER_LIMIT) (\<lambda>vaddress.
     v_bind (if vaddress \<noteq> 0 then vm0_mapPageRange kdir paddress vaddress pages vmflags else v_return ()) (\<lambda>_.
     v_return vaddress))"

definition vm0_findFreePages_user :: "u32 \<Rightarrow> u32 \<Rightarrow> u32 \<Rightarrow> u32 \<Rightarrow> u32 vmop" where
  "vm0_findFreePages_user directory =
     find_pages (dir_mapped directory)
       (\<lambda>t f. v_bind (v_load (directory + 4 * t)) (\<lambda>entry.
          v_bind (vm0_alloc_kernel (base_of entry) 1 VM_FLAGS_KERNEL) (\<lambda>table.
          v_bind (f (table_free table)) (\<lambda>r.
          v_bind (vm0_mapPage_kernel 0 table 0) (\<lambda>_. v_return r)))))"

text \<open>A table that is not mapped is the null pointer, and its pages are free.\<close>

definition both_free :: "u32 \<Rightarrow> u32 \<Rightarrow> u32 \<Rightarrow> bool vmop" where
  "both_free utable ktable i =
     v_bind (if utable \<noteq> 0 then table_free utable i else v_return True) (\<lambda>ufree.
     v_bind (if ktable \<noteq> 0 then table_free ktable i else v_return True) (\<lambda>kfree.
     v_return (ufree \<and> kfree)))"

definition vm0_findFreePagesTwoSided :: "u32 \<Rightarrow> u32 \<Rightarrow> u32 \<Rightarrow> u32 \<Rightarrow> u32 vmop" where
  "vm0_findFreePagesTwoSided directory =
     find_pages
       (\<lambda>t. v_bind (dir_mapped directory t) (\<lambda>u. if u then v_return True else dir_mapped kdir t))
       (\<lambda>t f. v_bind (v_load (directory + 4 * t)) (\<lambda>entry.
          v_bind (if present entry then vm0_alloc_kernel (base_of entry) 1 VM_FLAGS_KERNEL else v_return 0) (\<lambda>utable.
          v_bind (dir_mapped kdir t) (\<lambda>k.
          v_bind (f (both_free utable (if k then VM_KERNEL_PAGE_TABLES + push_bit 12 t else 0))) (\<lambda>r.
          v_bind (if utable \<noteq> 0 then vm0_mapPage_kernel 0 utable 0 else v_return ()) (\<lambda>_. v_return r))))))"

definition vm0_findFreePages :: "u32 \<Rightarrow> u32 \<Rightarrow> u32 \<Rightarrow> u32 \<Rightarrow> u32 vmop" where
  "vm0_findFreePages directory pages lowerLimit upperLimit =
     (if directory = kdir then vm0_findFreePages_kernel pages lowerLimit upperLimit
      else vm0_findFreePages_user directory pages lowerLimit upperLimit)"

definition vm0_alloc :: "u32 \<Rightarrow> u32 \<Rightarrow> u32 \<Rightarrow> u32 \<Rightarrow> u32 vmop" where
  "vm0_alloc pdirectory paddress pages vmflags =
     (if pdirectory = kdir then vm0_alloc_kernel paddress pages vmflags
      else
        v_bind (vm0_alloc_kernel pdirectory 1 VM_FLAGS_KERNEL) (\<lambda>pdirectory.
        v_bind (vm0_findFreePages_user pdirectory pages VM_LOWER_LIMIT VM_UPPER_LIMIT) (\<lambda>vaddress.
        v_bind (if vaddress \<noteq> 0 then vm0_mapPageRange pdirectory paddress vaddress pages vmflags else v_return ()) (\<lambda>_.
        v_bind (vm0_mapPage_kernel 0 pdirectory 0) (\<lambda>_. v_return vaddress)))))"

definition vm0_getPagetableEntry :: "u32 \<Rightarrow> u32 \<Rightarrow> u32 vmop" where
  "vm0_getPagetableEntry directory vaddress =
     (let index = vaddress div VM_PAGE_SIZE in
      v_bind (v_load (directory + 4 * (index div VM_PAGETABLE_LENGTH))) (\<lambda>table.
      if \<not> present table then v_return 0
      else
        v_bind (vm0_alloc_kernel (base_of table) 1 VM_FLAGS_KERNEL) (\<lambda>pageTable.
        v_bind (v_load (pageTable + 4 * (index mod VM_PAGETABLE_LENGTH))) (\<lambda>entry.
        v_bind (vm0_mapPage_kernel 0 pageTable 0) (\<lambda>_.
        v_return (if present entry then entry else 0))))))"

section \<open>The interface\<close>

text \<open>
  Functions get the physical address of a directory, map a directory other than that of the kernel into
  the kernel, work on it, and unmap it again.
\<close>

definition with_dir :: "u32 \<Rightarrow> (u32 \<Rightarrow> 'a vmop) \<Rightarrow> 'a vmop" where
  "with_dir pdirectory f =
     (if pdirectory = kdir then f kdir
      else
        v_bind (vm0_alloc_kernel pdirectory 1 VM_FLAGS_KERNEL) (\<lambda>directory.
        v_bind (f directory) (\<lambda>r.
        v_bind (vm0_mapPage_kernel 0 directory 0) (\<lambda>_. v_return r))))"

definition vm_mapPage_noLock :: "u32 \<Rightarrow> u32 \<Rightarrow> u32 \<Rightarrow> u32 \<Rightarrow> unit vmop" where
  "vm_mapPage_noLock pdirectory paddress vaddress vmflags =
     with_dir pdirectory (\<lambda>directory. vm0_mapPage directory paddress vaddress vmflags)"

definition vm_mapPageRange_noLock :: "u32 \<Rightarrow> u32 \<Rightarrow> u32 \<Rightarrow> u32 \<Rightarrow> u32 \<Rightarrow> unit vmop" where
  "vm_mapPageRange_noLock pdirectory paddress vaddress pages vmflags =
     with_dir pdirectory (\<lambda>directory. vm0_mapPageRange directory paddress vaddress pages vmflags)"

definition locked :: "'a vmop \<Rightarrow> 'a vmop" where
  "locked f = v_bind vm_lock (\<lambda>_. v_bind f (\<lambda>r. v_bind vm_unlock (\<lambda>_. v_return r)))"

definition vm_mapPage :: "u32 \<Rightarrow> u32 \<Rightarrow> u32 \<Rightarrow> u32 \<Rightarrow> unit vmop" where
  "vm_mapPage pdirectory paddress vaddress vmflags = locked (vm_mapPage_noLock pdirectory paddress vaddress vmflags)"

definition vm_mapPageRange :: "u32 \<Rightarrow> u32 \<Rightarrow> u32 \<Rightarrow> u32 \<Rightarrow> u32 \<Rightarrow> unit vmop" where
  "vm_mapPageRange pdirectory paddress vaddress pages vmflags =
     locked (vm_mapPageRange_noLock pdirectory paddress vaddress pages vmflags)"

text \<open>The lower limit is raised to the upper limit of all addresses.\<close>

definition vm_findFreePages_noLock :: "u32 \<Rightarrow> u32 \<Rightarrow> u32 \<Rightarrow> u32 \<Rightarrow> u32 vmop" where
  "vm_findFreePages_noLock pdirectory pages lowerLimit upperLimit =
     with_dir pdirectory (\<lambda>directory.
       let lowerLimit = (if lowerLimit < VM_UPPER_LIMIT then VM_UPPER_LIMIT else lowerLimit) in
       if directory = kdir then vm0_findFreePages_kernel pages lowerLimit upperLimit
       else vm0_findFreePages_user directory pages lowerLimit upperLimit)"

text \<open>\<^verbatim>\<open>vm_alloc\<close> and \<^verbatim>\<open>vm_allocLimit\<close>, first for the directory of the kernel, to which they map another directory.\<close>

definition allocLimit_in :: "u32 \<Rightarrow> u32 \<Rightarrow> u32 \<Rightarrow> u32 \<Rightarrow> u32 \<Rightarrow> u32 \<Rightarrow> u32 vmop" where
  "allocLimit_in directory paddress pages limit upperLimit vmflags =
     v_bind (vm0_findFreePages directory pages limit upperLimit) (\<lambda>vaddress.
     v_bind (if vaddress \<noteq> 0 then vm0_mapPageRange directory paddress vaddress pages vmflags else v_return ()) (\<lambda>_.
     v_return vaddress))"

definition vm_alloc_kernel :: "u32 \<Rightarrow> u32 \<Rightarrow> u32 \<Rightarrow> u32 vmop" where
  "vm_alloc_kernel paddress pages vmflags = locked (allocLimit_in kdir paddress pages VM_LOWER_LIMIT VM_UPPER_LIMIT vmflags)"

definition vm_allocLimit :: "u32 \<Rightarrow> u32 \<Rightarrow> u32 \<Rightarrow> u32 \<Rightarrow> u32 \<Rightarrow> u32 \<Rightarrow> u32 vmop" where
  "vm_allocLimit pdirectory paddress pages limit upperLimit vmflags =
     v_bind (if pdirectory = kdir then v_return kdir else vm_alloc_kernel pdirectory 1 VM_FLAGS_KERNEL) (\<lambda>directory.
     locked (
       v_bind (allocLimit_in directory paddress pages limit upperLimit vmflags) (\<lambda>vaddress.
       v_bind (if pdirectory = kdir then v_return () else vm0_mapPage_kernel 0 directory 0) (\<lambda>_.
       v_return vaddress))))"

definition vm_alloc :: "u32 \<Rightarrow> u32 \<Rightarrow> u32 \<Rightarrow> u32 \<Rightarrow> u32 vmop" where
  "vm_alloc pdirectory paddress pages vmflags = vm_allocLimit pdirectory paddress pages VM_LOWER_LIMIT VM_UPPER_LIMIT vmflags"

definition vm_allocTwoSidedLimit :: "u32 \<Rightarrow> u32 \<Rightarrow> u32 \<Rightarrow> u32 \<Rightarrow> u32 \<Rightarrow> u32 \<Rightarrow> u32 vmop" where
  "vm_allocTwoSidedLimit pdirectory paddress pages limit upperLimit vmflags =
     v_bind (v_assert (pdirectory \<noteq> kdir)) (\<lambda>_.
     v_bind (vm_alloc kdir pdirectory 1 VM_FLAGS_KERNEL) (\<lambda>directory.
     locked (
       v_bind (vm0_findFreePagesTwoSided directory pages limit upperLimit) (\<lambda>vaddress.
       v_bind (vm0_mapPageRange kdir paddress vaddress pages vmflags) (\<lambda>_.
       v_bind (vm0_mapPageRange directory paddress vaddress pages vmflags) (\<lambda>_.
       v_bind (vm0_mapPage_kernel 0 directory 0) (\<lambda>_.
       v_return vaddress)))))))"

fun unmap_range :: "u32 \<Rightarrow> u32 \<Rightarrow> nat \<Rightarrow> unit vmop" where
  "unmap_range directory vaddress 0 = v_return ()"
| "unmap_range directory vaddress (Suc n) =
     v_bind (vm0_mapPage directory 0 vaddress 0) (\<lambda>_. unmap_range directory (vaddress + VM_PAGE_SIZE) n)"

definition vm_free :: "u32 \<Rightarrow> u32 \<Rightarrow> u32 \<Rightarrow> unit vmop" where
  "vm_free pdirectory vaddress pages =
     v_bind (if pdirectory = kdir then v_return kdir else vm_alloc kdir pdirectory 1 VM_FLAGS_KERNEL) (\<lambda>directory.
     locked (
       v_bind (unmap_range directory vaddress (unat pages)) (\<lambda>_.
       if pdirectory = kdir then v_return () else vm0_mapPage_kernel 0 directory 0)))"

definition vm_resolveVirtualAddress :: "u32 \<Rightarrow> u32 \<Rightarrow> u32 vmop" where
  "vm_resolveVirtualAddress pdirectory vaddress =
     v_bind (if pdirectory = kdir then v_return kdir else vm_alloc kdir pdirectory 1 VM_FLAGS_KERNEL) (\<lambda>directory.
     locked (
       v_bind (vm0_getPagetableEntry directory vaddress) (\<lambda>entry.
       v_bind (if pdirectory = kdir then v_return () else vm0_mapPage_kernel 0 directory 0) (\<lambda>_.
       v_return (if \<not> present entry then 0 else (entry AND NOT 0xFFF) OR (vaddress AND 0xFFF))))))"

definition vm_createDirectory :: "u32 vmop" where
  "vm_createDirectory =
     v_bind (v_pm_alloc 1) (\<lambda>physPageDir.
     v_bind (vm_alloc kdir physPageDir 1 VM_FLAGS_KERNEL) (\<lambda>directory.
     v_bind (v_clear directory 1024) (\<lambda>_.
     v_bind (v_store (directory + 4 * 0xFF) (physPageDir OR VM_FLAGS_KERNEL)) (\<lambda>_.
     v_bind (vm0_mapPageRange directory IR_TRAMPOLINE_PHYSICAL IR_TRAMPOLINE_BEGIN IR_TRAMPOLINE_PAGES VM_FLAGS_KERNEL) (\<lambda>_.
     v_bind (vm_free kdir directory 1) (\<lambda>_.
     v_return physPageDir))))))"

fun free_tables :: "u32 \<Rightarrow> nat \<Rightarrow> unit vmop" where
  "free_tables a 0 = v_return ()"
| "free_tables a (Suc n) =
     v_bind (v_load a) (\<lambda>entry.
     let table = entry AND NOT VM_PAGETABLEFLAG_ALL in
     v_bind (if table \<noteq> 0 then v_pm_free table 1 else v_return ()) (\<lambda>_. free_tables (a + 4) n))"

definition vm_deleteDirectory :: "u32 \<Rightarrow> unit vmop" where
  "vm_deleteDirectory directory =
     v_bind (vm_alloc kdir directory 1 VM_FLAGS_KERNEL) (\<lambda>mapped.
     v_bind (free_tables mapped 1024) (\<lambda>_.
     v_bind (vm_free kdir mapped 1) (\<lambda>_. v_pm_free directory 1)))"

section \<open>Direct memory access\<close>

definition kDMARequestFlagContiguous :: u32 where "kDMARequestFlagContiguous = 1"

definition kDMAMaxPhysicalFragments :: nat where "kDMAMaxPhysicalFragments = 32"

text \<open>The fragments are the used part of the two arrays: addresses with their numbers of pages.\<close>

record dma_t =
  pfragments :: "(u32 \<times> u32) list"
  dma_pages :: u32
  dma_vaddress :: u32

fun map_fragments :: "(u32 \<times> u32) list \<Rightarrow> u32 \<Rightarrow> u32 vmop" where
  "map_fragments [] address = v_return address"
| "map_fragments ((p, n) # fs) address =
     v_bind (vm0_mapPageRange kdir p address n VM_FLAGS_KERNEL) (\<lambda>_. map_fragments fs (address + VM_PAGE_SIZE * n))"

definition vm_fulfillDMARequest :: "dma_t \<Rightarrow> (bool \<times> dma_t) vmop" where
  "vm_fulfillDMARequest dma =
     locked (
       v_bind (vm0_findFreePages_kernel (dma_pages dma) VM_LOWER_LIMIT VM_UPPER_LIMIT) (\<lambda>address.
       if address \<noteq> 0 then
         v_bind (map_fragments (pfragments dma) address) (\<lambda>address'.
         v_return (address' \<noteq> 0, dma\<lparr>dma_vaddress := address\<rparr>))
       else v_return (False, dma)))"

fun free_fragments :: "(u32 \<times> u32) list \<Rightarrow> unit vmop" where
  "free_fragments [] = v_return ()"
| "free_fragments ((p, n) # fs) = v_bind (v_pm_free p n) (\<lambda>_. free_fragments fs)"

definition dma_free :: "dma_t \<Rightarrow> unit vmop" where
  "dma_free dma =
     v_bind (free_fragments (pfragments dma)) (\<lambda>_.
     if dma_vaddress dma \<noteq> 0 then vm_free kdir (dma_vaddress dma) (dma_pages dma) else v_return ())"

text \<open>
  The loop that collects fragments: \<^verbatim>\<open>npages\<close> is set to \<^verbatim>\<open>pagesLeft\<close> in every pass, so halving it has no effect,
  and \<^verbatim>\<open>pagesLeft\<close> is never changed. \<open>None\<close> is the failed allocation of a single page; the fuel counts passes.
\<close>

fun dma_fragments :: "nat \<Rightarrow> u32 \<Rightarrow> dma_t \<Rightarrow> dma_t option vmop" where
  "dma_fragments 0 pagesLeft dma = (\<lambda>_. Inl Diverges)"
| "dma_fragments (Suc fuel) pagesLeft dma =
     (if pagesLeft > 0 \<and> length (pfragments dma) < kDMAMaxPhysicalFragments then
        (let npages = pagesLeft in
         v_bind (v_pm_alloc npages) (\<lambda>pmemory.
         if pmemory = 0 then
           (if npages = 1 then v_bind (dma_free dma) (\<lambda>_. v_return None) else dma_fragments fuel pagesLeft dma)
         else dma_fragments fuel pagesLeft (dma\<lparr>pfragments := pfragments dma @ [(pmemory, npages)]\<rparr>)))
      else v_return (Some dma))"

text \<open>\<open>dma\<close> is the result of allocating the structure; \<open>None\<close> stands for the null pointer.\<close>

definition dma_request :: "nat \<Rightarrow> bool \<Rightarrow> u32 \<Rightarrow> u32 \<Rightarrow> dma_t option vmop" where
  "dma_request fuel dma pages dmaflags =
     (if \<not> dma then v_return None
      else
        (let d = \<lparr>pfragments = [], dma_pages = pages, dma_vaddress = 0\<rparr> in
         v_bind
           (if dmaflags AND kDMARequestFlagContiguous \<noteq> 0 \<or> pages = 1 then
              v_bind (v_pm_alloc pages) (\<lambda>pmemory.
              v_return (if pmemory = 0 then None else Some (d\<lparr>pfragments := [(pmemory, pages)]\<rparr>)))
            else dma_fragments fuel pages d) (\<lambda>r.
         case r of
           None \<Rightarrow> v_return None
         | Some d \<Rightarrow>
             v_bind (vm_fulfillDMARequest d) (\<lambda>(result, d).
             if result then v_return (Some d) else v_bind (dma_free d) (\<lambda>_. v_return None)))))"

section \<open>Initialization\<close>

definition vm_createKernelContext :: "unit vmop" where
  "vm_createKernelContext =
     v_bind (v_clear kdir 256) (\<lambda>_.
     v_bind (v_store (kdir + 4 * 0xFF) (kdir OR VM_FLAGS_KERNEL)) (\<lambda>_.
     vm0_mapPage kdir kdir kdir VM_FLAGS_KERNEL))"

definition vm_mapMultibootModule :: "boot_memory \<Rightarrow> multiboot_module_s \<Rightarrow> unit vmop" where
  "vm_mapMultibootModule mem module =
     (let start = VM_PAGE_ALIGN_DOWN (mod_start module);
          end = VM_PAGE_ALIGN_UP (mod_end module);
          name = VM_PAGE_ALIGN_DOWN (mod_name module) in
      v_bind (vm0_mapPageRange kdir start start (VM_PAGE_COUNT (end - start)) VM_FLAGS_KERNEL) (\<lambda>_.
      vm0_mapPageRange kdir name name (VM_PAGE_COUNT (strlen_at mem name)) VM_FLAGS_KERNEL))"

primrec vm_mapModules :: "boot_memory \<Rightarrow> nat \<Rightarrow> ptr \<Rightarrow> unit vmop" where
  "vm_mapModules mem 0 module = v_return ()"
| "vm_mapModules mem (Suc n) module =
     v_bind (vm_mapMultibootModule mem (module_at mem module)) (\<lambda>_. vm_mapModules mem n (module + 16))"

text \<open>A drive of size 0 is mapped forever, hence the fuel.\<close>

fun vm_mapDrives :: "nat \<Rightarrow> boot_memory \<Rightarrow> ptr \<Rightarrow> ptr \<Rightarrow> unit vmop" where
  "vm_mapDrives 0 mem drivesPtr drivesEnd = (\<lambda>_. Inl Diverges)"
| "vm_mapDrives (Suc fuel) mem drivesPtr drivesEnd =
     (if drivesPtr < drivesEnd then
        v_bind (vm0_mapPageRange kdir drivesPtr drivesPtr (VM_PAGE_COUNT (drive_size_at mem drivesPtr)) VM_FLAGS_KERNEL) (\<lambda>_.
        vm_mapDrives fuel mem (drivesPtr + drive_size_at mem drivesPtr) drivesEnd)
      else v_return ())"

definition map_same :: "u32 \<Rightarrow> unit vmop" where
  "map_same a = vm0_mapPage kdir (VM_PAGE_ALIGN_DOWN a) (VM_PAGE_ALIGN_DOWN a) VM_FLAGS_KERNEL"

definition v_when :: "bool \<Rightarrow> unit vmop \<Rightarrow> unit vmop" where
  "v_when b f = (if b then f else v_return ())"

definition vm_mapMultiboot :: "nat \<Rightarrow> boot_memory \<Rightarrow> ptr \<Rightarrow> multiboot_s \<Rightarrow> unit vmop" where
  "vm_mapMultiboot fuel mem infoPtr info =
     v_bind (map_same infoPtr) (\<lambda>_.
     v_bind (v_when (flags info AND kMultibootFlagCommandLine \<noteq> 0) (map_same (cmdline info))) (\<lambda>_.
     v_bind (v_when (flags info AND kMultibootFlagModules \<noteq> 0)
       (vm_mapModules mem (unat (mods_count info)) (mods_addr info))) (\<lambda>_.
     v_bind (v_when (flags info AND kMultibootFlagDrives \<noteq> 0)
       (vm_mapDrives fuel mem (drives_addr info) (drives_addr info + drives_length info))) (\<lambda>_.
     v_when (flags info AND kMultibootFlagBootLoader \<noteq> 0) (map_same (boot_loader_name info))))))"

text \<open>The number of pages of the stack is the number of its bytes.\<close>

definition vm_init :: "nat \<Rightarrow> linker_symbols \<Rightarrow> boot_memory \<Rightarrow> ptr \<Rightarrow> multiboot_s \<Rightarrow> bool vmop" where
  "vm_init fuel ld mem infoPtr info =
     v_bind (\<lambda>st. Inr ((), st\<lparr>vm_paging := False\<rparr>)) (\<lambda>_.
     v_bind vm_createKernelContext (\<lambda>_.
     v_bind (vm0_mapPageRange kdir (kernelBegin ld) (kernelBegin ld) (VM_PAGE_COUNT (kernelEnd ld - kernelBegin ld)) VM_FLAGS_KERNEL) (\<lambda>_.
     v_bind (vm0_mapPageRange kdir 0xB8000 0xB8000 1 VM_FLAGS_KERNEL) (\<lambda>_.
     let stackBottom = VM_PAGE_ALIGN_DOWN (stack_bottom ld); stackTop = VM_PAGE_ALIGN_UP (stack_top ld) in
     v_bind (vm0_mapPageRange kdir stackBottom stackBottom (stackTop - stackBottom) VM_FLAGS_KERNEL) (\<lambda>_.
     v_bind (vm_mapMultiboot fuel mem infoPtr info) (\<lambda>_.
     v_bind (\<lambda>st. Inr ((), st\<lparr>vm_paging := True\<rparr>)) (\<lambda>_. v_return True)))))))"

end
