(* ===== verification/VMKernel.thy ===== *)
theory VMKernel
  imports VMemory
begin

text \<open>
  The address space of the kernel: reading and writing the tables through the self-map, mapping and
  unmapping single pages, the search for free pages as a first-fit search over pages, and what
  \<^verbatim>\<open>vm_alloc\<close> and \<^verbatim>\<open>vm_free\<close> do to the translation of all addresses.
\<close>

section \<open>Words\<close>

lemma mask_12: "(0xFFF :: u32) = mask 12"
  by (simp add: mask_eq_exp_minus_1)

lemma base_of_bit: "bit (base_of x) n \<longleftrightarrow> 12 \<le> n \<and> bit x n"
  unfolding base_of_def mask_12 by (auto simp: bit_simps dest: bit_imp_le_length)

lemma base_of_div: "base_of x = x div 4096 * 4096"
proof -
  have "base_of x = push_bit 12 (drop_bit 12 x)"
    by (rule bit_eqI) (auto simp: base_of_bit bit_push_bit_iff bit_drop_bit_eq)
  then show ?thesis by (simp add: drop_bit_eq_div push_bit_eq_mult)
qed

lemma base_of_unat: "unat (base_of x) = unat x div 4096 * 4096"
proof -
  have "unat x div 4096 * 4096 < 4294967296" using unat_u32_less[of x] by linarith
  then show ?thesis by (simp add: base_of_div unat_word_ariths unat_div)
qed

lemma base_of_aligned [simp]: "base_of x mod 4096 = 0"
  by (rule unat_eq_zero[THEN iffD1]) (simp add: unat_mod base_of_unat)

lemma aligned_unat: "x mod 4096 = 0 \<longleftrightarrow> unat x mod 4096 = 0" for x :: u32
  by (simp add: unat_eq_zero[symmetric] unat_mod)

lemma base_of_id: "x mod 4096 = 0 \<Longrightarrow> base_of x = x"
  by (rule word_unat_eq_iff[THEN iffD2]) (auto simp: base_of_unat aligned_unat)

lemma aligned_bit: "x mod 4096 = 0 \<Longrightarrow> bit x n \<Longrightarrow> 12 \<le> n" for x :: u32
  using base_of_bit[of x n] by (simp add: base_of_id)

lemma small_bit: "f < 4096 \<Longrightarrow> bit f n \<Longrightarrow> n < 12" for f :: u32
proof -
  assume "f < 4096" "bit f n"
  then have "take_bit 12 f = f" by (simp add: take_bit_eq_mod mod_word_less)
  then show ?thesis using \<open>bit f n\<close> by (metis bit_take_bit_iff)
qed

lemma present_bit: "present x \<longleftrightarrow> bit x 0"
  by (simp add: present_def VM_PAGETABLEFLAG_PRESENT_def and_one_eq bit_0 odd_iff_mod_2_eq_one)

lemma entry_or:
  assumes "p mod 4096 = 0" "f < 4096"
  shows "base_of (p OR f) = p" "present (p OR f) = present f"
proof -
  show "base_of (p OR f) = p"
    by (rule bit_eqI) (use aligned_bit[OF assms(1)] small_bit[OF assms(2)] in \<open>force simp: base_of_bit bit_or_iff\<close>)
  have "\<not> bit p 0" using aligned_bit[OF assms(1), of 0] by auto
  then show "present (p OR f) = present f"
    by (simp add: present_bit bit_or_iff)
qed

text \<open>The word \<open>i\<close> of the page at \<open>b\<close>.\<close>

lemma alignedE:
  assumes "b mod 4096 = (0 :: u32)"
  obtains q where "unat b = 4096 * q" "q < 1048576"
proof -
  obtain q where "unat b = 4096 * q" using assms by (auto simp: aligned_unat mod_eq_0_iff_dvd)
  moreover have "q < 1048576" using calculation unat_u32_less[of b] by linarith
  ultimately show thesis by (rule that)
qed

lemma slot_unat:
  assumes "b mod 4096 = 0" "i < 1024"
  shows "unat (b + 4 * i) = unat b + 4 * unat (i :: u32)"
proof -
  obtain q where q: "unat b = 4096 * q" "q < 1048576" using alignedE[OF assms(1)] by blast
  have i: "unat i < 1024" using assms(2) by (simp add: word_less_nat_alt)
  then have "unat (4 * i) = 4 * unat i" by (simp add: unat_word_ariths)
  moreover have "unat b + 4 * unat i < 4294967296" using q i by linarith
  ultimately show ?thesis by (simp add: unat_add_no_wrap)
qed

lemma nat_slot_inj:
  assumes "4096 * q + 4 * i = 4096 * q' + 4 * i'" "i < 1024" "i' < 1024"
  shows "q = q' \<and> i = (i' :: nat)"
proof -
  have "q = (4096 * q + 4 * i) div 4096" using assms(2) by simp
  also have "... = (4096 * q' + 4 * i') div 4096" using assms(1) by simp
  also have "... = q'" using assms(3) by simp
  finally show ?thesis using assms(1) by simp
qed

lemma slot_inj:
  assumes "b mod 4096 = 0" "b' mod 4096 = 0" "i < 1024" "i' < (1024 :: u32)"
  shows "b + 4 * i = b' + 4 * i' \<longleftrightarrow> b = b' \<and> i = i'"
proof
  assume "b + 4 * i = b' + 4 * i'"
  then have e: "unat b + 4 * unat i = unat b' + 4 * unat i'" using slot_unat assms by metis
  obtain q q' where q: "unat b = 4096 * q" "unat b' = 4096 * q'" using alignedE assms(1,2) by metis
  have "unat i < 1024" "unat i' < 1024" using assms by (auto simp: word_less_nat_alt)
  then have "q = q' \<and> unat i = unat i'" using nat_slot_inj e q by metis
  then show "b = b' \<and> i = i'" using q by (metis word_unat_eq_iff)
qed simp

lemma index_unat: "unat (dir_index va) = unat va div 4096 div 1024" "unat (table_index va) = unat va div 4096 mod 1024"
  by (simp_all add: dir_index_def table_index_def unat_div unat_mod)

lemma index_less [simp]: "dir_index va < 1024" "table_index va < 1024"
  using unat_u32_less[of va] by (simp_all add: word_less_nat_alt index_unat)

lemma slot_indices:
  assumes "b mod 4096 = 0" "i < 1024"
  shows "dir_index (b + 4 * i) = dir_index b" "table_index (b + 4 * i) = table_index b" "(b + 4 * i) mod 4096 = 4 * i"
proof -
  obtain q where q: "unat b = 4096 * q" using alignedE[OF assms(1)] by blast
  have u: "unat i < 1024" "unat (b + 4 * i) = 4096 * q + 4 * unat i"
    using assms slot_unat q by (auto simp: word_less_nat_alt)
  have d: "(4096 * q + 4 * unat i) div 4096 = q" "(4096 * q + 4 * unat i) mod 4096 = 4 * unat i" using u(1) by simp_all
  then show "dir_index (b + 4 * i) = dir_index b" "table_index (b + 4 * i) = table_index b"
    by (simp_all add: word_unat_eq_iff index_unat u(2) q)
  have "unat (4 * i) = 4 * unat i" using u(1) by (simp add: unat_word_ariths)
  then show "(b + 4 * i) mod 4096 = 4 * i" using d(2) by (simp add: word_unat_eq_iff unat_mod u(2))
qed

text \<open>The page of table \<open>t\<close> in the window through which the kernel sees its own tables.\<close>

definition window :: "u32 \<Rightarrow> u32" where
  "window t = VM_KERNEL_PAGE_TABLES + push_bit 12 t"

lemma unat_push_12: "unat t < 1048576 \<Longrightarrow> unat (push_bit 12 t :: u32) = 4096 * unat t"
  by (simp add: push_bit_eq_mult unat_word_ariths)

lemma window_page:
  assumes "t < 1024"
  shows "window t mod 4096 = 0" "dir_index (window t) = 255" "table_index (window t) = t"
proof -
  have t: "unat t < 1024" using assms by (simp add: word_less_nat_alt)
  then have u: "unat (window t) = 4096 * (255 * 1024 + unat t)"
    by (simp add: unat_add_no_wrap VM_KERNEL_PAGE_TABLES_def window_def unat_push_12)
  show "window t mod 4096 = 0" unfolding aligned_unat u by (rule mod_mult_self1_is_0)
  have "(255 * 1024 + unat t) div 1024 = 255" "(255 * 1024 + unat t) mod 1024 = unat t"
    using t by (simp, simp only: mod_mult_self3 mod_less)
  then show "dir_index (window t) = 255" "table_index (window t) = t"
    unfolding word_unat_eq_iff index_unat u by simp_all
qed

lemma window_index: "VM_KERNEL_PAGE_TABLES + (4 * (va div 4096) AND NOT 0xFFF) = window (dir_index va)" for va :: u32
proof -
  define k where "k = unat va div 4096"
  have k: "k < 1048576" using unat_u32_less[of va] unfolding k_def by linarith
  have "unat (4 * (va div 4096)) = 4 * k" using k unfolding k_def by (simp add: unat_word_ariths unat_div)
  moreover have "4 * k div 4096 = k div 1024" by simp
  ultimately have "unat (base_of (4 * (va div 4096))) = 4096 * (k div 1024)" by (simp only: base_of_unat mult.commute)
  moreover have "unat (push_bit 12 (dir_index va)) = 4096 * (k div 1024)"
    using k by (subst unat_push_12) (simp_all add: index_unat k_def)
  ultimately have "base_of (4 * (va div 4096)) = push_bit 12 (dir_index va)" by (simp only: word_unat_eq_iff)
  then show ?thesis by (simp only: base_of_def window_def)
qed

section \<open>The tables of the kernel\<close>

definition pde :: "vm_state \<Rightarrow> u32 \<Rightarrow> u32" where
  "pde st t = vm_mem st (kdir + 4 * t)"

text \<open>
  What \<^verbatim>\<open>vm_init\<close> establishes: the directory contains itself in entry 255 and is mapped at its own address, and
  the tables are different frames that are in use.
\<close>

definition kernel_space :: "vm_state \<Rightarrow> bool" where
  "kernel_space st \<longleftrightarrow> vm_paging st \<and> pde st 255 = kdir OR VM_FLAGS_KERNEL \<and> present (pde st 0) \<and>
     vm_mem st (base_of (pde st 0) + 4 * 1) = kdir OR VM_FLAGS_KERNEL \<and>
     (\<forall>t < 1024. t \<noteq> 255 \<longrightarrow> present (pde st t) \<longrightarrow>
        base_of (pde st t) \<noteq> kdir \<and> \<not> frame_free (vm_heap st) (frame_of (base_of (pde st t)))) \<and>
     \<not> frame_free (vm_heap st) (frame_of kdir) \<and>
     (\<forall>t < 1024. \<forall>t' < 1024. present (pde st t) \<longrightarrow> present (pde st t') \<longrightarrow> base_of (pde st t) = base_of (pde st t') \<longrightarrow> t = t')"

lemma kdir_self [simp]: "base_of (kdir OR VM_FLAGS_KERNEL) = kdir" "present (kdir OR VM_FLAGS_KERNEL)" "kdir mod 4096 = 0"
  using entry_or[of kdir VM_FLAGS_KERNEL] by (simp_all add: vm_consts present_bit bit_or_iff bit_0)

lemma kernel_spaceD:
  assumes "kernel_space st"
  shows "vm_paging st" "pde st 255 = kdir OR VM_FLAGS_KERNEL" "present (pde st 0)"
    "vm_mem st (base_of (pde st 0) + 4 * 1) = kdir OR VM_FLAGS_KERNEL"
    "t < 1024 \<Longrightarrow> t \<noteq> 255 \<Longrightarrow> present (pde st t) \<Longrightarrow> base_of (pde st t) \<noteq> kdir"
    "t < 1024 \<Longrightarrow> present (pde st t) \<Longrightarrow> \<not> frame_free (vm_heap st) (frame_of (base_of (pde st t)))"
    "t < 1024 \<Longrightarrow> t' < 1024 \<Longrightarrow> present (pde st t) \<Longrightarrow> present (pde st t') \<Longrightarrow>
       base_of (pde st t) = base_of (pde st t') \<longleftrightarrow> t = t'"
    "\<not> frame_free (vm_heap st) (frame_of kdir)"
proof -
  note k = assms[unfolded kernel_space_def]
  show "t < 1024 \<Longrightarrow> present (pde st t) \<Longrightarrow> \<not> frame_free (vm_heap st) (frame_of (base_of (pde st t)))"
    using k by (cases "t = 255") auto
qed (use assms[unfolded kernel_space_def] in blast)+

text \<open>The entry of page \<open>i\<close> in table \<open>t\<close> lies at this physical address.\<close>

definition entry_at :: "vm_state \<Rightarrow> u32 \<Rightarrow> u32 \<Rightarrow> u32" where
  "entry_at st t i = base_of (pde st t) + 4 * i"

lemma entry_of_pde: "entry_of (vm_mem st) kdir va =
   (if present (pde st (dir_index va)) then vm_mem st (entry_at st (dir_index va) (table_index va)) else 0)"
  by (simp add: entry_of_def pde_def entry_at_def Let_def)

lemma kdir_indices: "dir_index kdir = 0" "table_index kdir = 1"
  by (simp_all add: dir_index_def table_index_def VM_KERNEL_DIRECTORY_ADDRESS_def)

lemma walk_directory: "kernel_space st \<Longrightarrow> t < 1024 \<Longrightarrow> v_phys (kdir + 4 * t) st = Some (kdir + 4 * t)"
  using kernel_spaceD(1,3,4)[of st]
  by (simp add: v_phys_def walk_def Let_def entry_of_pde slot_indices kdir_indices entry_at_def)

lemma walk_window:
  "kernel_space st \<Longrightarrow> t < 1024 \<Longrightarrow> i < 1024 \<Longrightarrow> present (pde st t) \<Longrightarrow> v_phys (window t + 4 * i) st = Some (entry_at st t i)"
  using kernel_spaceD(1,2)[of st] window_page[of t]
  by (simp add: v_phys_def walk_def Let_def entry_of_pde slot_indices entry_at_def pde_def[symmetric])

lemma entry_at_inj:
  assumes "kernel_space st" "t < 1024" "t' < 1024" "i < 1024" "i' < 1024" "present (pde st t)" "present (pde st t')"
  shows "entry_at st t i = entry_at st t' i' \<longleftrightarrow> t = t' \<and> i = i'"
  using kernel_spaceD(7)[OF assms(1,2,3,6,7)] slot_inj[of "base_of (pde st t)" "base_of (pde st t')" i i'] assms(4,5)
  by (auto simp: entry_at_def)

lemma entry_at_directory:
  assumes "kernel_space st" "t < 1024" "t \<noteq> 255" "i < 1024" "t' < 1024" "present (pde st t)"
  shows "entry_at st t i \<noteq> kdir + 4 * t'"
  using kernel_spaceD(5)[OF assms(1-3,6)] slot_inj[of "base_of (pde st t)" kdir i t'] assms(4,5) by (simp add: entry_at_def)

text \<open>Writing an entry of a table leaves the directory and all other entries as they are.\<close>

definition put_entry :: "u32 \<Rightarrow> u32 \<Rightarrow> u32 \<Rightarrow> vm_state \<Rightarrow> vm_state" where
  "put_entry t i v st = st\<lparr>vm_mem := (vm_mem st)(entry_at st t i := v)\<rparr>"

lemma pde_put:
  assumes "kernel_space st" "t < 1024" "t \<noteq> 255" "i < 1024" "present (pde st t)" "t' < 1024"
  shows "pde (put_entry t i v st) t' = pde st t'"
  using entry_at_directory[OF assms(1-4,6,5)] by (auto simp: pde_def put_entry_def)

lemma put_entry_space:
  assumes "kernel_space st" "t < 1024" "t \<noteq> 255" "i < 1024" "present (pde st t)" "\<not> (t = 0 \<and> i = 1)"
  shows "kernel_space (put_entry t i v st)"
proof -
  note p = pde_put[OF assms(1-5), of _ v]
  have "vm_mem (put_entry t i v st) (base_of (pde st 0) + 4 * 1) = vm_mem st (base_of (pde st 0) + 4 * 1)"
    using entry_at_inj[OF assms(1,2) _ assms(4), of 0 1] assms(5,6) kernel_spaceD(3)[OF assms(1)]
    by (auto simp: put_entry_def entry_at_def)
  then show ?thesis using assms(1) p unfolding kernel_space_def by (simp add: put_entry_def)
qed

lemma entry_of_put:
  assumes "kernel_space st" "t < 1024" "t \<noteq> 255" "i < 1024" "present (pde st t)"
  shows "entry_of (vm_mem (put_entry t i v st)) kdir va =
    (if dir_index va = t \<and> table_index va = i then v else entry_of (vm_mem st) kdir va)"
proof -
  have "entry_at (put_entry t i v st) (dir_index va) (table_index va) = entry_at st (dir_index va) (table_index va)"
    by (simp add: entry_at_def pde_put[OF assms])
  moreover have "vm_mem (put_entry t i v st) a = (if a = entry_at st t i then v else vm_mem st a)" for a
    by (simp add: put_entry_def)
  ultimately show ?thesis
    unfolding entry_of_pde pde_put[OF assms index_less(1)]
    using entry_at_inj[OF assms(1) index_less(1) assms(2) index_less(2) assms(4) _ assms(5), of va va] assms(5) by auto
qed

section \<open>Mapping a page\<close>

lemma v_bind_simps [simp]:
  "v_bind (v_return x) f = f x" "v_bind (v_assert True) g = g ()" "v_return y st = Inr (y, st)"
  by (simp_all add: v_bind_def v_return_def v_assert_def fun_eq_iff)

lemma v_bind_Inr: "m st = Inr (x, st') \<Longrightarrow> v_bind m f st = f x st'"
  by (simp add: v_bind_def)

lemma map_asserts_ok:
  "vaddress \<noteq> 0 \<Longrightarrow> paddress \<noteq> 0 \<or> f = 0 \<Longrightarrow> vaddress mod 4096 = 0 \<Longrightarrow> paddress mod 4096 = 0 \<Longrightarrow>
   v_bind (map_asserts paddress vaddress f) g = g ()"
  by (auto simp: map_asserts_def VM_PAGE_SIZE_def word_gt_0 v_bind_def v_assert_def fun_eq_iff)

lemma load_directory: "kernel_space st \<Longrightarrow> t < 1024 \<Longrightarrow> v_load (kdir + 4 * t) st = Inr (pde st t, st)"
  by (simp add: v_load_def walk_directory pde_def)

lemma load_window:
  "kernel_space st \<Longrightarrow> t < 1024 \<Longrightarrow> i < 1024 \<Longrightarrow> present (pde st t) \<Longrightarrow>
   v_load (window t + 4 * i) st = Inr (vm_mem st (entry_at st t i), st)"
  by (simp add: v_load_def walk_window)

lemma store_window:
  "kernel_space st \<Longrightarrow> t < 1024 \<Longrightarrow> i < 1024 \<Longrightarrow> present (pde st t) \<Longrightarrow>
   v_store (window t + 4 * i) v st = Inr ((), put_entry t i v st)"
  by (simp add: v_store_def walk_window put_entry_def)

lemma index_defs: "va div VM_PAGE_SIZE div VM_DIRECTORY_LENGTH = dir_index va" "va div VM_PAGE_SIZE mod VM_PAGETABLE_LENGTH = table_index va"
  "VM_KERNEL_PAGE_TABLES + (4 * (va div VM_PAGE_SIZE) AND NOT 0xFFF) = window (dir_index va)"
  using window_index[of va] by (simp_all add: vm_consts dir_index_def table_index_def)

lemma v_paging_bind: "v_bind v_paging f st = f (vm_paging st) st"
  by (simp add: v_bind_def v_paging_def)

lemma mapPage_present:
  assumes "kernel_space st" "va \<noteq> 0" "p \<noteq> 0 \<or> f = 0" "va mod 4096 = 0" "p mod 4096 = 0" "present (pde st (dir_index va))"
  shows "vm0_mapPage_kernel p va f st = Inr ((), put_entry (dir_index va) (table_index va) (p OR f) st)"
  unfolding vm0_mapPage_kernel_def map_asserts_ok[OF assms(2-5)] Let_def index_defs
  using assms(1,6) kernel_spaceD(1)[OF assms(1)]
  by (simp add: v_bind_Inr[OF load_directory] v_paging_bind store_window)

lemma pm_alloc_1:
  assumes "pm_alloc heap 1 = (page, heap')" "page \<noteq> 0"
  shows "page mod 4096 = 0" "frame_free heap (frame_of page)" "frame_free heap' k \<longleftrightarrow> frame_free heap k \<and> k \<noteq> frame_of page"
proof -
  note a = assms(1)[unfolded pm_alloc_is_allocLimit]
  have "page = of_nat (unat (base_of page))" using pm_allocLimit_Some(1)[OF a assms(2)] by (simp only: base_of_unat frame_of_def)
  then have "page = base_of page" by simp
  then show "page mod 4096 = 0" by (metis base_of_aligned)
  have "frames page (unat 1) = {frame_of page}" by (auto simp: frames_def frame_of_def)
  then show "frame_free heap (frame_of page)" "frame_free heap' k \<longleftrightarrow> frame_free heap k \<and> k \<noteq> frame_of page"
    using pm.alloc_law[OF assms] by auto
qed

lemma frame_of_eq: "b mod 4096 = 0 \<Longrightarrow> b' mod 4096 = 0 \<Longrightarrow> frame_of b = frame_of b' \<longleftrightarrow> b = b'" for b b' :: u32
  by (metis alignedE frame_of_def nonzero_mult_div_cancel_left word_unat_eq_iff zero_neq_numeral)

text \<open>The state after the new directory entry, before the table is cleared.\<close>

lemma user_entry: "page mod 4096 = 0 \<Longrightarrow> base_of (page OR VM_FLAGS_USERLAND) = page \<and> present (page OR VM_FLAGS_USERLAND)"
  using entry_or[of page VM_FLAGS_USERLAND] by (simp add: vm_consts present_bit bit_0 bit_or_iff)

lemma new_table_space:
  assumes "kernel_space st" "t < 1024" "\<not> present (pde st t)" "pm_alloc (vm_heap st) 1 = (page, heap)" "page \<noteq> 0"
  defines "st1 \<equiv> st\<lparr>vm_mem := (vm_mem st)(kdir + 4 * t := page OR VM_FLAGS_USERLAND), vm_heap := heap\<rparr>"
  shows "kernel_space st1" "t' < 1024 \<Longrightarrow> pde st1 t' = (if t' = t then page OR VM_FLAGS_USERLAND else pde st t')"
proof -
  note k = kernel_spaceD[OF assms(1)] and p = pm_alloc_1[OF assms(4,5)]
  have t: "t \<noteq> 255" "t \<noteq> 0" using assms(3) k(2,3) by auto
  show pde': "pde st1 t' = (if t' = t then page OR VM_FLAGS_USERLAND else pde st t')" if "t' < 1024" for t'
    using slot_inj[of kdir kdir t' t] assms(2) that by (simp add: pde_def st1_def)
  have page: "base_of (pde st t') \<noteq> page" if "t' < 1024" "present (pde st t')" for t'
    using k(6)[OF that] p(2) by auto
  have "page \<noteq> kdir" using k(8) p(2) by auto
  moreover have "vm_mem st1 (base_of (pde st 0) + 4 * 1) = kdir OR VM_FLAGS_KERNEL"
    using entry_at_directory[OF assms(1) _ _ _ assms(2) k(3), of 1] k(4) by (simp add: st1_def entry_at_def)
  ultimately show "kernel_space st1"
    using k(1,2,3,5,6,8) t p(1,3) user_entry[OF p(1)] page k(7)
    unfolding kernel_space_def by (auto simp: pde') (auto simp: st1_def)
qed

definition clear_entries :: "u32 \<Rightarrow> nat \<Rightarrow> nat \<Rightarrow> vm_state \<Rightarrow> vm_state" where
  "clear_entries t i n st =
     st\<lparr>vm_mem := (\<lambda>a. if \<exists>j \<in> {i..<i + n}. a = entry_at st t (of_nat j) then 0 else vm_mem st a)\<rparr>"

lemma of_nat_less_1024: "i < 1024 \<Longrightarrow> (of_nat i :: u32) < 1024"
  by (simp add: word_less_nat_alt unat_of_nat)

lemma clear_window:
  assumes "kernel_space st" "t < 1024" "t \<noteq> 0" "t \<noteq> 255" "present (pde st t)" "i + n \<le> 1024"
  shows "v_clear (window t + 4 * of_nat i) n st = Inr ((), clear_entries t i n st)"
  using assms
proof (induction n arbitrary: i st)
  case (Suc n)
  let ?st = "put_entry t (of_nat i) 0 st"
  have i: "(of_nat i :: u32) < 1024" using Suc.prems(6) by (simp add: of_nat_less_1024)
  note pde = pde_put[OF Suc.prems(1,2,4) i Suc.prems(5)]
  have "kernel_space ?st" using put_entry_space[OF Suc.prems(1,2,4) i Suc.prems(5)] Suc.prems(3) by simp
  then have "v_clear (window t + 4 * of_nat (Suc i)) n ?st = Inr ((), clear_entries t (Suc i) n ?st)"
    using Suc.IH[of ?st "Suc i"] Suc.prems(2-6) pde[OF Suc.prems(2)] by simp
  moreover have "clear_entries t (Suc i) n ?st = clear_entries t i (Suc n) st"
  proof -
    have "{i..<i + Suc n} = insert i {Suc i..<Suc i + n}" by auto
    moreover have "entry_at ?st t j = entry_at st t j" for j by (simp add: entry_at_def pde[OF Suc.prems(2)])
    ultimately show ?thesis unfolding clear_entries_def by (simp only: put_entry_def) (auto simp: fun_eq_iff)
  qed
  ultimately show ?case
    using store_window[OF Suc.prems(1,2) i Suc.prems(5), of 0] by (simp add: v_bind_def algebra_simps)
qed (simp add: clear_entries_def)

lemma clear_pde:
  assumes "kernel_space st" "t < 1024" "t \<noteq> 255" "present (pde st t)" "i + n \<le> 1024" "t' < 1024"
  shows "pde (clear_entries t i n st) t' = pde st t'"
proof -
  have "kdir + 4 * t' \<noteq> entry_at st t (of_nat j)" if "j \<in> {i..<i + n}" for j
    using entry_at_directory[OF assms(1-3) of_nat_less_1024[of j] assms(6,4)] that assms(5) by auto
  then show ?thesis by (auto simp: pde_def clear_entries_def)
qed

lemma clear_space:
  assumes "kernel_space st" "t < 1024" "t \<noteq> 0" "t \<noteq> 255" "present (pde st t)" "i + n \<le> 1024"
  shows "kernel_space (clear_entries t i n st)"
proof -
  note p = clear_pde[OF assms(1,2,4,5,6)]
  have "entry_at st 0 1 \<noteq> entry_at st t (of_nat j)" if "j \<in> {i..<i + n}" for j
    using entry_at_inj[OF assms(1) _ assms(2) _ of_nat_less_1024[of j] kernel_spaceD(3)[OF assms(1)] assms(5), of 1] that assms(3,6)
    by auto
  then have "vm_mem (clear_entries t i n st) (base_of (pde st 0) + 4 * 1) = vm_mem st (base_of (pde st 0) + 4 * 1)"
    by (auto simp: clear_entries_def entry_at_def)
  then show ?thesis using assms(1) p unfolding kernel_space_def by (simp add: clear_entries_def)
qed

lemma mapPage_absent:
  assumes "kernel_space st" "va \<noteq> 0" "p \<noteq> 0 \<or> f = 0" "va mod 4096 = 0" "p mod 4096 = 0" "\<not> present (pde st (dir_index va))"
    "pm_alloc (vm_heap st) 1 = (page, heap)" "page \<noteq> 0"
  defines "st1 \<equiv> st\<lparr>vm_mem := (vm_mem st)(kdir + 4 * dir_index va := page OR VM_FLAGS_USERLAND), vm_heap := heap\<rparr>"
  shows "vm0_mapPage_kernel p va f st =
    Inr ((), put_entry (dir_index va) (table_index va) (p OR f) (clear_entries (dir_index va) 0 256 st1))"
proof -
  let ?t = "dir_index va"
  note k = kernel_spaceD[OF assms(1)] and n = new_table_space[OF assms(1) index_less(1) assms(6-8), folded st1_def]
  have t: "?t \<noteq> 0" "?t \<noteq> 255" using assms(6) k(2,3) by auto
  have pr: "present (pde st1 ?t)" using n(2)[OF index_less(1)] user_entry[OF pm_alloc_1(1)[OF assms(7,8)]] by simp
  have c: "v_clear (window ?t) 256 st1 = Inr ((), clear_entries ?t 0 256 st1)"
    using clear_window[OF n(1) index_less(1) t pr, of 0 256] by simp
  have k2: "kernel_space (clear_entries ?t 0 256 st1)" "present (pde (clear_entries ?t 0 256 st1) ?t)"
    using clear_space[OF n(1) index_less(1) t pr] clear_pde[OF n(1) index_less(1) t(2) pr] pr by simp_all
  have s: "v_store (kdir + 4 * ?t) (page OR VM_FLAGS_USERLAND) (st\<lparr>vm_heap := heap\<rparr>) = Inr ((), st1)"
    using walk_directory[OF assms(1) index_less(1)[of va]] k(1) by (simp add: v_store_def v_phys_def st1_def)
  show ?thesis
    unfolding vm0_mapPage_kernel_def map_asserts_ok[OF assms(2-5)] Let_def index_defs
    using assms(1,6,7) k(1) s c store_window[OF k2(1) index_less k2(2)]
    by (simp add: v_bind_Inr[OF load_directory] v_paging_bind) (simp add: v_bind_def v_pm_alloc_def)
qed

text \<open>What changes when a table is added: its own entries, and nothing else outside the window.\<close>

lemma entry_of_new_table:
  assumes "kernel_space st" "t < 1024" "\<not> present (pde st t)" "pm_alloc (vm_heap st) 1 = (page, heap)" "page \<noteq> 0" "dir_index va \<noteq> 255"
  defines "st1 \<equiv> st\<lparr>vm_mem := (vm_mem st)(kdir + 4 * t := page OR VM_FLAGS_USERLAND), vm_heap := heap\<rparr>"
  shows "entry_of (vm_mem (clear_entries t 0 256 st1)) kdir va =
    (if dir_index va = t then (if table_index va < 256 then 0 else vm_mem st (page + 4 * table_index va))
     else entry_of (vm_mem st) kdir va)"
proof -
  let ?d = "dir_index va" and ?i = "table_index va" and ?st2 = "clear_entries t 0 256 st1"
  note k = kernel_spaceD[OF assms(1)] and n = new_table_space[OF assms(1-5), folded st1_def] and p = pm_alloc_1[OF assms(4,5)]
  have t: "t \<noteq> 255" using assms(3) k(2) by auto
  have pr: "pde st1 t = page OR VM_FLAGS_USERLAND" "base_of (pde st1 t) = page" "present (pde st1 t)"
    using n(2)[OF assms(2)] user_entry[OF p(1)] by simp_all
  have pde2: "pde ?st2 t' = pde st1 t'" if "t' < 1024" for t' using clear_pde[OF n(1) assms(2) t pr(3) _ that] by simp
  have small: "(\<exists>j \<in> {0..<0 + 256}. ?i = of_nat j) \<longleftrightarrow> ?i < 256"
    by (auto simp: word_less_nat_alt unat_of_nat intro!: bexI[of _ "unat ?i"])
  have cleared: "vm_mem ?st2 a = (if \<exists>j \<in> {0..<0 + 256}. a = page + 4 * of_nat j then 0 else vm_mem st1 a)" for a
    by (simp add: clear_entries_def entry_at_def pr(2))
  have page: "page \<noteq> kdir" using k(8) p(2) by auto
  show ?thesis
  proof (cases "?d = t")
    case True
    have "page + 4 * ?i = page + 4 * of_nat j \<longleftrightarrow> ?i = of_nat j" if "j \<in> {0..<0 + 256}" for j
      using slot_inj[OF p(1) p(1) index_less(2) of_nat_less_1024[of j]] that by auto
    then have "(\<exists>j \<in> {0..<0 + 256}. page + 4 * ?i = page + 4 * of_nat j) \<longleftrightarrow> ?i < 256"
      unfolding small[symmetric] by (intro bex_cong refl)
    then have "vm_mem ?st2 (page + 4 * ?i) = (if ?i < 256 then 0 else vm_mem st1 (page + 4 * ?i))" by (simp only: cleared)
    moreover have "page + 4 * ?i \<noteq> kdir + 4 * t" using slot_inj[OF p(1) _ index_less(2) assms(2)] page by simp
    ultimately show ?thesis using True pr pde2[OF assms(2)] by (simp add: entry_of_pde entry_at_def st1_def)
  next
    case False
    have same: "pde ?st2 ?d = pde st ?d" using pde2[OF index_less(1)] n(2)[OF index_less(1)] False by simp
    have "vm_mem ?st2 (entry_at st ?d ?i) = vm_mem st (entry_at st ?d ?i)" if pr': "present (pde st ?d)"
    proof -
      have "base_of (pde st ?d) \<noteq> page" using k(6)[OF index_less(1) pr'] p(2) by auto
      then have "entry_at st ?d ?i \<noteq> page + 4 * of_nat j" if "j \<in> {0..<0 + 256}" for j
        using slot_inj[OF _ p(1) index_less(2) of_nat_less_1024[of j]] that by (auto simp: entry_at_def)
      then have "vm_mem ?st2 (entry_at st ?d ?i) = vm_mem st1 (entry_at st ?d ?i)" unfolding cleared by auto
      then show ?thesis using entry_at_directory[OF assms(1) index_less(1) assms(6) index_less(2) assms(2) pr'] by (simp add: st1_def)
    qed
    then show ?thesis using False same by (simp add: entry_of_pde entry_at_def)
  qed
qed

section \<open>Steps of the kernel's tables\<close>

text \<open>
  A step changes only words of the kernel's own tables, takes new tables from the free frames, and
  keeps \<^term>\<open>kernel_space\<close>.
\<close>

definition ktables :: "vm_state \<Rightarrow> u32 set" where
  "ktables st = insert kdir ((\<lambda>t. base_of (pde st t)) ` {t. t < 1024 \<and> present (pde st t)})"

definition kernel_step :: "vm_state \<Rightarrow> vm_state \<Rightarrow> bool" where
  "kernel_step st st' \<longleftrightarrow> kernel_space st' \<and> vm_spinlock st' = vm_spinlock st \<and> ktables st \<subseteq> ktables st' \<and>
     (\<forall>a. base_of a \<notin> ktables st' \<longrightarrow> vm_mem st' a = vm_mem st a) \<and>
     (\<forall>k. frame_free (vm_heap st') k \<longleftrightarrow> frame_free (vm_heap st) k \<and> k \<notin> frame_of ` ktables st') \<and>
     (\<forall>b \<in> ktables st' - ktables st. frame_free (vm_heap st) (frame_of b))"

lemma ktables_used: "kernel_space st \<Longrightarrow> b \<in> ktables st \<Longrightarrow> \<not> frame_free (vm_heap st) (frame_of b)"
  using kernel_spaceD(6,8)[of st] by (auto simp: ktables_def)

lemma ktables_cong: "(\<And>t. t < 1024 \<Longrightarrow> pde st' t = pde st t) \<Longrightarrow> ktables st' = ktables st"
  unfolding ktables_def by (intro arg_cong[where f = "insert kdir"] image_cong Collect_cong) auto

lemma kernel_step_refl: "kernel_space st \<Longrightarrow> kernel_step st st"
  using ktables_used[of st] by (auto simp: kernel_step_def)

lemma kernel_stepD:
  assumes "kernel_step st st'"
  shows "kernel_space st'" "vm_spinlock st' = vm_spinlock st" "ktables st \<subseteq> ktables st'"
    "base_of a \<notin> ktables st' \<Longrightarrow> vm_mem st' a = vm_mem st a"
    "frame_free (vm_heap st') k \<longleftrightarrow> frame_free (vm_heap st) k \<and> k \<notin> frame_of ` ktables st'"
    "b \<in> ktables st' \<Longrightarrow> b \<notin> ktables st \<Longrightarrow> frame_free (vm_heap st) (frame_of b)"
  using assms by (simp_all add: kernel_step_def)

lemma kernel_step_trans:
  assumes "kernel_step st st1" "kernel_step st1 st2"
  shows "kernel_step st st2"
proof -
  note d1 = kernel_stepD[OF assms(1)] and d2 = kernel_stepD[OF assms(2)]
  have "vm_mem st2 a = vm_mem st a" if "base_of a \<notin> ktables st2" for a
    using d1(4)[of a] d2(4)[OF that] d2(3) that by auto
  moreover have "frame_of ` ktables st1 \<subseteq> frame_of ` ktables st2" using d2(3) by (rule image_mono)
  then have "frame_free (vm_heap st2) k \<longleftrightarrow> frame_free (vm_heap st) k \<and> k \<notin> frame_of ` ktables st2" for k
    using d1(5)[of k] d2(5)[of k] by auto
  moreover have "frame_free (vm_heap st) (frame_of b)" if "b \<in> ktables st2" "b \<notin> ktables st" for b
    using d1(5)[of "frame_of b"] d1(6)[OF _ that(2)] d2(6)[OF that(1)] by auto
  ultimately show ?thesis using d1(2,3) d2(1,2,3) by (simp add: kernel_step_def)
qed

lemma base_of_slot: "b mod 4096 = 0 \<Longrightarrow> i < 1024 \<Longrightarrow> base_of (b + 4 * i) = b"
proof -
  assume a: "b mod 4096 = 0" "i < 1024"
  obtain q where q: "unat b = 4096 * q" using alignedE[OF a(1)] by blast
  then have "unat (base_of (b + 4 * i)) = unat b"
    using slot_unat[OF a] a(2) by (simp add: base_of_unat word_less_nat_alt)
  then show ?thesis by (rule word_unat_eq_iff[THEN iffD2])
qed

lemma put_entry_step:
  assumes "kernel_space st" "t < 1024" "t \<noteq> 255" "i < 1024" "present (pde st t)" "\<not> (t = 0 \<and> i = 1)"
  shows "kernel_step st (put_entry t i v st)"
proof -
  have "ktables (put_entry t i v st) = ktables st" using pde_put[OF assms(1-5)] by (rule ktables_cong)
  moreover have "base_of (entry_at st t i) \<in> ktables st"
    using base_of_slot[OF base_of_aligned assms(4)] assms(2,5) by (auto simp: entry_at_def ktables_def)
  ultimately show ?thesis
    using put_entry_space[OF assms] ktables_used[OF assms(1)]
    unfolding kernel_step_def by (auto simp: put_entry_def)
qed

lemma new_table_step:
  assumes "kernel_space st" "t < 1024" "\<not> present (pde st t)" "pm_alloc (vm_heap st) 1 = (page, heap)" "page \<noteq> 0"
  defines "st1 \<equiv> st\<lparr>vm_mem := (vm_mem st)(kdir + 4 * t := page OR VM_FLAGS_USERLAND), vm_heap := heap\<rparr>"
  shows "kernel_step st (clear_entries t 0 256 st1)" "present (pde (clear_entries t 0 256 st1) t)"
proof -
  let ?st2 = "clear_entries t 0 256 st1"
  note k = kernel_spaceD[OF assms(1)] and n = new_table_space[OF assms(1-5), folded st1_def] and p = pm_alloc_1[OF assms(4,5)]
  have t: "t \<noteq> 255" "t \<noteq> 0" using assms(3) k(2,3) by auto
  have pr: "base_of (pde st1 t) = page" "present (pde st1 t)" using n(2)[OF assms(2)] user_entry[OF p(1)] by simp_all
  have pde2: "pde ?st2 t' = (if t' = t then page OR VM_FLAGS_USERLAND else pde st t')" if "t' < 1024" for t'
    using clear_pde[OF n(1) assms(2) t(1) pr(2) _ that, of 0 256] n(2)[OF that] by simp
  then show "present (pde ?st2 t)" using user_entry[OF p(1)] assms(2) by simp
  have T: "ktables ?st2 = insert page (ktables st)"
  proof -
    have "{u. u < 1024 \<and> present (pde ?st2 u)} = insert t {u. u < 1024 \<and> present (pde st u)}"
      using assms(2) user_entry[OF p(1)] by (auto simp: pde2)
    moreover have "(\<lambda>u. base_of (pde ?st2 u)) ` {u. u < 1024 \<and> present (pde st u)} = (\<lambda>u. base_of (pde st u)) ` {u. u < 1024 \<and> present (pde st u)}"
      using assms(3) by (intro image_cong) (auto simp: pde2)
    ultimately show ?thesis
      using user_entry[OF p(1)] assms(2) by (simp only: ktables_def image_insert pde2 if_True) (simp add: insert_commute)
  qed
  have "vm_mem ?st2 a = vm_mem st a" if "base_of a \<notin> insert page (ktables st)" for a
  proof -
    have "a \<noteq> kdir + 4 * t" using that base_of_slot[of kdir t] assms(2) by (auto simp: ktables_def)
    moreover have "a \<noteq> page + 4 * of_nat j" if "j \<in> {0..<0 + 256}" for j
      using \<open>base_of a \<notin> _\<close> base_of_slot[OF p(1) of_nat_less_1024[of j]] that by auto
    ultimately show ?thesis by (auto simp: clear_entries_def entry_at_def pr(1)) (simp add: st1_def)
  qed
  moreover have "frame_free (vm_heap ?st2) k \<longleftrightarrow> frame_free (vm_heap st) k \<and> k \<notin> frame_of ` insert page (ktables st)" for k
    using p(3)[of k] ktables_used[OF assms(1)] by (auto simp: clear_entries_def st1_def)
  moreover have "vm_spinlock ?st2 = vm_spinlock st" by (simp add: clear_entries_def st1_def)
  ultimately show "kernel_step st ?st2"
    using clear_space[OF n(1) assms(2) t(2,1) pr(2), of 0 256] p(2) unfolding kernel_step_def T by auto
qed

lemma page_eq: "dir_index va = dir_index va' \<and> table_index va = table_index va' \<longleftrightarrow> va div 4096 = va' div 4096"
proof
  assume "dir_index va = dir_index va' \<and> table_index va = table_index va'"
  then show "va div 4096 = va' div 4096" unfolding dir_index_def table_index_def by (metis div_mult_mod_eq)
qed (simp add: dir_index_def table_index_def)

lemma not_kdir_page: "va div 4096 \<noteq> 1 \<Longrightarrow> \<not> (dir_index va = 0 \<and> table_index va = 1)"
  using page_eq[of va kdir, unfolded kdir_indices] by (simp add: VM_KERNEL_DIRECTORY_ADDRESS_def)

text \<open>A page may be mapped outside the self-map and away from the page of the directory, if a table is there or a frame for one.\<close>

definition mappable :: "vm_state \<Rightarrow> u32 \<Rightarrow> bool" where
  "mappable st va \<longleftrightarrow> va \<noteq> 0 \<and> va mod 4096 = 0 \<and> dir_index va \<noteq> 255 \<and> va div 4096 \<noteq> 1 \<and>
     (present (pde st (dir_index va)) \<or> fst (pm_alloc (vm_heap st) 1) \<noteq> 0)"

text \<open>The entries a new table starts with: zero in its first quarter, and the old contents of the frame in the rest.\<close>

definition fresh_entry :: "vm_state \<Rightarrow> u32 \<Rightarrow> u32" where
  "fresh_entry st i = (if i < 256 then 0 else vm_mem st (fst (pm_alloc (vm_heap st) 1) + 4 * i))"

lemma mapPage_kernel_ok:
  assumes "kernel_space st" "mappable st va" "p \<noteq> 0 \<or> f = 0" "p mod 4096 = 0"
  obtains st' where "vm0_mapPage_kernel p va f st = Inr ((), st')" "kernel_step st st'" "present (pde st' (dir_index va))"
    "\<forall>va'. dir_index va' \<noteq> 255 \<longrightarrow> entry_of (vm_mem st') kdir va' =
       (if va' div 4096 = va div 4096 then p OR f
        else if dir_index va' = dir_index va \<and> \<not> present (pde st (dir_index va)) then fresh_entry st (table_index va')
        else entry_of (vm_mem st) kdir va')"
proof -
  let ?t = "dir_index va" and ?i = "table_index va"
  have va: "va \<noteq> 0" "va mod 4096 = 0" "?t \<noteq> 255" "\<not> (?t = 0 \<and> ?i = 1)"
    using assms(2) not_kdir_page by (auto simp: mappable_def)
  show thesis
  proof (cases "present (pde st ?t)")
    case True
    note put = assms(1) index_less(1)[of va] va(3) index_less(2)[of va] True
    show thesis
      using mapPage_present[OF assms(1) va(1) assms(3) va(2) assms(4) True] put_entry_step[OF put va(4)] pde_put[OF put index_less(1)]
        True entry_of_put[OF put, of "p OR f"] page_eq[of _ va]
      by (intro that[of "put_entry ?t ?i (p OR f) st"]) auto
  next
    case False
    obtain page heap where pm: "pm_alloc (vm_heap st) 1 = (page, heap)" by (cases "pm_alloc (vm_heap st) 1")
    then have page: "page \<noteq> 0" using assms(2) False by (simp add: mappable_def)
    define st2 where "st2 = clear_entries ?t 0 256 (st\<lparr>vm_mem := (vm_mem st)(kdir + 4 * ?t := page OR VM_FLAGS_USERLAND), vm_heap := heap\<rparr>)"
    note step = new_table_step[OF assms(1) index_less(1) False pm page, folded st2_def]
    note put = kernel_stepD(1)[OF step(1)] index_less(1)[of va] va(3) index_less(2)[of va] step(2)
    have "kernel_step st (put_entry ?t ?i (p OR f) st2)"
      using kernel_step_trans[OF step(1) put_entry_step[OF put va(4)]] .
    moreover have "entry_of (vm_mem (put_entry ?t ?i (p OR f) st2)) kdir va' =
       (if va' div 4096 = va div 4096 then p OR f
        else if dir_index va' = dir_index va \<and> \<not> present (pde st (dir_index va)) then fresh_entry st (table_index va')
        else entry_of (vm_mem st) kdir va')" if "dir_index va' \<noteq> 255" for va'
      using entry_of_put[OF put, of "p OR f" va'] entry_of_new_table[OF assms(1) index_less(1) False pm page that, folded st2_def]
        page_eq[of va' va] False by (auto simp: fresh_entry_def pm)
    ultimately show thesis
      using mapPage_absent[OF assms(1) va(1) assms(3) va(2) assms(4) False pm page, folded st2_def] pde_put[OF put index_less(1)] step(2)
      by (intro that[of "put_entry ?t ?i (p OR f) st2"]) auto
  qed
qed

end
