(* ===== verification/VMSearch.thy ===== *)
theory VMSearch
  imports VMKernel
begin

text \<open>
  The search for free pages of \<^verbatim>\<open>src/sys/memory/vmemory.c\<close> as a first-fit search over page numbers. The three
  searches of the source have the same loops and differ in how they look at directories and tables, so the
  proof is made once over an interface and used for the directory of the kernel, for another directory, and
  for both at a time.
\<close>

section \<open>The loops\<close>

lemma unat_page: "k < 1048576 \<Longrightarrow> unat (of_nat (k * 4096) :: u32) = k * 4096"
  by (subst unat_of_nat) simp

text \<open>The variables \<^verbatim>\<open>foundPages\<close> and \<^verbatim>\<open>regionStart\<close> before page \<open>k\<close>, against the reference \<^const>\<open>scan_frames\<close>.\<close>

definition scan_result :: "u32 \<Rightarrow> nat \<Rightarrow> nat + nat \<Rightarrow> u32 \<times> u32 \<Rightarrow> bool" where
  "scan_result pages k s r \<longleftrightarrow>
     (case s of
        Inl a \<Rightarrow> pages \<le> fst r \<and> snd r = of_nat (a * 4096)
      | Inr f \<Rightarrow> unat (fst r) = f \<and> f < unat pages \<and> f \<le> k \<and> (f \<noteq> 0 \<longrightarrow> snd r = of_nat ((k - f) * 4096)))"

lemma page_address: "t < 1024 \<Longrightarrow> i < 1024 \<Longrightarrow> push_bit 22 t + push_bit 12 i = (of_nat ((1024 * unat t + unat i) * 4096) :: u32)"
  by (simp add: push_bit_eq_mult algebra_simps)

lemma scan_table_ok:
  assumes "\<And>i. i < 1024 \<Longrightarrow> free i st = Inr (F (1024 * unat t + unat i), st)" "t < 1024"
    and "unat i + n = 1024" "scan_result pages (1024 * unat t + unat i) (Inr (unat found)) (found, start)"
  shows "\<exists>r. scan_table free pages t i found start st = Inr (r, st) \<and>
    scan_result pages (1024 * unat t + 1024) (scan_frames F (unat pages - 1) (unat found) (1024 * unat t + unat i) n) r"
  using assms(3,4)
proof (induction n arbitrary: i found start)
  case 0
  then have "\<not> i < VM_PAGETABLE_LENGTH" by (simp add: word_less_nat_alt VM_PAGETABLE_LENGTH_def)
  then show ?case using 0 by (subst scan_table.simps) simp
next
  case (Suc n)
  let ?k = "1024 * unat t + unat i"
  have i: "i < 1024" "i < VM_PAGETABLE_LENGTH" using Suc.prems(1) by (auto simp: word_less_nat_alt VM_PAGETABLE_LENGTH_def)
  have t: "unat t < 1024" using assms(2) by (simp add: word_less_nat_alt)
  have i1: "unat (i + 1) = Suc (unat i)" using unat_Suc_no_wrap[OF i(1)] .
  have pre: "unat found < unat pages" "unat found \<le> ?k" "found \<noteq> 0 \<Longrightarrow> start = of_nat ((?k - unat found) * 4096)"
    using Suc.prems(2) by (auto simp: scan_result_def unat_eq_zero)
  have f1: "unat (found + 1) = Suc (unat found)" using pre(1) by (intro unat_Suc_no_wrap[where y = pages]) (simp add: word_less_nat_alt)
  let ?start = "if found = 0 then push_bit 22 t + push_bit 12 i else start"
  have start: "?start = of_nat ((?k - unat found) * 4096)" using pre(3) page_address[OF assms(2) i(1)] by simp
  show ?case
  proof (cases "F ?k")
    case free: True
    show ?thesis
    proof (cases "pages \<le> found + 1")
      case True
      then have "Suc (unat found) > unat pages - 1" using f1 by (simp add: word_le_nat_alt)
      then show ?thesis
        using free True i start by (subst scan_table.simps) (simp add: v_bind_Inr[where m = "free i", OF assms(1)] Let_def scan_result_def)
    next
      case False
      then have less: "Suc (unat found) < unat pages" "\<not> unat pages - Suc 0 < Suc (unat found)" using f1 by (auto simp: word_le_nat_alt)
      have "scan_result pages (1024 * unat t + unat (i + 1)) (Inr (unat (found + 1))) (found + 1, ?start)"
        using less f1 i1 pre(2) start by (simp add: scan_result_def)
      then show ?thesis
        using Suc.IH[of "i + 1" "found + 1" ?start] Suc.prems(1) free False i i1 f1 less
        by (subst scan_table.simps) (simp add: v_bind_Inr[where m = "free i", OF assms(1)] Let_def)
    qed
  next
    case False
    then show ?thesis
      using Suc.IH[of "i + 1" 0 start] Suc.prems(1) i i1 pre(1)
      by (subst scan_table.simps) (simp add: v_bind_Inr[where m = "free i", OF assms(1)] scan_result_def)
  qed
qed

lemma v_bind_assoc: "v_bind (v_bind m f) g = v_bind m (\<lambda>x. v_bind (f x) g)"
  by (auto simp: v_bind_def fun_eq_iff bind_res_def split: sum.splits)

text \<open>The tables below a limit.\<close>

definition tables_below :: "u32 \<Rightarrow> nat" where
  "tables_below upper = (unat upper + 4194303) div 4194304"

lemma div_up_less: "t < (u + 4194303) div 4194304 \<longleftrightarrow> 4194304 * t < (u :: nat)"
proof -
  have "t < (u + 4194303) div 4194304 \<longleftrightarrow> Suc t \<le> (u + 4194303) div 4194304" by (simp only: Suc_le_eq)
  also have "\<dots> \<longleftrightarrow> Suc t * 4194304 \<le> u + 4194303" by (rule less_eq_div_iff_mult_less_eq) simp
  finally show ?thesis by linarith
qed

lemma tables_below_le: "tables_below upper \<le> 1024"
proof -
  have "tables_below upper \<le> (4294967295 + 4194303) div 4194304"
    unfolding tables_below_def using unat_u32_less[of upper] by (intro div_le_mono) linarith
  then show ?thesis by simp
qed

lemma table_below: "t < 1024 \<Longrightarrow> push_bit 22 t < upper \<longleftrightarrow> unat t < tables_below upper" for t :: u32
proof -
  assume "t < 1024"
  then have "unat (push_bit 22 t) = 4194304 * unat t" by (simp add: push_bit_eq_mult unat_word_ariths word_less_nat_alt)
  then show ?thesis by (simp add: word_less_nat_alt tables_below_def div_up_less)
qed

text \<open>
  The result of a search: the first of the runs of \<open>n\<close> free pages from page \<open>k\<close> on, if it ends below the limit. A
  run that ends at the very end of the address space is taken as well, because its end wraps to 0.
\<close>

definition found_pages :: "(nat \<Rightarrow> bool) \<Rightarrow> nat \<Rightarrow> u32 \<Rightarrow> nat \<Rightarrow> u32 \<Rightarrow> bool" where
  "found_pages F k upper n r \<longleftrightarrow>
     (if r = 0 then \<forall>a \<ge> k. (a + n) * 4096 \<le> unat upper \<longrightarrow> \<not> free_run F a n
      else \<exists>a \<ge> k. unat r = a * 4096 \<and> free_run F a n \<and> (\<forall>b. k \<le> b \<longrightarrow> b < a \<longrightarrow> \<not> free_run F b n) \<and>
        ((a + n) * 4096 \<le> unat upper \<or> (a + n) * 4096 = 4294967296))"

lemma region_end:
  assumes "0 < n" "a + unat n \<le> 1048576" "a < 1048576"
  shows "of_nat (a * 4096) + n * VM_PAGE_SIZE \<le> upper \<longleftrightarrow> (a + unat n) * 4096 \<le> unat upper \<or> (a + unat n) * 4096 = 4294967296"
proof -
  have e: "of_nat (a * 4096) + n * VM_PAGE_SIZE = (of_nat ((a + unat n) * 4096) :: u32)"
    by (simp add: VM_PAGE_SIZE_def algebra_simps)
  have u: "unat (of_nat ((a + unat n) * 4096) :: u32) = (a + unat n) * 4096 mod 4294967296" by (subst unat_of_nat) simp
  show ?thesis
  proof (cases "a + unat n = 1048576")
    case True
    then show ?thesis unfolding e word_le_nat_alt u by simp
  next
    case False
    then have "a + unat n < 1048576" using assms(2) by (rule le_neq_implies_less[rotated])
    then have "(a + unat n) * 4096 < 4294967296" using mult_strict_right_mono[of "a + unat n" 1048576 4096] by simp
    then show ?thesis unfolding e word_le_nat_alt u by simp
  qed
qed

section \<open>The interface of the searches\<close>

text \<open>
  \<open>has t\<close> says that there is a table for the pages from \<open>1024 * t\<close> on, and \<open>F k\<close> that page \<open>k\<close> is free. Visiting a table
  gives access to its entries in some state, and restores the invariant afterwards.
\<close>

locale page_search =
  fixes inv :: "vm_state \<Rightarrow> bool"
    and mapped :: "u32 \<Rightarrow> bool vmop"
    and visit :: "u32 \<Rightarrow> ((u32 \<Rightarrow> bool vmop) \<Rightarrow> (u32 \<times> u32) vmop) \<Rightarrow> (u32 \<times> u32) vmop"
    and has :: "u32 \<Rightarrow> bool"
    and F :: "nat \<Rightarrow> bool"
  assumes mapped_law: "inv st \<Longrightarrow> t < 1024 \<Longrightarrow> mapped t st = Inr (has t, st)"
    and visit_law: "inv st \<Longrightarrow> t < 1024 \<Longrightarrow> has t \<Longrightarrow>
      \<exists>free st1. (\<forall>i < 1024. free i st1 = Inr (F (1024 * unat t + unat i), st1)) \<and>
        (\<forall>g r. g free st1 = Inr (r, st1) \<longrightarrow> (\<exists>st'. visit t g st = Inr (r, st') \<and> inv st'))"
    and absent_law: "inv st \<Longrightarrow> t < 1024 \<Longrightarrow> \<not> has t \<Longrightarrow> n < 1024 \<Longrightarrow> F (1024 * unat t + n)"
begin

lemma visit_scan:
  assumes "inv st" "t < 1024" "has t" "unat i + n = 1024" "scan_result pages (1024 * unat t + unat i) (Inr (unat found)) (found, start)"
  shows "\<exists>r st'. visit t (\<lambda>free. scan_table free pages t i found start) st = Inr (r, st') \<and> inv st' \<and>
    scan_result pages (1024 * unat t + 1024) (scan_frames F (unat pages - 1) (unat found) (1024 * unat t + unat i) n) r"
proof -
  obtain free st1 where "\<forall>i < 1024. free i st1 = Inr (F (1024 * unat t + unat i), st1)"
    and v: "\<And>g r. g free st1 = Inr (r, st1) \<Longrightarrow> \<exists>st'. visit t g st = Inr (r, st') \<and> inv st'"
    using visit_law[OF assms(1-3)] by blast
  then obtain r where "scan_table free pages t i found start st1 = Inr (r, st1)"
    "scan_result pages (1024 * unat t + 1024) (scan_frames F (unat pages - 1) (unat found) (1024 * unat t + unat i) n) r"
    using scan_table_ok[of free st1 F t, OF _ assms(2,4,5)] by blast
  then show ?thesis using v[of "\<lambda>free. scan_table free pages t i found start" r] by blast
qed

text \<open>One table, visited or absent; an absent one counts as a whole, so the search has to come to it at its first page.\<close>

lemma table_scan:
  assumes "inv st" "t < 1024" "has t \<or> i = 0" "unat i + n = 1024" "scan_result pages (1024 * unat t + unat i) (Inr (unat found)) (found, start)"
  shows "\<exists>r st'. v_bind (mapped t) (\<lambda>h. if h then visit t (\<lambda>free. scan_table free pages t i found start)
      else v_return (found + VM_PAGETABLE_LENGTH, if found = 0 then push_bit 22 t + push_bit 12 i else start)) st = Inr (r, st') \<and> inv st' \<and>
    scan_result pages (1024 * unat t + 1024) (scan_frames F (unat pages - 1) (unat found) (1024 * unat t + unat i) n) r"
proof (cases "has t")
  case True
  then show ?thesis using visit_scan[OF assms(1,2) True assms(4,5)] mapped_law[OF assms(1,2)] by (simp add: v_bind_def)
next
  case False
  then have i: "i = 0" "n = 1024" using assms(3,4) by auto
  have t: "unat t < 1024" using assms(2) by (simp add: word_less_nat_alt)
  have pre: "unat found < unat pages" "unat found \<le> 1024 * unat t" "found \<noteq> 0 \<Longrightarrow> start = of_nat ((1024 * unat t - unat found) * 4096)"
    using assms(5) i by (auto simp: scan_result_def unat_eq_zero)
  then have add: "unat (found + VM_PAGETABLE_LENGTH) = unat found + 1024"
    using t by (subst unat_add_no_wrap) (auto simp: VM_PAGETABLE_LENGTH_def)
  have s: "scan_frames F (unat pages - 1) (unat found) (1024 * unat t) 1024 =
      (if unat found + 1024 > unat pages - 1 then Inl (1024 * unat t - unat found) else Inr (unat found + 1024))"
    using scan_frames_free[of 1024 F "1024 * unat t" "unat found" "unat pages - 1"] absent_law[OF assms(1,2) False] pre by simp
  have "(if found = 0 then push_bit 22 t + push_bit 12 i else start) = of_nat ((1024 * unat t - unat found) * 4096)"
    using pre(3) page_address[OF assms(2), of 0] i by simp
  then show ?thesis
    using False mapped_law[OF assms(1,2)] assms(1) i s add pre by (auto simp: v_bind_def scan_result_def word_le_nat_alt)
qed

text \<open>
  All tables below the limit, from page \<open>i\<close> of table \<open>t\<close> on. \<open>m\<close> is the number of tables that are left.
\<close>

lemma directory_scan:
  assumes "inv st" "unat t + m = tables_below upper" "m \<noteq> 0 \<Longrightarrow> has t \<or> i = 0" "i < 1024" "m = 0 \<Longrightarrow> i = 0"
    "scan_result pages (1024 * unat t + unat i) (Inr (unat found)) (found, start)"
  shows "\<exists>r st'. scan_directory mapped visit pages upper t i found start st = Inr (r, st') \<and> inv st' \<and>
    (case scan_frames F (unat pages - 1) (unat found) (1024 * unat t + unat i) (1024 * m - unat i) of
       Inl a \<Rightarrow> pages \<le> fst r \<and> snd r = of_nat (a * 4096) | Inr f \<Rightarrow> fst r < pages)"
  using assms
proof (induction m arbitrary: t i found start st)
  case 0
  have less: "found < pages" using 0(6) by (simp add: scan_result_def word_less_nat_alt)
  show ?case
  proof (cases "t < 1024")
    case True
    then show ?thesis using 0(1,2,5) less table_below[OF True, of upper] by (subst scan_directory.simps) simp
  next
    case False
    then have "VM_DIRECTORY_LENGTH \<le> t" by (simp add: VM_DIRECTORY_LENGTH_def)
    then show ?thesis using 0(1,5) less by (subst scan_directory.simps) (auto intro: le_less_trans[OF word_zero_le])
  qed
next
  case (Suc m)
  have t: "t < 1024" "push_bit 22 t < upper" "\<not> VM_DIRECTORY_LENGTH \<le> t"
    using Suc.prems(2) tables_below_le[of upper] table_below[of t upper]
    by (auto simp: word_less_nat_alt word_le_nat_alt VM_DIRECTORY_LENGTH_def)
  have i: "unat i < 1024" using Suc.prems(4) by (simp add: word_less_nat_alt)
  have less: "found < pages" using Suc.prems(6) by (simp add: scan_result_def word_less_nat_alt)
  obtain f s st1 where r: "v_bind (mapped t) (\<lambda>h. if h then visit t (\<lambda>free. scan_table free pages t i found start)
      else v_return (found + VM_PAGETABLE_LENGTH, if found = 0 then push_bit 22 t + push_bit 12 i else start)) st = Inr ((f, s), st1)"
    "inv st1" "scan_result pages (1024 * unat t + 1024) (scan_frames F (unat pages - 1) (unat found) (1024 * unat t + unat i) (1024 - unat i)) (f, s)"
    using table_scan[OF Suc.prems(1) t(1) _ _ Suc.prems(6), of "1024 - unat i"] Suc.prems(3) i by (metis le_add_diff_inverse less_imp_le surj_pair nat.distinct(1))
  have unfold: "scan_directory mapped visit pages upper t i found start st = scan_directory mapped visit pages upper (t + 1) 0 f s st1"
    using r(1) t less by (subst scan_directory.simps) (simp only: v_bind_assoc[symmetric] if_True simp_thms, simp add: v_bind_def)
  have split: "scan_frames F (unat pages - 1) (unat found) (1024 * unat t + unat i) (1024 * Suc m - unat i) =
      sum_bind (scan_frames F (unat pages - 1) (unat found) (1024 * unat t + unat i) (1024 - unat i))
        (\<lambda>f. scan_frames F (unat pages - 1) f (1024 * unat t + 1024) (1024 * m))"
    using scan_frames_add[of F "unat pages - 1" "unat found" "1024 * unat t + unat i" "1024 - unat i" "1024 * m"] i by simp
  have t1: "unat (t + 1) = Suc (unat t)" using unat_Suc_no_wrap[OF t(1)] .
  show ?case
  proof (cases "scan_frames F (unat pages - 1) (unat found) (1024 * unat t + unat i) (1024 - unat i)")
    case (Inl a)
    then have "\<not> f < pages" using r(3) by (simp add: scan_result_def not_less)
    then have "scan_directory mapped visit pages upper (t + 1) 0 f s st1 = Inr ((f, s), st1)"
      by (subst scan_directory.simps) simp
    then show ?thesis using Inl r unfold unfolding split by (simp add: scan_result_def)
  next
    case (Inr f')
    then have "scan_result pages (1024 * unat (t + 1) + unat 0) (Inr (unat f)) (f, s)" "f' = unat f"
      using r(3) t1 by (auto simp: scan_result_def)
    moreover have "(0 :: u32) < 1024" "unat (t + 1) + m = tables_below upper" using Suc.prems(2) t1 by simp_all
    ultimately show ?thesis
      using Suc.IH[OF r(2), of "t + 1" 0 f s] t1 Inr unfolding unfold split by (simp add: add.commute)
  qed
qed

theorem search_first_fit:
  assumes "inv st" "0 < pages" "VM_LOWER_LIMIT \<le> lower" "upper \<le> VM_UPPER_LIMIT" "lower mod 4096 = 0" "upper mod 4096 = 0"
    "lower < upper" "has (dir_index lower) \<or> table_index lower = 0"
  shows "\<exists>r st'. find_pages mapped visit pages lower upper st = Inr (r, st') \<and> inv st' \<and>
    found_pages F (unat lower div 4096) upper (unat pages) r"
proof -
  let ?k = "unat lower div 4096" and ?N = "1024 * tables_below upper"
  have lim: "drop_bit 22 lower = dir_index lower" "drop_bit 12 lower mod VM_PAGETABLE_LENGTH = table_index lower"
    by (simp_all add: drop_bit_eq_div dir_index_def table_index_def VM_PAGETABLE_LENGTH_def word_unat_eq_iff unat_div div_mult2_eq)
  have k: "1024 * unat (dir_index lower) + unat (table_index lower) = ?k" by (simp add: index_unat)
  have t: "unat (dir_index lower) < tables_below upper"
    using assms(7) div_up_less[of "unat (dir_index lower)" "unat upper"]
    by (simp add: index_unat tables_below_def word_less_nat_alt)
  define m where "m = tables_below upper - unat (dir_index lower)"
  have m: "unat (dir_index lower) + m = tables_below upper" "m \<noteq> 0" using t by (simp_all add: m_def)
  have "scan_result pages ?k (Inr (unat 0)) (0, 0)" using assms(2) by (simp add: scan_result_def word_less_nat_alt)
  then obtain f s st' where r: "scan_directory mapped visit pages upper (dir_index lower) (table_index lower) 0 0 st = Inr ((f, s), st')" "inv st'"
    "case scan_frames F (unat pages - 1) 0 ?k (1024 * m - unat (table_index lower)) of Inl a \<Rightarrow> pages \<le> f \<and> s = of_nat (a * 4096) | Inr f' \<Rightarrow> f < pages"
    using directory_scan[OF assms(1) m(1) _ index_less(2), of lower pages 0 0] assms(8) m(2) k by (auto cong: sum.case_cong)
  have find: "find_pages mapped visit pages lower upper st =
      Inr (if pages \<le> f \<and> s + pages * VM_PAGE_SIZE \<le> upper then s else 0, st')"
    using assms(2-6) r(1) unfolding find_pages_def lim by (simp add: v_bind_def v_assert_def VM_PAGE_SIZE_def)
  have N: "?k + (1024 * m - unat (table_index lower)) = ?N"
  proof -
    have "unat (table_index lower) < 1024" by (simp add: index_unat)
    then have "unat (table_index lower) \<le> 1024 * m" using m(2) by (cases m) auto
    then show ?thesis unfolding k[symmetric] m(1)[symmetric] by simp
  qed
  have ff: "case scan_frames F (unat pages - 1) 0 ?k (1024 * m - unat (table_index lower)) of
      Inl a \<Rightarrow> ?k \<le> a \<and> a + (unat pages - 1) < ?N \<and> free_run F a (unat pages) \<and> (\<forall>b. ?k \<le> b \<longrightarrow> b < a \<longrightarrow> \<not> free_run F b (unat pages))
    | Inr f \<Rightarrow> \<forall>a. ?k \<le> a \<longrightarrow> a + (unat pages - 1) < ?N \<longrightarrow> \<not> free_run F a (unat pages)"
    using scan_frames_first_fit[of 0 "unat pages - 1" ?k ?k F "1024 * m - unat (table_index lower)"] N assms(2)
    by (simp add: free_run_def word_less_nat_alt cong: sum.case_cong)
  have P: "0 < unat pages" "1 \<le> ?k" using assms(2,3) by (simp_all add: word_less_nat_alt word_le_nat_alt VM_LOWER_LIMIT_def)
  have "unat upper \<le> 4194304 * tables_below upper" using div_up_less[of "tables_below upper" "unat upper"] by (simp add: tables_below_def)
  then have below: "a + (unat pages - 1) < ?N" if "(a + unat pages) * 4096 \<le> unat upper" for a
    using mult_right_le_imp_le[of "a + unat pages" 4096 ?N] that P(1) by simp
  show ?thesis
  proof (cases "scan_frames F (unat pages - 1) 0 ?k (1024 * m - unat (table_index lower))")
    case (Inl a)
    have a: "pages \<le> f" "s = of_nat (a * 4096)" "?k \<le> a" "a + unat pages \<le> 1048576" "a < 1048576" "free_run F a (unat pages)"
      "\<forall>b. ?k \<le> b \<longrightarrow> b < a \<longrightarrow> \<not> free_run F b (unat pages)"
      using Inl r(3) ff P(1) tables_below_le[of upper] by auto
    have s: "unat s = a * 4096" using a(2,5) unat_page by simp
    then have "s \<noteq> 0" using a(3) P(2) by (auto simp: unat_eq_zero)
    have later: "\<not> free_run F b (unat pages)" if "?k \<le> b" "(b + unat pages) * 4096 \<le> unat upper" "\<not> (a + unat pages) * 4096 \<le> unat upper" for b
      using a(7) that by (cases "b < a") auto
    show ?thesis
      using find r(2) a s \<open>s \<noteq> 0\<close> region_end[OF assms(2) a(4,5), of upper] later unfolding found_pages_def by auto
  next
    case (Inr f')
    then show ?thesis using find r(2,3) ff below unfolding found_pages_def by (auto simp: not_le[symmetric])
  qed
qed

end

section \<open>The directory of the kernel\<close>

definition page_free :: "(u32 \<Rightarrow> u32) \<Rightarrow> u32 \<Rightarrow> nat \<Rightarrow> bool" where
  "page_free mem dir k \<longleftrightarrow> \<not> present (entry_of mem dir (of_nat (k * 4096)))"

lemma page_indices:
  assumes "t < 1024" "i < 1024"
  shows "dir_index (of_nat ((1024 * unat t + unat i) * 4096)) = t" "table_index (of_nat ((1024 * unat t + unat i) * 4096)) = i"
proof -
  have ti: "unat t < 1024" "unat i < 1024" using assms by (auto simp: word_less_nat_alt)
  define k where "k = 1024 * unat t + unat i"
  have "k < 1048576" unfolding k_def using ti by linarith
  then have "unat (of_nat (k * 4096) :: u32) = k * 4096" by (rule unat_page)
  then have "unat (of_nat (k * 4096) :: u32) div 4096 = k" by simp
  moreover have "k div 1024 = unat t" "k mod 1024 = unat i" unfolding k_def using ti by simp_all
  ultimately show "dir_index (of_nat (k * 4096)) = t" "table_index (of_nat (k * 4096)) = i"
    by (simp_all only: word_unat_eq_iff index_unat)
qed

lemma not_present_0 [simp]: "\<not> present 0"
  by (simp add: present_def)

interpretation kernel_search: page_search "\<lambda>s. kernel_space st \<and> s = st" "dir_mapped kdir"
  "\<lambda>t f. f (table_free (VM_KERNEL_PAGE_TABLES + push_bit 12 t))" "\<lambda>t. present (pde st t)" "page_free (vm_mem st) kdir" for st
proof
  fix s t assume "kernel_space st \<and> s = st" "t < (1024 :: u32)"
  then show "dir_mapped kdir t s = Inr (present (pde st t), s)" by (simp add: dir_mapped_def v_bind_Inr[OF load_directory])
next
  fix s t assume a: "kernel_space st \<and> s = st" "t < (1024 :: u32)" "present (pde st t)"
  have "table_free (VM_KERNEL_PAGE_TABLES + push_bit 12 t) i st = Inr (page_free (vm_mem st) kdir (1024 * unat t + unat i), st)" if "i < 1024" for i
    using load_window[of st t i] a that page_indices[OF a(2) that]
    by (simp add: table_free_def window_def v_bind_def page_free_def entry_of_pde)
  then show "\<exists>free st1. (\<forall>i < 1024. free i st1 = Inr (page_free (vm_mem st) kdir (1024 * unat t + unat i), st1)) \<and>
      (\<forall>g r. g free st1 = Inr (r, st1) \<longrightarrow> (\<exists>st'. g (table_free (VM_KERNEL_PAGE_TABLES + push_bit 12 t)) s = Inr (r, st') \<and> kernel_space st \<and> st' = st))"
    using a by blast
next
  fix s t n assume a: "kernel_space st \<and> s = st" "t < (1024 :: u32)" "\<not> present (pde st t)" "n < (1024 :: nat)"
  have "unat (of_nat n :: u32) = n" using a(4) by (simp add: unat_of_nat)
  then have "dir_index (of_nat ((1024 * unat t + n) * 4096)) = t" using page_indices(1)[OF a(2) of_nat_less_1024[OF a(4)]] by simp
  then show "page_free (vm_mem st) kdir (1024 * unat t + n)" using a(3) by (simp add: page_free_def entry_of_pde)
qed

end
