(* ===== verification/VMAlloc.thy ===== *)
theory VMAlloc
  imports VMSearch
begin

text \<open>
  What mapping, allocating and freeing ranges do to the translation of all addresses, for the directory of the
  kernel. Entries outside the window of the tables are the observable state.
\<close>

section \<open>Clean frames and enough frames\<close>

text \<open>
  New tables are only cleared in part, so mapping a page leaves other pages alone only as long as free frames hold
  zeros. \<open>frames_left\<close> says that the allocator can deliver that many single frames.
\<close>

definition clean_frames :: "vm_state \<Rightarrow> bool" where
  "clean_frames st \<longleftrightarrow> (\<forall>a. frame_free (vm_heap st) (frame_of a) \<longrightarrow> vm_mem st a = 0)"

fun frames_left :: "pm_bitmap \<Rightarrow> nat \<Rightarrow> bool" where
  "frames_left heap 0 = True"
| "frames_left heap (Suc n) = (fst (pm_alloc heap 1) \<noteq> 0 \<and> frames_left (snd (pm_alloc heap 1)) n)"

lemma frames_left_Suc: "frames_left heap (Suc n) \<Longrightarrow> frames_left heap n"
proof (induction n arbitrary: heap)
  case (Suc n)
  show ?case
    using Suc.prems Suc.IH[of "snd (pm_alloc heap 1)"] frames_left.simps(2)[of heap n] frames_left.simps(2)[of heap "Suc n"] by blast
qed simp

lemma frame_of_base: "frame_of (base_of a) = frame_of a"
  by (simp add: frame_of_def base_of_unat)

lemma clean_step:
  assumes "clean_frames st" "kernel_step st st'"
  shows "clean_frames st'"
  unfolding clean_frames_def
proof (intro allI impI)
  fix a assume "frame_free (vm_heap st') (frame_of a)"
  then have "frame_free (vm_heap st) (frame_of a)" "frame_of (base_of a) \<notin> frame_of ` ktables st'"
    using kernel_stepD(5)[OF assms(2), of "frame_of a"] by (auto simp: frame_of_base)
  then show "vm_mem st' a = 0" using assms(1) kernel_stepD(4)[OF assms(2), of a] by (auto simp: clean_frames_def)
qed

lemma fresh_clean:
  assumes "clean_frames st" "fst (pm_alloc (vm_heap st) 1) \<noteq> 0" "i < 1024"
  shows "fresh_entry st i = 0"
proof -
  obtain page heap where pm: "pm_alloc (vm_heap st) 1 = (page, heap)" by (cases "pm_alloc (vm_heap st) 1")
  then have p: "page mod 4096 = 0" "frame_free (vm_heap st) (frame_of page)" using pm_alloc_1[OF pm] assms(2) by auto
  have "frame_of (page + 4 * i) = frame_of page" using base_of_slot[OF p(1) assms(3)] frame_of_base[of "page + 4 * i"] by simp
  then show ?thesis using assms(1) p(2) pm by (simp add: fresh_entry_def clean_frames_def)
qed

section \<open>One page and ranges of pages\<close>

text \<open>The heap after mapping a page is the old one, or the one after a frame was taken.\<close>

lemma mapPage_heap:
  assumes "kernel_space st" "mappable st va" "p \<noteq> 0 \<or> f = 0" "p mod 4096 = 0" "vm0_mapPage_kernel p va f st = Inr ((), st')"
  shows "vm_heap st' = (if present (pde st (dir_index va)) then vm_heap st else snd (pm_alloc (vm_heap st) 1))"
proof -
  have va: "va \<noteq> 0" "va mod 4096 = 0" using assms(2) by (auto simp: mappable_def)
  show ?thesis
  proof (cases "present (pde st (dir_index va))")
    case True
    then show ?thesis using mapPage_present[OF assms(1) va(1) assms(3) va(2) assms(4)] assms(5) by (auto simp: put_entry_def)
  next
    case False
    obtain page heap where pm: "pm_alloc (vm_heap st) 1 = (page, heap)" by (cases "pm_alloc (vm_heap st) 1")
    then have "page \<noteq> 0" using assms(2) False by (simp add: mappable_def)
    then show ?thesis
      using mapPage_absent[OF assms(1) va(1) assms(3) va(2) assms(4) False pm] assms(5) pm False by (auto simp: put_entry_def clear_entries_def)
  qed
qed

lemma mapPage_clean:
  assumes "kernel_space st" "clean_frames st" "frames_left (vm_heap st) (Suc n)" "p \<noteq> 0 \<or> f = 0" "p mod 4096 = 0"
    "va \<noteq> 0" "va mod 4096 = 0" "dir_index va \<noteq> 255" "va div 4096 \<noteq> 1"
  obtains st' where "vm0_mapPage_kernel p va f st = Inr ((), st')" "kernel_step st st'" "frames_left (vm_heap st') n"
    "\<And>va'. dir_index va' \<noteq> 255 \<Longrightarrow> entry_of (vm_mem st') kdir va' =
       (if va' div 4096 = va div 4096 then p OR f else entry_of (vm_mem st) kdir va')"
proof -
  have fl: "fst (pm_alloc (vm_heap st) 1) \<noteq> 0" using assms(3) by simp
  then have m: "mappable st va" using assms(6-9) by (simp add: mappable_def)
  obtain st' where st': "vm0_mapPage_kernel p va f st = Inr ((), st')" "kernel_step st st'" "present (pde st' (dir_index va))"
    "\<forall>va'. dir_index va' \<noteq> 255 \<longrightarrow> entry_of (vm_mem st') kdir va' =
       (if va' div 4096 = va div 4096 then p OR f
        else if dir_index va' = dir_index va \<and> \<not> present (pde st (dir_index va)) then fresh_entry st (table_index va')
        else entry_of (vm_mem st) kdir va')"
    by (rule mapPage_kernel_ok[OF assms(1) m assms(4,5)])
  have "frames_left (vm_heap st') n"
    using mapPage_heap[OF assms(1) m assms(4,5) st'(1)] assms(3) frames_left_Suc[OF assms(3)] by auto
  moreover have "entry_of (vm_mem st') kdir va' = (if va' div 4096 = va div 4096 then p OR f else entry_of (vm_mem st) kdir va')"
    if "dir_index va' \<noteq> 255" for va'
    using st'(4) that fresh_clean[OF assms(2) fl index_less(2)] by (auto simp: entry_of_pde)
  ultimately show thesis using that[OF st'(1,2)] by blast
qed

text \<open>The page number of an address, and the addresses of the pages below the window.\<close>

definition page_of :: "u32 \<Rightarrow> nat" where
  "page_of va = unat va div 4096"

lemma page_of_div: "va div 4096 = va' div 4096 \<longleftrightarrow> page_of va = page_of va'" for va va' :: u32
  by (simp add: page_of_def word_unat_eq_iff unat_div)

lemma dir_index_page: "unat (dir_index va) = page_of va div 1024"
  by (simp add: index_unat page_of_def)

lemma low_page:
  assumes "2 \<le> k" "k < 261120"
  shows "page_of (of_nat (k * 4096)) = k" "of_nat (k * 4096) \<noteq> (0 :: u32)" "(of_nat (k * 4096) :: u32) mod 4096 = 0"
    "dir_index (of_nat (k * 4096)) \<noteq> 255" "(of_nat (k * 4096) :: u32) div 4096 \<noteq> 1"
    "of_nat (k * 4096) + VM_PAGE_SIZE = (of_nat (Suc k * 4096) :: u32)"
proof -
  have u: "unat (of_nat (k * 4096) :: u32) = k * 4096" using assms by (intro unat_page) simp
  show k: "page_of (of_nat (k * 4096)) = k" by (simp add: page_of_def u del: of_nat_mult)
  show "of_nat (k * 4096) \<noteq> (0 :: u32)" using u assms(1) by (metis unat_0 mult_eq_0_iff not_numeral_le_zero zero_neq_numeral)
  show "(of_nat (k * 4096) :: u32) mod 4096 = 0" by (simp add: aligned_unat u del: of_nat_mult)
  have "k div 1024 < 255" using assms(2) by (simp add: div_less_iff_less_mult)
  then show "dir_index (of_nat (k * 4096)) \<noteq> 255" using dir_index_page[of "of_nat (k * 4096)"] k by auto
  have "unat ((of_nat (k * 4096) :: u32) div 4096) = k" by (simp add: unat_div u del: of_nat_mult)
  then show "(of_nat (k * 4096) :: u32) div 4096 \<noteq> 1" using assms(1) by auto
  show "of_nat (k * 4096) + VM_PAGE_SIZE = (of_nat (Suc k * 4096) :: u32)" by (simp add: VM_PAGE_SIZE_def)
qed

text \<open>
  A range of pages below the window: \<open>entry j\<close> is the new entry of page \<open>j\<close>; unmapping makes every entry 0.
\<close>

definition mapped_range :: "(nat \<Rightarrow> u32) \<Rightarrow> nat \<Rightarrow> nat \<Rightarrow> vm_state \<Rightarrow> vm_state \<Rightarrow> bool" where
  "mapped_range entry k n st st' \<longleftrightarrow> kernel_step st st' \<and>
     (\<forall>va. dir_index va \<noteq> 255 \<longrightarrow> entry_of (vm_mem st') kdir va =
        (if k \<le> page_of va \<and> page_of va < k + n then entry (page_of va) else entry_of (vm_mem st) kdir va))"

lemma mapped_outside:
  "mapped_range entry k n st st' \<Longrightarrow> dir_index va \<noteq> 255 \<Longrightarrow> \<not> (k \<le> page_of va \<and> page_of va < k + n) \<Longrightarrow>
   walk (vm_mem st') kdir va = walk (vm_mem st) kdir va"
  unfolding mapped_range_def walk_def by metis

lemma mapped_range_Suc:
  assumes "kernel_step st st1" "\<forall>va. dir_index va \<noteq> 255 \<longrightarrow> entry_of (vm_mem st1) kdir va =
      (if page_of va = k then entry k else entry_of (vm_mem st) kdir va)"
    "mapped_range entry (Suc k) n st1 st2"
  shows "mapped_range entry k (Suc n) st st2"
  using assms kernel_step_trans[of st st1 st2] unfolding mapped_range_def by auto

lemma mapPage_low:
  assumes "kernel_space st" "clean_frames st" "frames_left (vm_heap st) (Suc n)" "2 \<le> k" "k < 261120"
    "p \<noteq> 0 \<or> f = 0" "p mod 4096 = 0"
  obtains st' where "vm0_mapPage kdir p (of_nat (k * 4096)) f st = Inr ((), st')" "kernel_step st st'" "frames_left (vm_heap st') n"
    "clean_frames st'" "\<forall>va. dir_index va \<noteq> 255 \<longrightarrow> entry_of (vm_mem st') kdir va = (if page_of va = k then p OR f else entry_of (vm_mem st) kdir va)"
proof -
  note low = low_page[OF assms(4,5)]
  obtain st' where st': "vm0_mapPage_kernel p (of_nat (k * 4096)) f st = Inr ((), st')" "kernel_step st st'" "frames_left (vm_heap st') n"
    "\<And>va. dir_index va \<noteq> 255 \<Longrightarrow> entry_of (vm_mem st') kdir va =
       (if va div 4096 = of_nat (k * 4096) div 4096 then p OR f else entry_of (vm_mem st) kdir va)"
    using mapPage_clean[OF assms(1-3,6,7) low(2-5)] by metis
  show thesis
    using that[of st'] st' clean_step[OF assms(2) st'(2)] low(1) by (simp add: vm0_mapPage_def page_of_div)
qed

lemma map_range_low:
  assumes "kernel_space st" "clean_frames st" "frames_left (vm_heap st) (n + m)" "2 \<le> k" "k + n \<le> 261120"
    "p \<noteq> 0" "p mod 4096 = 0" "unat p + n * 4096 \<le> 4294967296"
  shows "\<exists>st'. map_range kdir p (of_nat (k * 4096)) n f st = Inr ((), st') \<and> frames_left (vm_heap st') m \<and>
    mapped_range (\<lambda>j. (p + of_nat ((j - k) * 4096)) OR f) k n st st'"
  using assms
proof (induction n arbitrary: st k p)
  case 0
  then show ?case using kernel_step_refl[of st] by (auto simp: mapped_range_def)
next
  case (Suc n)
  have k: "k < 261120" using Suc.prems(5) by simp
  obtain st1 where st1: "vm0_mapPage kdir p (of_nat (k * 4096)) f st = Inr ((), st1)" "kernel_step st st1" "frames_left (vm_heap st1) (n + m)"
    "clean_frames st1" "\<forall>va. dir_index va \<noteq> 255 \<longrightarrow> entry_of (vm_mem st1) kdir va = (if page_of va = k then p OR f else entry_of (vm_mem st) kdir va)"
    using mapPage_low[OF Suc.prems(1,2) Suc.prems(3)[unfolded add_Suc] Suc.prems(4) k _ Suc.prems(7), of f] Suc.prems(6) by blast
  show ?case
  proof (cases "n = 0")
    case True
    then show ?thesis using st1 by (auto simp: v_bind_def mapped_range_def)
  next
    case False
    let ?p = "p + VM_PAGE_SIZE"
    have u: "unat ?p = unat p + 4096" using Suc.prems(8) False by (subst unat_add_no_wrap) (auto simp: VM_PAGE_SIZE_def)
    have "unat p mod 4096 = 0" using Suc.prems(7) by (simp only: aligned_unat)
    then have "unat ?p mod 4096 = 0" by (simp add: u)
    then have p: "?p \<noteq> 0" "?p mod 4096 = 0" "unat ?p + n * 4096 \<le> 4294967296"
      using Suc.prems(8) u by (auto simp: aligned_unat)
    obtain st2 where st2: "map_range kdir ?p (of_nat (Suc k * 4096)) n f st1 = Inr ((), st2)" "frames_left (vm_heap st2) m"
      "mapped_range (\<lambda>j. (?p + of_nat ((j - Suc k) * 4096)) OR f) (Suc k) n st1 st2"
      using Suc.IH[OF kernel_stepD(1)[OF st1(2)] st1(4,3) _ _ p, of "Suc k"] Suc.prems(4,5) by auto
    have shift: "?p + of_nat ((j - Suc k) * 4096) = p + of_nat ((j - k) * 4096)" if "Suc k \<le> j" for j
    proof -
      have "j - k = Suc (j - Suc k)" using that by simp
      then have "(of_nat ((j - k) * 4096) :: u32) = VM_PAGE_SIZE + of_nat ((j - Suc k) * 4096)" by (simp only:) (simp add: VM_PAGE_SIZE_def)
      then show ?thesis by (simp only: add.assoc)
    qed
    have "mapped_range (\<lambda>j. (p + of_nat ((j - k) * 4096)) OR f) (Suc k) n st1 st2"
      using st2(3) shift unfolding mapped_range_def by auto
    then have "mapped_range (\<lambda>j. (p + of_nat ((j - k) * 4096)) OR f) k (Suc n) st st2"
      using mapped_range_Suc[OF st1(2) _, of k "\<lambda>j. (p + of_nat ((j - k) * 4096)) OR f"] st1(5) by simp
    moreover have "map_range kdir ?p (of_nat (k * 4096) + VM_PAGE_SIZE) n f st1 = Inr ((), st2)"
      using st2(1) by (simp only: low_page(6)[OF Suc.prems(4) k])
    ultimately show ?thesis using st1(1) st2(2) by (simp add: v_bind_def del: of_nat_mult)
  qed
qed

lemma unmap_range_low:
  assumes "kernel_space st" "clean_frames st" "frames_left (vm_heap st) n" "2 \<le> k" "k + n \<le> 261120"
  shows "\<exists>st'. unmap_range kdir (of_nat (k * 4096)) n st = Inr ((), st') \<and> mapped_range (\<lambda>_. 0) k n st st'"
  using assms
proof (induction n arbitrary: st k)
  case 0
  then show ?case using kernel_step_refl[of st] by (auto simp: mapped_range_def)
next
  case (Suc n)
  have k: "k < 261120" using Suc.prems(5) by simp
  obtain st1 where st1: "vm0_mapPage kdir 0 (of_nat (k * 4096)) 0 st = Inr ((), st1)" "kernel_step st st1" "frames_left (vm_heap st1) n"
    "clean_frames st1" "\<forall>va. dir_index va \<noteq> 255 \<longrightarrow> entry_of (vm_mem st1) kdir va = (if page_of va = k then 0 OR 0 else entry_of (vm_mem st) kdir va)"
    using mapPage_low[OF Suc.prems(1-4) k, of 0 0] by auto
  obtain st2 where st2: "unmap_range kdir (of_nat (Suc k * 4096)) n st1 = Inr ((), st2)" "mapped_range (\<lambda>_. 0) (Suc k) n st1 st2"
    using Suc.IH[OF kernel_stepD(1)[OF st1(2)] st1(4,3), of "Suc k"] Suc.prems(4,5) by auto
  have "mapped_range (\<lambda>_. 0) k (Suc n) st st2" using mapped_range_Suc[OF st1(2) _ st2(2)] st1(5) by simp
  moreover have "unmap_range kdir (of_nat (k * 4096) + VM_PAGE_SIZE) n st1 = Inr ((), st2)"
    using st2(1) by (simp only: low_page(6)[OF Suc.prems(4) k])
  ultimately show ?case using st1(1) by (simp add: v_bind_def del: of_nat_mult)
qed

section \<open>Allocating and freeing\<close>

text \<open>The lock is not read by the operations it protects.\<close>

lemma locked_ok:
  assumes "vm_spinlock st = 0" "f (st\<lparr>vm_spinlock := 1\<rparr>) = Inr (r, st')" "vm_spinlock st' = 1"
  shows "locked f st = Inr (r, st'\<lparr>vm_spinlock := 0\<rparr>)"
  using assms by (simp add: locked_def v_bind_def vm_lock_def vm_unlock_def)

lemma space_spinlock [simp]: "kernel_space (st\<lparr>vm_spinlock := x\<rparr>) = kernel_space st" "clean_frames (st\<lparr>vm_spinlock := x\<rparr>) = clean_frames st"
  "ktables (st\<lparr>vm_spinlock := x\<rparr>) = ktables st"
  by (simp_all add: kernel_space_def pde_def clean_frames_def ktables_def)

lemma mapped_range_spinlock:
  "mapped_range entry k n (st\<lparr>vm_spinlock := x\<rparr>) st' \<Longrightarrow> vm_spinlock st = y \<Longrightarrow> mapped_range entry k n st (st'\<lparr>vm_spinlock := y\<rparr>)"
  by (simp add: mapped_range_def kernel_step_def)

lemma search_low:
  assumes "kernel_space st" "0 < pages" "1 \<le> b" "b + unat pages \<le> 261120" "free_run (page_free (vm_mem st) kdir) b (unat pages)"
  obtains a where "vm0_findFreePages_kernel pages VM_LOWER_LIMIT VM_UPPER_LIMIT st = Inr (of_nat (a * 4096), st)" "2 \<le> a" "a \<le> b"
    "free_run (page_free (vm_mem st) kdir) a (unat pages)" "\<forall>b. 1 \<le> b \<longrightarrow> b < a \<longrightarrow> \<not> free_run (page_free (vm_mem st) kdir) b (unat pages)"
proof -
  let ?F = "page_free (vm_mem st) kdir"
  have "present (pde st (dir_index VM_LOWER_LIMIT))"
    using kernel_spaceD(3)[OF assms(1)] kdir_indices(1) by (simp add: VM_LOWER_LIMIT_def VM_KERNEL_DIRECTORY_ADDRESS_def)
  then obtain r where r: "vm0_findFreePages_kernel pages VM_LOWER_LIMIT VM_UPPER_LIMIT st = Inr (r, st)" "found_pages ?F 1 VM_UPPER_LIMIT (unat pages) r"
    using kernel_search.search_first_fit[of st st pages VM_LOWER_LIMIT VM_UPPER_LIMIT] assms(1,2)
    by (auto simp: vm0_findFreePages_kernel_def VM_LOWER_LIMIT_def VM_UPPER_LIMIT_def)
  have "(b + unat pages) * 4096 \<le> unat VM_UPPER_LIMIT"
    using mult_right_mono[OF assms(4), of 4096] by (simp add: VM_UPPER_LIMIT_def)
  then have "r \<noteq> 0" using r(2) assms(3,5) unfolding found_pages_def by auto
  then obtain a where a: "1 \<le> a" "unat r = a * 4096" "free_run ?F a (unat pages)" "\<forall>b. 1 \<le> b \<longrightarrow> b < a \<longrightarrow> \<not> free_run ?F b (unat pages)"
    using r(2) unfolding found_pages_def by auto
  have le: "a \<le> b" using a(4) assms(3,5) by (meson not_le)
  have "\<not> ?F 1"
  proof -
    have "entry_of (vm_mem st) kdir kdir = kdir OR VM_FLAGS_KERNEL"
      using kernel_spaceD(3,4)[OF assms(1)] by (simp add: entry_of_pde kdir_indices entry_at_def)
    then show ?thesis using kdir_self(2) by (simp add: page_free_def VM_KERNEL_DIRECTORY_ADDRESS_def)
  qed
  moreover have "?F a" using a(3) assms(2) unfolding free_run_def by (metis add_0_right word_less_nat_alt unat_0)
  ultimately have "2 \<le> a" using a(1) by (cases "a = 1") auto
  moreover have "r = of_nat (unat r)" by simp
  then have "r = of_nat (a * 4096)" by (simp only: a(2))
  ultimately show thesis using that r(1) le a(3,4) by blast
qed

lemma aligned_add: "p mod 4096 = 0 \<Longrightarrow> (p + of_nat (i * 4096)) mod 4096 = 0" for p :: u32
proof -
  assume "p mod 4096 = 0"
  from alignedE[OF this] obtain q where q: "unat p = 4096 * q" by blast
  have "unat (p + of_nat (i * 4096)) mod 4096 = (4096 * q + i * 4096 mod 4294967296) mod 4294967296 mod 4096"
    by (simp only: unat_word_ariths(1) q unat_of_nat) simp
  also have "\<dots> = (4096 * q + i * 4096) mod 4096" by (simp add: mod_mod_cancel mod_add_right_eq)
  finally show ?thesis by (simp add: aligned_unat)
qed

lemma entry_of_page: "entry_of mem dir (of_nat (page_of va * 4096)) = entry_of mem dir va"
proof -
  have "of_nat (page_of va * 4096) = base_of va" by (simp only: page_of_def base_of_unat[symmetric]) simp
  moreover have "base_of va div 4096 = va div 4096" by (simp add: word_unat_eq_iff unat_div base_of_unat)
  ultimately show ?thesis using page_eq[of "base_of va" va] by (simp add: entry_of_def Let_def)
qed

definition below_window :: "nat \<Rightarrow> u32 \<Rightarrow> nat \<Rightarrow> bool" where
  "below_window k r n \<longleftrightarrow> 2 \<le> k \<and> r = of_nat (k * 4096) \<and> k + n \<le> 261120"

text \<open>
  Allocating pages in the kernel when there is room below the window of the tables: the pages are the first
  run of free pages, they lead to the frames asked for, and no other page changes. The allocator of frames has to
  deliver a frame for every table that is missing, and free frames have to be clean.
\<close>

lemma vm_alloc_kernel_maps:
  assumes "kernel_space st" "clean_frames st" "frames_left (vm_heap st) (unat pages + m)" "vm_spinlock st = 0"
    "0 < pages" "1 \<le> b" "b + unat pages \<le> 261120" "free_run (page_free (vm_mem st) kdir) b (unat pages)"
    "p \<noteq> 0" "p mod 4096 = 0" "unat p + unat pages * 4096 \<le> 4294967296"
  shows "\<exists>k st'. vm_alloc kdir p pages f st = Inr (of_nat (k * 4096), st') \<and> below_window k (of_nat (k * 4096)) (unat pages) \<and>
     free_run (page_free (vm_mem st) kdir) k (unat pages) \<and>
     (\<forall>b. 1 \<le> b \<longrightarrow> b < k \<longrightarrow> \<not> free_run (page_free (vm_mem st) kdir) b (unat pages)) \<and>
     frames_left (vm_heap st') m \<and> mapped_range (\<lambda>j. (p + of_nat ((j - k) * 4096)) OR f) k (unat pages) st st'"
proof -
  let ?st = "st\<lparr>vm_spinlock := 1\<rparr>"
  obtain k where k: "vm0_findFreePages_kernel pages VM_LOWER_LIMIT VM_UPPER_LIMIT ?st = Inr (of_nat (k * 4096), ?st)" "2 \<le> k" "k \<le> b"
    "free_run (page_free (vm_mem st) kdir) k (unat pages)" "\<forall>b. 1 \<le> b \<longrightarrow> b < k \<longrightarrow> \<not> free_run (page_free (vm_mem st) kdir) b (unat pages)"
    using search_low[of ?st pages b] assms(1,5-8) by auto
  have kw: "k + unat pages \<le> 261120" "k < 261120" using k(3) assms(5,7) by (auto simp: word_less_nat_alt)
  obtain st' where st': "map_range kdir p (of_nat (k * 4096)) (unat pages) f ?st = Inr ((), st')" "frames_left (vm_heap st') m"
    "mapped_range (\<lambda>j. (p + of_nat ((j - k) * 4096)) OR f) k (unat pages) ?st st'"
    using map_range_low[of ?st "unat pages" m k p f] assms(1-3,9-11) k(2) kw(1) by auto
  have nz: "(of_nat (k * 4096) :: u32) \<noteq> 0" by (rule low_page(2)[OF k(2) kw(2)])
  have "allocLimit_in kdir p pages VM_LOWER_LIMIT VM_UPPER_LIMIT f ?st = Inr (of_nat (k * 4096), st')"
    using k(1) st'(1) nz by (simp add: allocLimit_in_def v_bind_def vm0_findFreePages_def vm0_mapPageRange_def del: of_nat_mult)
  then have "vm_alloc kdir p pages f st = Inr (of_nat (k * 4096), st'\<lparr>vm_spinlock := 0\<rparr>)"
    using locked_ok[OF assms(4), of "v_bind (allocLimit_in kdir p pages VM_LOWER_LIMIT VM_UPPER_LIMIT f) (\<lambda>v. v_bind (v_return ()) (\<lambda>_. v_return v))"]
      st'(3) by (simp add: vm_alloc_def vm_allocLimit_def v_bind_def mapped_range_def kernel_step_def del: of_nat_mult)
  moreover have "mapped_range (\<lambda>j. (p + of_nat ((j - k) * 4096)) OR f) k (unat pages) st (st'\<lparr>vm_spinlock := 0\<rparr>)"
    using mapped_range_spinlock[OF st'(3) assms(4)] .
  ultimately show ?thesis using k kw(1) st'(2) by (auto simp: below_window_def)
qed

lemma vm_free_kernel_unmaps:
  assumes "kernel_space st" "clean_frames st" "frames_left (vm_heap st) (unat pages)" "vm_spinlock st = 0" "below_window k va (unat pages)"
  shows "\<exists>st'. vm_free kdir va pages st = Inr ((), st') \<and> mapped_range (\<lambda>_. 0) k (unat pages) st st'"
proof -
  let ?st = "st\<lparr>vm_spinlock := 1\<rparr>"
  obtain st' where st': "unmap_range kdir va (unat pages) ?st = Inr ((), st')" "mapped_range (\<lambda>_. 0) k (unat pages) ?st st'"
    using unmap_range_low[of ?st "unat pages" k] assms by (auto simp: below_window_def)
  have "vm_free kdir va pages st = Inr ((), st'\<lparr>vm_spinlock := 0\<rparr>)"
    using locked_ok[OF assms(4), of "v_bind (unmap_range kdir va (unat pages)) (\<lambda>_. v_return ())"] st'
    by (simp add: vm_free_def v_bind_def mapped_range_def kernel_step_def)
  then show ?thesis using mapped_range_spinlock[OF st'(2) assms(4)] by blast
qed



text \<open>
  C6. A page in a region without a table: the new table gets its entry, but only the first 256 entries are cleared. Every
  later page of the region is mapped as the old contents of the frame say.
\<close>

theorem mapPage_stale_entries:
  assumes "kernel_space st" "mappable st va" "\<not> present (pde st (dir_index va))" "p \<noteq> 0" "p mod 4096 = 0" "f < 4096" "present f"
  shows "\<exists>st'. vm0_mapPage kdir p va f st = Inr ((), st') \<and> kernel_space st' \<and> walk (vm_mem st') kdir va = Some (p + va mod 4096) \<and>
    (\<forall>va'. dir_index va' = dir_index va \<longrightarrow> va' div 4096 \<noteq> va div 4096 \<longrightarrow>
       entry_of (vm_mem st') kdir va' =
         (if table_index va' < 256 then 0 else vm_mem st (fst (pm_alloc (vm_heap st) 1) + 4 * table_index va'))) \<and>
    (\<forall>va'. dir_index va' \<noteq> 255 \<longrightarrow> dir_index va' \<noteq> dir_index va \<longrightarrow> walk (vm_mem st') kdir va' = walk (vm_mem st) kdir va')"
proof -
  obtain st' where st': "vm0_mapPage_kernel p va f st = Inr ((), st')" "kernel_step st st'"
    "\<forall>va'. dir_index va' \<noteq> 255 \<longrightarrow> entry_of (vm_mem st') kdir va' =
       (if va' div 4096 = va div 4096 then p OR f
        else if dir_index va' = dir_index va \<and> \<not> present (pde st (dir_index va)) then fresh_entry st (table_index va')
        else entry_of (vm_mem st) kdir va')"
    using mapPage_kernel_ok[OF assms(1,2) _ assms(5), of f] assms(4) by blast
  have d: "dir_index va \<noteq> 255" using assms(2) by (simp add: mappable_def)
  have "walk (vm_mem st') kdir va = Some (p + va mod 4096)" using st'(3) d entry_or[OF assms(5,6)] assms(7) by (simp add: walk_def)
  moreover have "walk (vm_mem st') kdir va' = walk (vm_mem st) kdir va'" if "dir_index va' \<noteq> 255" "dir_index va' \<noteq> dir_index va" for va'
  proof -
    have "va' div 4096 \<noteq> va div 4096" using that(2) by (auto simp: dir_index_def)
    then show ?thesis using st'(3) that by (simp add: walk_def)
  qed
  ultimately show ?thesis
    using st' d assms(3) kernel_stepD(1)[OF st'(2)] by (auto simp: vm0_mapPage_def fresh_entry_def)
qed

section \<open>A sample address space\<close>

text \<open>Table 0 lies in frame 16 and maps only the directory; frames 4 to 7 are free and clean.\<close>

definition sample_space :: vm_state where
  "sample_space = \<lparr>vm_mem = (\<lambda>_. 0)(0x1000 := 0x10007, 0x13FC := 0x1003, 0x10004 := 0x1003), vm_paging = True,
     vm_heap = (\<lambda>_. 0)(0 := 0xF0), vm_spinlock = 0\<rparr>"

lemma sample_pde: "t < 1024 \<Longrightarrow> pde sample_space t = (if t = 0 then 0x10007 else if t = 255 then 0x1003 else 0)"
proof -
  assume t: "t < 1024"
  have "kdir + 4 * t = 0x1000 \<longleftrightarrow> t = 0" using slot_inj[of kdir kdir t 0] t by (simp add: VM_KERNEL_DIRECTORY_ADDRESS_def)
  moreover have "kdir + 4 * t = 0x13FC \<longleftrightarrow> t = 255" using slot_inj[of kdir kdir t 255] t by (simp add: VM_KERNEL_DIRECTORY_ADDRESS_def)
  moreover have "kdir + 4 * t \<noteq> 0x10004" using slot_inj[of kdir "0x10000" t 1] t by (simp add: VM_KERNEL_DIRECTORY_ADDRESS_def)
  ultimately show ?thesis by (auto simp: pde_def sample_space_def)
qed

lemma sample_entries:
  "present 0x10007" "present 0x1003" "base_of 0x10007 = 0x10000" "base_of 0x1003 = kdir" "kdir OR VM_FLAGS_KERNEL = 0x1003"
  "frame_of 0x10000 = 16" "frame_of kdir = 1"
  by (simp_all add: present_def base_of_def vm_consts frame_of_def)

lemma sample_free: "frame_free (vm_heap sample_space) k \<longleftrightarrow> 4 \<le> k \<and> k < 8"
  by (auto simp: sample_space_def single_word_free bits_from_4)

lemma sample_kernel_space: "kernel_space sample_space" "clean_frames sample_space"
proof -
  have "vm_mem sample_space 0x10004 = 0x1003" by (simp add: sample_space_def)
  moreover have "kdir \<noteq> 0x10000" by (simp add: VM_KERNEL_DIRECTORY_ADDRESS_def)
  ultimately show "kernel_space sample_space"
    unfolding kernel_space_def
    by (auto simp: sample_pde sample_entries sample_free) (simp add: sample_space_def)
  show "clean_frames sample_space"
    unfolding clean_frames_def sample_free by (auto simp: sample_space_def frame_of_def)
qed

lemma sample_frames_left: "frames_left (vm_heap sample_space) (Suc (Suc 0))"
proof -
  let ?heap = "(\<lambda>_. 0)(0 := 0xF0 :: u32)"
  obtain heap1 where h1: "pm_alloc ?heap 1 = (0x4000, heap1)"
    using example_alloc[of 0 1 1] by (auto simp: frame_of_def pm_alloc_is_allocLimit)
  have f1: "frame_free heap1 k \<longleftrightarrow> 5 \<le> k \<and> k < 8" for k
    using pm_alloc_1(3)[OF h1, of k] by (auto simp: single_word_free bits_from_4 frame_of_def)
  have "first_run heap1 0 (Suc (unat (1 :: u32))) 5"
    by (rule first_run_at) (auto simp: f1 free_run_def)
  then have "fst (pm_alloc heap1 1) = 0x5000"
    using pm_allocLimit_at[of heap1 0 5 1] f1 by (simp add: frame_of_def pm_alloc_is_allocLimit)
  then show ?thesis using h1 by (simp add: sample_space_def)
qed

lemma sample_frames_left_2: "frames_left (vm_heap sample_space) 2"
  using sample_frames_left by (simp only: numeral_2_eq_2)

lemma sample_page_free: "2 \<le> k \<Longrightarrow> k < 1024 \<Longrightarrow> page_free (vm_mem sample_space) kdir k"
proof -
  assume k: "2 \<le> k" "k < 1024"
  have i: "unat (of_nat k :: u32) = k" using k by (simp add: unat_of_nat)
  have "dir_index (of_nat (k * 4096)) = 0" "table_index (of_nat (k * 4096)) = of_nat k"
    using page_indices[of 0 "of_nat k"] of_nat_less_1024[OF k(2)] i by simp_all
  moreover have "entry_at sample_space 0 (of_nat k) \<noteq> 0x10004" "entry_at sample_space 0 (of_nat k) \<noteq> 0x1000" "entry_at sample_space 0 (of_nat k) \<noteq> 0x13FC"
    using slot_inj[of "0x10000" "0x10000" "of_nat k" 1] slot_inj[of "0x10000" kdir "of_nat k" 0] slot_inj[of "0x10000" kdir "of_nat k" 255]
      of_nat_less_1024[OF k(2)] i k(1)
    by (auto simp: entry_at_def sample_pde sample_entries VM_KERNEL_DIRECTORY_ADDRESS_def)
  ultimately show ?thesis
    by (simp add: page_free_def entry_of_pde del: of_nat_mult) (simp add: sample_space_def)
qed



theorem mapPage_stale_entries_witness:
  "\<exists>st'. vm0_mapPage kdir 0x7000 0x400000 VM_FLAGS_KERNEL sample_space = Inr ((), st') \<and> walk (vm_mem st') kdir 0x400000 = Some 0x7000"
proof -
  have "fst (pm_alloc (vm_heap sample_space) 1) \<noteq> 0" using sample_frames_left by simp
  then have "mappable sample_space 0x400000" by (simp add: mappable_def dir_index_def sample_pde)
  then show ?thesis
    using mapPage_stale_entries[OF sample_kernel_space(1), of "0x400000" "0x7000" VM_FLAGS_KERNEL]
    by (auto simp: sample_pde dir_index_def vm_consts present_def)
qed

end
