(* ===== verification/Heap.thy ===== *)
theory Heap
  imports PMemory
begin

text \<open>
  \<^verbatim>\<open>src/sys/memory/heap.c\<close>, the heap of the kernel, and its copy \<^verbatim>\<open>src/lib/libc/sys/zone.c\<close> with \<^verbatim>\<open>malloc.c\<close> in user programs.
  A heap is a list of zones, runs of pages whose first page holds the records of the blocks in the other ones. The
  records are a list, and the linked list of zones is a list as well. The address of a new zone comes from the page
  allocator and is an argument; the contents of the blocks are not modelled.
\<close>

section \<open>Model\<close>

datatype heap_zone_type = heap_zone_typeTiny | heap_zone_typeSmall | heap_zone_typeMedium | heap_zone_typeLarge

definition kHeapAllocationExtraPadding :: u32 where "kHeapAllocationExtraPadding = 16"

datatype allocation_type = kZoneAllocationTypeFree | kZoneAllocationTypeUsed | kZoneAllocationTypeUnused

text \<open>
  A record of either kind. In tiny zones the size has 8 bits and \<open>za_place\<close> is the 16-bit offset of the block,
  otherwise it is its address.
\<close>

record zone_allocation =
  za_type :: allocation_type
  za_size :: u32
  za_place :: u32

record heap_zone =
  z_type :: heap_zone_type
  z_changes :: u32
  z_begin :: u32
  z_end :: u32
  z_freeSize :: u32
  z_pages :: u32
  z_maxAllocations :: u32
  z_freeAllocations :: u32
  z_allocations :: u32
  z_records :: "zone_allocation list"

definition kHeapFlagSecure :: u32 where "kHeapFlagSecure = 1"

definition kHeapFlagAligned :: u32 where "kHeapFlagAligned = 2"

record heap_t =
  h_flags :: u32
  h_lock :: spinlock
  h_zones :: "heap_zone list"

text \<open>\<open>page\<close> is the result of allocating one page.\<close>

definition heap_create :: "ptr \<Rightarrow> u32 \<Rightarrow> heap_t option" where
  "heap_create page flgs = (if page = 0 then None else Some \<lparr>h_flags = flgs, h_lock = SPINLOCK_INIT, h_zones = []\<rparr>)"

text \<open>The address of a zone is the page before its blocks. The results are the page runs that are released.\<close>

definition zone_address :: "heap_zone \<Rightarrow> ptr" where
  "zone_address zone = z_begin zone - 4096"

definition heap_destroy :: "ptr \<Rightarrow> heap_t \<Rightarrow> (ptr \<times> u32) list" where
  "heap_destroy self heap = map (\<lambda>zone. (zone_address zone, z_pages zone)) (h_zones heap) @ [(self, 1)]"

definition heap_zoneTypeForSize :: "u32 \<Rightarrow> heap_zone_type" where
  "heap_zoneTypeForSize n =
     (if n > 2048 then heap_zone_typeLarge
      else if n > 256 then heap_zone_typeMedium
      else if n > 64 then heap_zone_typeSmall
      else heap_zone_typeTiny)"

definition zone_pages :: "u32 \<Rightarrow> u32" where
  "zone_pages n =
     (case heap_zoneTypeForSize n of
        heap_zone_typeTiny \<Rightarrow> 1
      | heap_zone_typeSmall \<Rightarrow> 5
      | heap_zone_typeMedium \<Rightarrow> 20
      | heap_zone_typeLarge \<Rightarrow> VM_PAGE_COUNT n)"

text \<open>
  The sizes of \<^verbatim>\<open>heap_zone_t\<close> and of the two kinds of records, and the number of records the loops from
  \<^verbatim>\<open>firstAllocation\<close> to \<^verbatim>\<open>lastAllocation\<close> visit.
\<close>

definition sizeof_heap_zone :: nat where "sizeof_heap_zone = 52"

definition sizeof_allocation :: "heap_zone_type \<Rightarrow> nat" where
  "sizeof_allocation type = (if type = heap_zone_typeTiny then 4 else 12)"

definition max_allocations :: "heap_zone_type \<Rightarrow> nat" where
  "max_allocations type = (4096 - sizeof_heap_zone) div sizeof_allocation type"

definition record_count :: "heap_zone_type \<Rightarrow> nat" where
  "record_count type =
     (let n = sizeof_allocation type in (max_allocations type * n - sizeof_heap_zone + n - 1) div n)"

fun tiny_records :: "nat \<Rightarrow> u32 \<Rightarrow> u16 \<Rightarrow> zone_allocation list" where
  "tiny_records 0 sizeLeft offset = []"
| "tiny_records (Suc n) sizeLeft offset =
     (if sizeLeft > 0 then
        (let sz = ucast (ucast (min sizeLeft 255) :: u8) in
         \<lparr>za_type = kZoneAllocationTypeFree, za_size = sz, za_place = ucast offset\<rparr> # tiny_records n (sizeLeft - sz) (offset + ucast sz))
      else \<lparr>za_type = kZoneAllocationTypeUnused, za_size = 0, za_place = 0xFFFF\<rparr> # tiny_records n sizeLeft offset)"

definition count_type :: "(allocation_type \<Rightarrow> bool) \<Rightarrow> zone_allocation list \<Rightarrow> nat" where
  "count_type P rs = length (filter (\<lambda>r. P (za_type r)) rs)"

text \<open>The zone that is created.\<close>

definition new_records :: "ptr \<Rightarrow> u32 \<Rightarrow> zone_allocation list" where
  "new_records address n =
     (let type = heap_zoneTypeForSize n; freeSize = zone_pages n * 4096 in
      if type = heap_zone_typeTiny then tiny_records (record_count type) freeSize 0
      else \<lparr>za_type = kZoneAllocationTypeFree, za_size = freeSize, za_place = address + 4096\<rparr> #
        replicate (record_count type - 1) \<lparr>za_type = kZoneAllocationTypeUnused, za_size = 0, za_place = 0\<rparr>)"

definition new_zone :: "ptr \<Rightarrow> u32 \<Rightarrow> heap_zone" where
  "new_zone address n =
     (let type = heap_zoneTypeForSize n; pages = zone_pages n; rs = new_records address n;
          free = of_nat (count_type (\<lambda>t. t = kZoneAllocationTypeFree) rs)
      in \<lparr>z_type = type, z_changes = 0, z_begin = address + 4096, z_end = address + pages * 4096 + 4096,
          z_freeSize = pages * 4096, z_pages = pages + 1, z_maxAllocations = of_nat (max_allocations type),
          z_freeAllocations = free, z_allocations = free, z_records = rs\<rparr>)"

definition heap_createZoneForSize :: "ptr \<Rightarrow> heap_t \<Rightarrow> u32 \<Rightarrow> heap_t result" where
  "heap_createZoneForSize address heap n =
     (if address = 0 then Inl Assertion else Inr (heap\<lparr>h_zones := new_zone address n # h_zones heap\<rparr>))"

fun find_record :: "(zone_allocation \<Rightarrow> bool) \<Rightarrow> nat \<Rightarrow> zone_allocation list \<Rightarrow> nat option" where
  "find_record P i [] = None"
| "find_record P i (r # rs) = (if P r then Some i else find_record P (Suc i) rs)"

definition required_size :: "heap_t \<Rightarrow> u32 \<Rightarrow> u32" where
  "required_size heap n =
     (let padding = (if h_flags heap AND kHeapFlagAligned \<noteq> 0 then n mod 4 else 0) in n + padding + kHeapAllocationExtraPadding)"

text \<open>The index of the zone and of the record.\<close>

fun find_zone :: "heap_zone_type \<Rightarrow> u32 \<Rightarrow> u32 \<Rightarrow> nat \<Rightarrow> heap_zone list \<Rightarrow> (nat \<times> nat) option" where
  "find_zone type n required i [] = None"
| "find_zone type n required i (zone # zones) =
     (case (if z_type zone = type \<and> z_freeSize zone \<ge> n \<and> z_allocations zone < z_maxAllocations zone
            then find_record (\<lambda>r. za_type r = kZoneAllocationTypeFree \<and> za_size r \<ge> required) 0 (z_records zone)
            else None) of
        Some j \<Rightarrow> Some (i, j)
      | None \<Rightarrow> find_zone type n required (Suc i) zones)"

definition heap_zoneForSize :: "ptr \<Rightarrow> heap_t \<Rightarrow> u32 \<Rightarrow> (nat \<times> nat \<times> heap_t) result" where
  "heap_zoneForSize address heap n =
     (let type = heap_zoneTypeForSize n in
      case (if type \<noteq> heap_zone_typeLarge then find_zone type n (required_size heap n) 0 (h_zones heap) else None) of
        Some (i, j) \<Rightarrow> Inr (i, j, heap)
      | None \<Rightarrow> bind_res (heap_createZoneForSize address heap n) (\<lambda>heap. Inr (0, 0, heap)))"

definition block_address :: "heap_zone \<Rightarrow> zone_allocation \<Rightarrow> u32" where
  "block_address zone r = (if z_type zone = heap_zone_typeTiny then z_begin zone + za_place r else za_place r)"

definition heap_zoneFindAllocationWithPointer :: "heap_zone \<Rightarrow> u32 \<Rightarrow> nat option" where
  "heap_zoneFindAllocationWithPointer zone pointer =
     find_record (\<lambda>r. block_address zone r = pointer \<and> za_type r = kZoneAllocationTypeUsed) 0 (z_records zone)"

fun heap_findZoneWithAllocation :: "nat \<Rightarrow> heap_zone list \<Rightarrow> u32 \<Rightarrow> (nat \<times> nat) option" where
  "heap_findZoneWithAllocation i [] pointer = None"
| "heap_findZoneWithAllocation i (zone # zones) pointer =
     (if pointer \<ge> z_begin zone \<and> pointer < z_end zone then
        (case heap_zoneFindAllocationWithPointer zone pointer of Some j \<Rightarrow> Some (i, j) | None \<Rightarrow> None)
      else heap_findZoneWithAllocation (Suc i) zones pointer)"

definition heap_zoneGetUnusedAllocation :: "heap_zone \<Rightarrow> nat option" where
  "heap_zoneGetUnusedAllocation zone = find_record (\<lambda>r. za_type r = kZoneAllocationTypeUnused) 0 (z_records zone)"

text \<open>What a record of the zone holds after a store: the fields of tiny records are narrow.\<close>

definition make_record :: "heap_zone \<Rightarrow> allocation_type \<Rightarrow> u32 \<Rightarrow> u32 \<Rightarrow> zone_allocation" where
  "make_record zone type sz place =
     (if z_type zone = heap_zone_typeTiny
      then \<lparr>za_type = type, za_size = ucast (ucast sz :: u8), za_place = ucast (ucast place :: u16)\<rparr>
      else \<lparr>za_type = type, za_size = sz, za_place = place\<rparr>)"

definition heap_useAllocation :: "heap_t \<Rightarrow> heap_zone \<Rightarrow> nat \<Rightarrow> u32 \<Rightarrow> u32 \<times> heap_zone" where
  "heap_useAllocation heap zone i n =
     (let required = required_size heap n; r = z_records zone ! i;
          zone = zone\<lparr>z_records := (z_records zone)[i := r\<lparr>za_type := kZoneAllocationTypeUsed\<rparr>]\<rparr>;
          zone =
            (if za_size r > required then
               (case heap_zoneGetUnusedAllocation zone of
                  None \<Rightarrow> zone
                | Some j \<Rightarrow>
                    zone\<lparr>z_records := (z_records zone)[j := make_record zone kZoneAllocationTypeFree (za_size r - required) (za_place r + required),
                             i := make_record zone kZoneAllocationTypeUsed required (za_place r)],
                         z_freeAllocations := z_freeAllocations zone + 1, z_allocations := z_allocations zone + 1\<rparr>)
             else zone)
      in (block_address zone r, zone\<lparr>z_freeAllocations := z_freeAllocations zone - 1\<rparr>))"

definition heap_freeAllocation :: "heap_zone \<Rightarrow> nat \<Rightarrow> heap_zone" where
  "heap_freeAllocation zone i =
     (let r = z_records zone ! i in
      zone\<lparr>z_records := (z_records zone)[i := r\<lparr>za_type := kZoneAllocationTypeFree\<rparr>], z_freeSize := z_freeSize zone + za_size r,
           z_freeAllocations := z_freeAllocations zone + 1, z_changes := z_changes zone + 1\<rparr>)"

lemma find_record_SomeD: "find_record P i rs = Some j \<Longrightarrow> i \<le> j \<and> j - i < length rs \<and> P (rs ! (j - i))"
proof (induction rs arbitrary: i)
  case (Cons r rs)
  show ?case
  proof (cases "P r")
    case False
    with Cons.prems Cons.IH[of "Suc i"] show ?thesis by (auto simp: nth_Cons' Suc_diff_le)
  qed (use Cons.prems in auto)
qed simp

lemma find_record_NoneD: "find_record P i rs = None \<Longrightarrow> r \<in> set rs \<Longrightarrow> \<not> P r"
  by (induction rs arbitrary: i) (auto split: if_splits)

text \<open>The loop over one record of \<^verbatim>\<open>__heap_zoneDefragment\<close>.\<close>

function merge_following :: "nat \<Rightarrow> heap_zone \<Rightarrow> heap_zone" where
  "merge_following i zone =
     (let r = z_records zone ! i in
      if za_type r \<noteq> kZoneAllocationTypeFree then zone
      else
        (case heap_zoneFindAllocationWithPointer zone (block_address zone r + za_size r) of
           None \<Rightarrow> zone
         | Some j \<Rightarrow>
             (let nxt = z_records zone ! j in
              if za_type nxt \<noteq> kZoneAllocationTypeFree then zone
              else if z_type zone = heap_zone_typeTiny \<and> za_size r + za_size nxt > 255 then zone
              else merge_following i
                (zone\<lparr>z_records := (let rs = (z_records zone)[i := r\<lparr>za_size := za_size r + za_size nxt\<rparr>]
                          in rs[j := (rs ! j)\<lparr>za_type := kZoneAllocationTypeUnused, za_place := 0\<rparr>]),
                      z_allocations := z_allocations zone - 1, z_freeAllocations := z_freeAllocations zone - 1\<rparr>))))"
  by pat_completeness auto

text \<open>The recursive call is never reached: what the search finds is in use.\<close>

termination
  by (relation "{}") (auto simp: heap_zoneFindAllocationWithPointer_def dest: find_record_SomeD)

declare merge_following.simps [simp del]

definition heap_zoneDefragment :: "heap_zone \<Rightarrow> heap_zone" where
  "heap_zoneDefragment zone =
     (let changeThreshold = (if z_type zone = heap_zone_typeTiny then 100 else 20) in
      if z_changes zone \<ge> changeThreshold \<and> z_freeAllocations zone \<ge> 2
      then (fold merge_following [0..<length (z_records zone)] zone)\<lparr>z_changes := 0\<rparr>
      else zone)"

text \<open>
  \<open>halloc address heap n\<close>: \<open>address\<close> is what \<^verbatim>\<open>mm_alloc\<close> returns, should a zone be created. Clearing the block of a
  secure heap touches its first \<open>n\<close> bytes and leaves the heap as it is.
\<close>

definition halloc :: "ptr \<Rightarrow> heap_t \<Rightarrow> u32 \<Rightarrow> (ptr \<times> heap_t) result" where
  "halloc address heap n =
     bind_res (spinlock_lock (h_lock heap)) (\<lambda>l.
     bind_res (heap_zoneForSize address (heap\<lparr>h_lock := l\<rparr>) n) (\<lambda>(i, j, heap).
     let (pointer, zone) = heap_useAllocation heap (h_zones heap ! i) j n in
     bind_res (check Assertion (pointer \<noteq> 0)) (\<lambda>_.
     Inr (pointer, heap\<lparr>h_zones := (h_zones heap)[i := zone], h_lock := spinlock_unlock (h_lock heap)\<rparr>))))"

definition heap_destroyZone :: "heap_t \<Rightarrow> nat \<Rightarrow> heap_t \<times> ptr \<times> u32" where
  "heap_destroyZone heap i =
     (let zone = h_zones heap ! i in
      (heap\<lparr>h_zones := take i (h_zones heap) @ drop (Suc i) (h_zones heap)\<rparr>, zone_address zone, z_pages zone))"

text \<open>The result has the run of pages that is released, if any.\<close>

definition hfree :: "heap_t \<Rightarrow> ptr \<Rightarrow> (heap_t \<times> (ptr \<times> u32) option) result" where
  "hfree heap pointer =
     bind_res (spinlock_lock (h_lock heap)) (\<lambda>l.
     let heap = heap\<lparr>h_lock := l\<rparr> in
     case heap_findZoneWithAllocation 0 (h_zones heap) pointer of
       None \<Rightarrow> Inl KernelPanic
     | Some (i, j) \<Rightarrow>
         (let zone = h_zones heap ! i in
          if z_allocations zone = z_freeAllocations zone + 1 then
            (let (heap, run) = heap_destroyZone heap i in Inr (heap\<lparr>h_lock := spinlock_unlock (h_lock heap)\<rparr>, Some run))
          else
            (let zone = heap_zoneDefragment (heap_freeAllocation zone j) in
             Inr (heap\<lparr>h_zones := (h_zones heap)[i := zone], h_lock := spinlock_unlock (h_lock heap)\<rparr>, None))))"

text \<open>The kernel heap and whether it could be created.\<close>

definition heap_init :: "ptr \<Rightarrow> heap_t option \<times> bool" where
  "heap_init page = (let kernelHeap = heap_create page kHeapFlagAligned in (kernelHeap, kernelHeap \<noteq> None))"

section \<open>The invariant\<close>

text \<open>The blocks of the records that are not unused lie in the zone and do not overlap; the counters are right.\<close>

definition span :: "zone_allocation \<Rightarrow> nat set" where
  "span r = {unat (za_place r)..<unat (za_place r) + unat (za_size r)}"

definition is_block :: "zone_allocation \<Rightarrow> bool" where
  "is_block r \<longleftrightarrow> za_type r \<noteq> kZoneAllocationTypeUnused"

definition zone_low :: "heap_zone \<Rightarrow> nat" where
  "zone_low zone = (if z_type zone = heap_zone_typeTiny then 0 else unat (z_begin zone))"

definition zone_high :: "heap_zone \<Rightarrow> nat" where
  "zone_high zone = (if z_type zone = heap_zone_typeTiny then 4096 else unat (z_end zone))"

definition zone_frame :: "heap_zone \<Rightarrow> bool" where
  "zone_frame zone \<longleftrightarrow> 4096 \<le> unat (z_begin zone) \<and> unat (z_begin zone) + 4096 * (unat (z_pages zone) - 1) = unat (z_end zone) \<and>
     1 < unat (z_pages zone) \<and> (z_type zone = heap_zone_typeTiny \<longrightarrow> unat (z_pages zone) = 2)"

definition record_fits :: "heap_zone \<Rightarrow> zone_allocation \<Rightarrow> bool" where
  "record_fits zone r \<longleftrightarrow> (is_block r \<longrightarrow> 0 < unat (za_size r) \<and> zone_low zone \<le> unat (za_place r) \<and>
     unat (za_place r) + unat (za_size r) \<le> zone_high zone \<and> (z_type zone = heap_zone_typeTiny \<longrightarrow> unat (za_size r) \<le> 255))"

definition apart :: "zone_allocation list \<Rightarrow> bool" where
  "apart rs \<longleftrightarrow> (\<forall>i < length rs. \<forall>j < length rs. i \<noteq> j \<longrightarrow> is_block (rs ! i) \<longrightarrow> is_block (rs ! j) \<longrightarrow> span (rs ! i) \<inter> span (rs ! j) = {})"

definition counted :: "heap_zone \<Rightarrow> bool" where
  "counted zone \<longleftrightarrow> length (z_records zone) \<le> 1011 \<and>
     unat (z_allocations zone) = count_type (\<lambda>t. t \<noteq> kZoneAllocationTypeUnused) (z_records zone) \<and>
     unat (z_freeAllocations zone) = count_type (\<lambda>t. t = kZoneAllocationTypeFree) (z_records zone)"

definition zone_inv :: "heap_zone \<Rightarrow> bool" where
  "zone_inv zone \<longleftrightarrow> zone_frame zone \<and> (\<forall>r \<in> set (z_records zone). record_fits zone r) \<and> apart (z_records zone) \<and> counted zone"

definition zone_extent :: "heap_zone \<Rightarrow> nat set" where
  "zone_extent zone = {unat (z_begin zone) - 4096..<unat (z_end zone)}"

definition heap_inv :: "heap_t \<Rightarrow> bool" where
  "heap_inv heap \<longleftrightarrow> h_lock heap = 0 \<and> (\<forall>zone \<in> set (h_zones heap). zone_inv zone) \<and>
     sorted_wrt (\<lambda>a b. a \<inter> b = {}) (map zone_extent (h_zones heap))"

text \<open>The blocks in use, as address and size.\<close>

definition live_zone :: "heap_zone \<Rightarrow> (ptr \<times> u32) set" where
  "live_zone zone = (\<lambda>r. (block_address zone r, za_size r)) ` {r \<in> set (z_records zone). za_type r = kZoneAllocationTypeUsed}"

definition live :: "heap_t \<Rightarrow> (ptr \<times> u32) set" where
  "live heap = (\<Union>zone \<in> set (h_zones heap). live_zone zone)"

definition bytes :: "ptr \<times> u32 \<Rightarrow> nat set" where
  "bytes b = {unat (fst b)..<unat (fst b) + unat (snd b)}"

section \<open>Records\<close>

lemma unat_narrow8: "unat (x :: u32) \<le> 255 \<Longrightarrow> ucast (ucast x :: u8) = x"
  by (rule word_unat_eq_iff[THEN iffD2]) (simp add: unsigned_ucast_eq unsigned_take_bit_eq take_bit_nat_eq_self)

lemma unat_narrow16: "unat (x :: u32) < 65536 \<Longrightarrow> ucast (ucast x :: u16) = x"
  by (rule word_unat_eq_iff[THEN iffD2]) (simp add: unsigned_ucast_eq unsigned_take_bit_eq take_bit_nat_eq_self)

lemma count_type_update:
  "i < length rs \<Longrightarrow> count_type P (rs[i := r]) + (if P (za_type (rs ! i)) then 1 else 0) = count_type P rs + (if P (za_type r) then 1 else 0)"
proof (induction rs arbitrary: i)
  case (Cons a rs)
  then show ?case by (cases i) (auto simp: count_type_def split: if_splits)
qed simp

lemma count_type_le: "count_type P rs \<le> length rs"
  by (simp add: count_type_def)

lemma count_type_pos: "i < length rs \<Longrightarrow> P (za_type (rs ! i)) \<Longrightarrow> 0 < count_type P rs"
  by (auto simp: count_type_def filter_empty_conv)

lemma apart_shrink:
  "apart rs \<Longrightarrow> i < length rs \<Longrightarrow> is_block (rs ! i) \<Longrightarrow> span r \<subseteq> span (rs ! i) \<Longrightarrow> apart (rs[i := r])"
  by (auto simp: apart_def nth_list_update; blast)

lemma apart_split:
  assumes "apart rs" "i < length rs" "j < length rs" "i \<noteq> j" "is_block (rs ! i)"
    "span u \<subseteq> span (rs ! i)" "span f \<subseteq> span (rs ! i)" "span u \<inter> span f = {}"
  shows "apart (rs[j := f, i := u])"
proof -
  have *: "span (rs ! i) \<inter> span (rs ! k) = {}" if "k < length rs" "k \<noteq> i" "is_block (rs ! k)" for k
    using assms(1,2,5) that unfolding apart_def by blast
  have r: "span (rs ! k) \<inter> span (rs ! l) = {}" if "k < length rs" "l < length rs" "k \<noteq> l" "is_block (rs ! k)" "is_block (rs ! l)" for k l
    using assms(1) that unfolding apart_def by blast
  show ?thesis
    unfolding apart_def
  proof (intro allI impI)
    fix k l
    assume kl: "k < length (rs[j := f, i := u])" "l < length (rs[j := f, i := u])" "k \<noteq> l"
      "is_block (rs[j := f, i := u] ! k)" "is_block (rs[j := f, i := u] ! l)"
    show "span (rs[j := f, i := u] ! k) \<inter> span (rs[j := f, i := u] ! l) = {}"
      using kl assms(2,3,4,6,7,8) *[of k] *[of l] r[of k l] by (auto simp: nth_list_update split: if_splits)
  qed
qed

definition used :: "zone_allocation list \<Rightarrow> zone_allocation set" where
  "used rs = {r \<in> set rs. za_type r = kZoneAllocationTypeUsed}"

lemma used_update:
  assumes "i < length rs" "za_type (rs ! i) \<noteq> kZoneAllocationTypeUsed"
  shows "used (rs[i := x]) = used rs \<union> (if za_type x = kZoneAllocationTypeUsed then {x} else {})"
  using assms by (auto simp: used_def in_set_conv_nth nth_list_update split: if_splits)

lemma apart_unique:
  assumes "apart rs" "i < length rs" "is_block (rs ! i)" "k < length rs" "is_block (rs ! k)" "x \<in> span (rs ! i)" "x \<in> span (rs ! k)"
  shows "i = k"
  using assms unfolding apart_def by blast

lemma used_release:
  assumes "apart rs" "i < length rs" "za_type (rs ! i) = kZoneAllocationTypeUsed" "0 < unat (za_size (rs ! i))"
    "za_type x \<noteq> kZoneAllocationTypeUsed"
  shows "used (rs[i := x]) = used rs - {rs ! i}"
proof -
  have "k = i" if "k < length rs" "rs ! k = rs ! i" for k
    using apart_unique[OF assms(1), of k i "unat (za_place (rs ! i))"] that assms(2,3,4) by (simp add: is_block_def span_def)
  then show ?thesis
    using assms by (auto simp: used_def in_set_conv_nth nth_list_update split: if_splits) (metis nth_list_update_neq)+
qed

section \<open>Zones\<close>

lemma make_record_ok:
  "(z_type zone = heap_zone_typeTiny \<Longrightarrow> unat sz \<le> 255 \<and> unat place < 65536) \<Longrightarrow>
     make_record zone t sz place = \<lparr>za_type = t, za_size = sz, za_place = place\<rparr>"
  by (simp add: make_record_def unat_narrow8 unat_narrow16)

lemma zone_invD:
  assumes "zone_inv zone"
  shows "zone_frame zone" "apart (z_records zone)" "counted zone" "\<And>i. i < length (z_records zone) \<Longrightarrow> record_fits zone (z_records zone ! i)"
  using assms by (auto simp: zone_inv_def)

lemma unat_block_address:
  assumes "zone_frame zone" "record_fits zone r" "is_block r"
  shows "unat (block_address zone r) = (if z_type zone = heap_zone_typeTiny then unat (z_begin zone) else 0) + unat (za_place r)"
    "unat (z_begin zone) \<le> unat (block_address zone r)" "unat (block_address zone r) + unat (za_size r) \<le> unat (z_end zone)"
proof -
  have e: "unat (z_end zone) < 4294967296" by (rule unat_u32_less)
  show a: "unat (block_address zone r) = (if z_type zone = heap_zone_typeTiny then unat (z_begin zone) else 0) + unat (za_place r)"
    using assms e by (auto simp: block_address_def zone_frame_def record_fits_def zone_high_def unat_word_ariths)
  show "unat (z_begin zone) \<le> unat (block_address zone r)" "unat (block_address zone r) + unat (za_size r) \<le> unat (z_end zone)"
    using assms a by (auto simp: zone_frame_def record_fits_def zone_high_def zone_low_def split: if_splits)
qed

lemma bytes_block:
  assumes "zone_frame zone" "record_fits zone r" "is_block r"
  shows "bytes (block_address zone r, za_size r) = (\<lambda>x. (if z_type zone = heap_zone_typeTiny then unat (z_begin zone) else 0) + x) ` span r"
    "bytes (block_address zone r, za_size r) \<subseteq> {unat (z_begin zone)..<unat (z_end zone)}"
    "unat (block_address zone r) \<in> bytes (block_address zone r, za_size r)"
  using unat_block_address[OF assms] assms(2,3)
  by (auto simp: bytes_def span_def record_fits_def image_add_atLeastLessThan)

lemma live_zone_alt: "live_zone zone = (\<lambda>r. (block_address zone r, za_size r)) ` used (z_records zone)"
  by (simp add: live_zone_def used_def)

lemma live_zoneE:
  assumes "b \<in> live_zone zone"
  obtains i where "i < length (z_records zone)" "za_type (z_records zone ! i) = kZoneAllocationTypeUsed"
    "b = (block_address zone (z_records zone ! i), za_size (z_records zone ! i))"
  using assms by (auto simp: live_zone_def in_set_conv_nth)

lemma zone_blocks_apart:
  assumes "zone_inv zone" "i < length (z_records zone)" "k < length (z_records zone)" "i \<noteq> k"
    "is_block (z_records zone ! i)" "is_block (z_records zone ! k)"
  shows "bytes (block_address zone (z_records zone ! i), za_size (z_records zone ! i)) \<inter>
    bytes (block_address zone (z_records zone ! k), za_size (z_records zone ! k)) = {}"
proof -
  note z = zone_invD[OF assms(1)]
  have "span (z_records zone ! i) \<inter> span (z_records zone ! k) = {}"
    using z(2) assms(2-6) unfolding apart_def by blast
  then show ?thesis
    unfolding bytes_block(1)[OF z(1) z(4)[OF assms(2)] assms(5)] bytes_block(1)[OF z(1) z(4)[OF assms(3)] assms(6)] by auto
qed

definition same_frame :: "heap_zone \<Rightarrow> heap_zone \<Rightarrow> bool" where
  "same_frame zone zone' \<longleftrightarrow> z_type zone' = z_type zone \<and> z_begin zone' = z_begin zone \<and> z_end zone' = z_end zone \<and> z_pages zone' = z_pages zone"

lemma same_frame_simps:
  assumes "same_frame zone zone'"
  shows "zone_frame zone' = zone_frame zone" "record_fits zone' = record_fits zone" "block_address zone' = block_address zone"
    "zone_extent zone' = zone_extent zone"
  using assms by (auto simp: same_frame_def zone_frame_def record_fits_def zone_low_def zone_high_def block_address_def zone_extent_def fun_eq_iff)

lemma required_size_unat:
  assumes "unat n \<le> 0xFFFFF000"
  shows "unat n + 16 \<le> unat (required_size heap n)" "unat (required_size heap n) \<le> unat n + 19"
proof -
  have "unat (n mod 4) \<le> 3" using unat_mod[of n 4] by simp
  then have "unat n + unat (if h_flags heap AND kHeapFlagAligned \<noteq> 0 then n mod 4 else 0) + 16 < 4294967296"
    "unat (if h_flags heap AND kHeapFlagAligned \<noteq> 0 then n mod 4 else 0) \<le> 3"
    using assms by auto
  then show "unat n + 16 \<le> unat (required_size heap n)" "unat (required_size heap n) \<le> unat n + 19"
    by (auto simp: required_size_def Let_def kHeapAllocationExtraPadding_def unat_word_ariths)
qed

lemma counted_take:
  assumes "counted zone" "i < length (z_records zone)" "za_type (z_records zone ! i) = kZoneAllocationTypeFree"
    "za_type r = kZoneAllocationTypeUsed"
    "z_records zone' = (z_records zone)[i := r]" "z_allocations zone' = z_allocations zone" "z_freeAllocations zone' = z_freeAllocations zone - 1"
  shows "counted zone'"
proof -
  note u = count_type_update[OF assms(2), of _ r]
  have "0 < count_type (\<lambda>t. t = kZoneAllocationTypeFree) (z_records zone)"
    by (rule count_type_pos[OF assms(2)]) (rule assms(3))
  moreover from this have "unat (z_freeAllocations zone - 1) = unat (z_freeAllocations zone) - 1"
    using assms(1) by (intro unat_pred_pos) (auto simp: counted_def)
  ultimately show ?thesis
    using assms u[of "\<lambda>t. t = kZoneAllocationTypeFree"] u[of "\<lambda>t. t \<noteq> kZoneAllocationTypeUnused"] by (auto simp: counted_def)
qed

lemma counted_split:
  assumes "counted zone" "i < length (z_records zone)" "za_type (z_records zone ! i) = kZoneAllocationTypeFree"
    "j < length (z_records zone)" "za_type (z_records zone ! j) = kZoneAllocationTypeUnused"
    "za_type u = kZoneAllocationTypeUsed" "za_type f = kZoneAllocationTypeFree"
    "z_records zone' = (z_records zone)[j := f, i := u]" "z_allocations zone' = z_allocations zone + 1" "z_freeAllocations zone' = z_freeAllocations zone"
  shows "counted zone'"
proof -
  have ij: "i \<noteq> j" using assms(3,5) by auto
  note v = count_type_update[OF assms(4), of _ f]
  have u: "count_type P (z_records zone') + (if P kZoneAllocationTypeFree then 1 else 0) =
    count_type P ((z_records zone)[j := f]) + (if P kZoneAllocationTypeUsed then 1 else 0)" for P
    using count_type_update[of i "(z_records zone)[j := f]" P u] assms(2,3,6,8) ij by simp
  have "unat (z_allocations zone) \<le> 1011"
    using assms(1) count_type_le[of _ "z_records zone"] by (auto simp: counted_def intro: le_trans)
  then have "unat (z_allocations zone + 1) = unat (z_allocations zone) + 1"
    by (simp add: unat_word_ariths)
  then show ?thesis
    using assms u[of "\<lambda>t. t = kZoneAllocationTypeFree"] u[of "\<lambda>t. t \<noteq> kZoneAllocationTypeUnused"]
      v[of "\<lambda>t. t = kZoneAllocationTypeFree"] v[of "\<lambda>t. t \<noteq> kZoneAllocationTypeUnused"] by (auto simp: counted_def)
qed

text \<open>What taking the free block \<open>i\<close> does to a zone: a block of \<open>sz\<close> bytes at its start is in use.\<close>

definition taken :: "heap_zone \<Rightarrow> nat \<Rightarrow> u32 \<Rightarrow> heap_zone \<Rightarrow> bool" where
  "taken zone i sz zone' \<longleftrightarrow> zone_inv zone' \<and> same_frame zone zone' \<and>
     live_zone zone' = insert (block_address zone (z_records zone ! i), sz) (live_zone zone)"

lemma taken_whole:
  assumes "zone_inv zone" "i < length (z_records zone)" "za_type (z_records zone ! i) = kZoneAllocationTypeFree"
  shows "taken zone i (za_size (z_records zone ! i))
    (zone\<lparr>z_records := (z_records zone)[i := (z_records zone ! i)\<lparr>za_type := kZoneAllocationTypeUsed\<rparr>],
          z_freeAllocations := z_freeAllocations zone - 1\<rparr>)" (is "taken _ _ _ ?z")
proof -
  let ?r = "z_records zone ! i"
  note z = zone_invD[OF assms(1)]
  have f: "same_frame zone ?z" by (simp add: same_frame_def)
  have "record_fits zone (?r\<lparr>za_type := kZoneAllocationTypeUsed\<rparr>)"
    using z(4)[OF assms(2)] assms(3) by (simp add: record_fits_def is_block_def)
  then have r: "\<forall>r \<in> set (z_records ?z). record_fits zone r"
    using assms(1) by (auto simp: zone_inv_def dest!: set_update_subset_insert[THEN subsetD])
  have "apart (z_records ?z)"
    using apart_shrink[OF z(2) assms(2)] assms(3) by (simp add: is_block_def span_def)
  moreover have "counted ?z"
    by (rule counted_take[OF z(3) assms(2,3)]) auto
  ultimately have "zone_inv ?z"
    using z(1) r by (simp add: zone_inv_def same_frame_simps[OF f])
  moreover have "live_zone ?z = insert (block_address zone ?r, za_size ?r) (live_zone zone)"
    using assms(2,3) by (simp add: live_zone_alt same_frame_simps[OF f] used_update) (simp add: block_address_def)
  ultimately show ?thesis using f by (simp add: taken_def)
qed

lemma taken_split:
  assumes "zone_inv zone" "i < length (z_records zone)" "za_type (z_records zone ! i) = kZoneAllocationTypeFree"
    "j < length (z_records zone)" "za_type (z_records zone ! j) = kZoneAllocationTypeUnused"
    "0 < unat req" "unat req < unat (za_size (z_records zone ! i))"
    "u = \<lparr>za_type = kZoneAllocationTypeUsed, za_size = req, za_place = za_place (z_records zone ! i)\<rparr>"
    "f = \<lparr>za_type = kZoneAllocationTypeFree, za_size = za_size (z_records zone ! i) - req, za_place = za_place (z_records zone ! i) + req\<rparr>"
  shows "taken zone i req (zone\<lparr>z_records := (z_records zone)[j := f, i := u], z_allocations := z_allocations zone + 1\<rparr>)" (is "taken _ _ _ ?z")
proof -
  let ?r = "z_records zone ! i"
  note z = zone_invD[OF assms(1)]
  have ij: "i \<noteq> j" and b: "is_block ?r" using assms(3,5) by (auto simp: is_block_def)
  have fr: "same_frame zone ?z" by (simp add: same_frame_def)
  have fit: "record_fits zone ?r" by (rule z(4)[OF assms(2)])
  have "zone_high zone < 4294967296" using unat_u32_less[of "z_end zone"] by (simp add: zone_high_def)
  then have "unat (za_place ?r) + unat req < 4294967296" using fit b assms(7) by (simp add: record_fits_def)
  then have p: "unat (za_place f) = unat (za_place ?r) + unat req"
    unfolding assms(9) by (simp add: unat_add_no_wrap)
  have sf: "unat (za_size f) = unat (za_size ?r) - unat req"
    unfolding assms(9) using assms(7) by (simp add: unat_sub_if')
  have fits: "record_fits zone u" "record_fits zone f"
    using fit b assms(6,7) p sf by (auto simp: record_fits_def is_block_def assms(8,9))
  have spans: "span u \<subseteq> span ?r" "span f \<subseteq> span ?r" "span u \<inter> span f = {}"
    unfolding span_def p sf using assms(7) by (auto simp: assms(8))
  have "\<forall>r \<in> set (z_records ?z). record_fits zone r"
    using assms(1) fits by (auto simp: zone_inv_def dest!: set_update_subset_insert[THEN subsetD])
  moreover have "apart (z_records ?z)"
    using apart_split[OF z(2) assms(2,4) ij b spans] by simp
  moreover have "counted ?z"
    by (rule counted_split[OF z(3) assms(2,3,4,5), where u = u and f = f]) (auto simp: assms(8,9))
  ultimately have "zone_inv ?z"
    using z(1) by (simp add: zone_inv_def same_frame_simps[OF fr])
  moreover have "live_zone ?z = insert (block_address zone ?r, req) (live_zone zone)"
    using assms(2,3,4,5) ij by (simp add: live_zone_alt same_frame_simps[OF fr] used_update assms(8,9)) (simp add: block_address_def)
  ultimately show ?thesis using fr by (simp add: taken_def)
qed

lemma useAllocation_taken:
  assumes "zone_inv zone" "i < length (z_records zone)" "za_type (z_records zone ! i) = kZoneAllocationTypeFree" "unat n \<le> 0xFFFFF000"
  obtains zone' sz where "heap_useAllocation heap zone i n = (block_address zone (z_records zone ! i), zone')" "taken zone i sz zone'"
    "min (unat (required_size heap n)) (unat (za_size (z_records zone ! i))) \<le> unat sz"
proof -
  let ?r = "z_records zone ! i"
  let ?z = "zone\<lparr>z_records := (z_records zone)[i := ?r\<lparr>za_type := kZoneAllocationTypeUsed\<rparr>]\<rparr>"
  have ba: "block_address ?z = block_address zone" by (simp add: block_address_def fun_eq_iff)
  show thesis
  proof (cases "za_size ?r > required_size heap n \<and> heap_zoneGetUnusedAllocation ?z \<noteq> None")
    case True
    then obtain j where j: "heap_zoneGetUnusedAllocation ?z = Some j" by blast
    from find_record_SomeD[OF this[unfolded heap_zoneGetUnusedAllocation_def]]
    have jj: "j < length (z_records zone)" "j \<noteq> i" "za_type (z_records zone ! j) = kZoneAllocationTypeUnused"
      using assms(2) by (auto simp: nth_list_update split: if_splits)
    let ?req = "required_size heap n"
    let ?f = "\<lparr>za_type = kZoneAllocationTypeFree, za_size = za_size ?r - ?req, za_place = za_place ?r + ?req\<rparr>"
    let ?u = "\<lparr>za_type = kZoneAllocationTypeUsed, za_size = ?req, za_place = za_place ?r\<rparr>"
    have lt: "0 < unat ?req" "unat ?req < unat (za_size ?r)"
      using True required_size_unat(1)[OF assms(4), of heap] by (auto simp: word_less_nat_alt)
    have fit: "record_fits zone ?r" "is_block ?r"
      using zone_invD(4)[OF assms(1,2)] assms(3) by (auto simp: is_block_def)
    have mk: "make_record ?z kZoneAllocationTypeFree (za_size ?r - ?req) (za_place ?r + ?req) = ?f"
      "make_record ?z kZoneAllocationTypeUsed ?req (za_place ?r) = ?u"
      using fit lt by (auto intro!: make_record_ok simp: record_fits_def zone_high_def unat_sub_if' unat_word_ariths)
    have "heap_useAllocation heap zone i n =
      (block_address zone ?r, zone\<lparr>z_records := (z_records zone)[j := ?f, i := ?u], z_allocations := z_allocations zone + 1\<rparr>)"
      using True j jj(2) by (simp add: heap_useAllocation_def Let_def mk ba block_address_def list_update_swap)
    from that[OF this taken_split[OF assms(1,2,3) jj(1,3) lt refl refl]] show ?thesis by simp
  next
    case False
    let ?w = "zone\<lparr>z_records := (z_records zone)[i := ?r\<lparr>za_type := kZoneAllocationTypeUsed\<rparr>], z_freeAllocations := z_freeAllocations zone - 1\<rparr>"
    have "heap_useAllocation heap zone i n = (block_address zone ?r, ?w)"
      using False by (auto simp: heap_useAllocation_def Let_def ba)
    from that[OF this taken_whole[OF assms(1,2,3)]] show ?thesis by simp
  qed
qed

text \<open>Giving a block back.\<close>

lemma merge_following_id: "merge_following i zone = zone"
  by (subst merge_following.simps)
    (auto simp: Let_def heap_zoneFindAllocationWithPointer_def split: option.splits dest: find_record_SomeD)

lemma defragment_changes:
  "heap_zoneDefragment zone = zone \<or> heap_zoneDefragment zone = zone\<lparr>z_changes := 0\<rparr>"
proof -
  have "fold merge_following xs zone = zone" for xs
    by (induction xs) (simp_all add: merge_following_id)
  then show ?thesis by (simp add: heap_zoneDefragment_def Let_def)
qed

lemma defragment_cases: "P zone \<Longrightarrow> P (zone\<lparr>z_changes := 0\<rparr>) \<Longrightarrow> P (heap_zoneDefragment zone)"
  by (rule disjE[OF defragment_changes[of zone]]) simp_all

lemma defragment_same:
  "zone_inv (heap_zoneDefragment zone) = zone_inv zone" "same_frame zone (heap_zoneDefragment zone)"
  "live_zone (heap_zoneDefragment zone) = live_zone zone"
proof -
  have s: "same_frame zone (zone\<lparr>z_changes := 0\<rparr>)" "same_frame zone zone" by (simp_all add: same_frame_def)
  show "same_frame zone (heap_zoneDefragment zone)" by (rule defragment_cases) (rule s)+
  have "zone_inv (zone\<lparr>z_changes := 0\<rparr>) = zone_inv zone"
    unfolding zone_inv_def same_frame_simps[OF s(1)] by (simp add: counted_def)
  then show "zone_inv (heap_zoneDefragment zone) = zone_inv zone" by (rule defragment_cases[OF refl])
  have "live_zone (zone\<lparr>z_changes := 0\<rparr>) = live_zone zone"
    unfolding live_zone_def same_frame_simps[OF s(1)] by simp
  then show "live_zone (heap_zoneDefragment zone) = live_zone zone" by (rule defragment_cases[OF refl])
qed

lemma freeAllocation_released:
  assumes "zone_inv zone" "i < length (z_records zone)" "za_type (z_records zone ! i) = kZoneAllocationTypeUsed"
  defines "z \<equiv> heap_freeAllocation zone i"
  shows "zone_inv z" "same_frame zone z"
    "live_zone z = live_zone zone - {(block_address zone (z_records zone ! i), za_size (z_records zone ! i))}"
proof -
  let ?r = "z_records zone ! i" and ?x = "(z_records zone ! i)\<lparr>za_type := kZoneAllocationTypeFree\<rparr>"
  note inv = zone_invD[OF assms(1)]
  have b: "is_block ?r" using assms(3) by (simp add: is_block_def)
  have rs: "z_records z = (z_records zone)[i := ?x]" by (simp add: z_def heap_freeAllocation_def Let_def)
  show f: "same_frame zone z" by (simp add: same_frame_def z_def heap_freeAllocation_def Let_def)
  have fits: "record_fits zone ?x" "0 < unat (za_size ?r)"
    using inv(4)[OF assms(2)] b by (simp_all add: record_fits_def is_block_def)
  have "\<forall>r \<in> set (z_records z). record_fits zone r"
    using assms(1) fits(1) by (auto simp: zone_inv_def rs dest!: set_update_subset_insert[THEN subsetD])
  moreover have "apart (z_records z)"
    using apart_shrink[OF inv(2) assms(2) b, of ?x] by (simp add: rs span_def)
  moreover have "counted z"
  proof -
    note u = count_type_update[OF assms(2), of _ ?x]
    have "unat (z_freeAllocations zone) \<le> 1011"
      using inv(3) count_type_le[of _ "z_records zone"] by (auto simp: counted_def intro: le_trans)
    then have "unat (z_freeAllocations zone + 1) = unat (z_freeAllocations zone) + 1" by (simp add: unat_word_ariths)
    then show ?thesis
      using inv(3) assms(3) u[of "\<lambda>t. t = kZoneAllocationTypeFree"] u[of "\<lambda>t. t \<noteq> kZoneAllocationTypeUnused"]
      by (auto simp: counted_def rs) (auto simp: z_def heap_freeAllocation_def Let_def)
  qed
  ultimately show "zone_inv z" using inv(1) by (simp add: zone_inv_def same_frame_simps[OF f])
  have "(block_address zone r, za_size r) \<noteq> (block_address zone ?r, za_size ?r)" if r: "r \<in> used (z_records zone)" "r \<noteq> ?r" for r
  proof -
    obtain k where k: "k < length (z_records zone)" "r = z_records zone ! k" "is_block r"
      using r(1) by (auto simp: used_def in_set_conv_nth is_block_def)
    then have "k \<noteq> i" using r(2) by blast
    from zone_blocks_apart[OF assms(1) k(1) assms(2) this] k b fits(2) show ?thesis by (auto simp: bytes_def)
  qed
  then show "live_zone z = live_zone zone - {(block_address zone ?r, za_size ?r)}"
    using used_release[OF inv(2) assms(2,3) fits(2), of ?x] by (auto simp: live_zone_alt same_frame_simps[OF f] rs)
qed

section \<open>New zones\<close>

lemma apart_Cons:
  assumes "apart rs" "\<And>x. x \<in> set rs \<Longrightarrow> is_block x \<Longrightarrow> span r \<inter> span x = {}"
  shows "apart (r # rs)"
  unfolding apart_def
proof (intro allI impI)
  fix i j
  assume *: "i < length (r # rs)" "j < length (r # rs)" "i \<noteq> j" "is_block ((r # rs) ! i)" "is_block ((r # rs) ! j)"
  show "span ((r # rs) ! i) \<inter> span ((r # rs) ! j) = {}"
  proof (cases "i = 0 \<or> j = 0")
    case True
    with * assms(2)[of "(r # rs) ! i"] assms(2)[of "(r # rs) ! j"] show ?thesis by (auto simp: nth_Cons' Int_commute)
  next
    case False
    then obtain i' j' where "i = Suc i'" "j = Suc j'" by (auto simp: gr0_conv_Suc)
    with * assms(1) show ?thesis by (simp add: apart_def)
  qed
qed

lemma unat_min_255: "unat (ucast (ucast (min (x :: u32) 255) :: u8) :: u32) = min (unat x) 255"
proof -
  have m: "unat (min x 255) = min (unat x) 255" by (simp add: min_def word_le_nat_alt)
  then have "ucast (ucast (min x 255) :: u8) = min x 255" by (intro unat_narrow8) simp
  with m show ?thesis by simp
qed

text \<open>The block size, what is left and the next offset in a step of the loop over the records of a tiny zone.\<close>

lemma tiny_step:
  fixes left :: u32 and off :: u16
  defines "s \<equiv> ucast (ucast (min left 255) :: u8) :: u32"
  assumes "unat left + unat off \<le> 4096"
  shows "unat (left - s) = unat left - min (unat left) 255" "unat (off + ucast s) = unat off + min (unat left) 255"
    "unat (ucast off :: u32) = unat off" "unat s = min (unat left) 255"
proof -
  show s: "unat s = min (unat left) 255" unfolding s_def by (rule unat_min_255)
  show "unat (left - s) = unat left - min (unat left) 255"
    using s by (simp add: unat_sub word_le_nat_alt)
  have "unat (ucast s :: u16) = min (unat left) 255"
    using s by (simp add: unsigned_ucast_eq unsigned_take_bit_eq take_bit_nat_eq_self)
  then show "unat (off + ucast s) = unat off + min (unat left) 255"
    using assms(2) by (simp add: unat_word_ariths)
  show "unat (ucast off :: u32) = unat off"
    using assms(2) by (simp add: unsigned_ucast_eq unsigned_take_bit_eq take_bit_nat_eq_self)
qed

lemma tiny_records_in:
  assumes "unat left + unat off \<le> 4096" "r \<in> set (tiny_records k left off)"
  shows "za_type r = kZoneAllocationTypeUnused \<or> za_type r = kZoneAllocationTypeFree \<and> unat off \<le> unat (za_place r) \<and>
    unat (za_place r) + unat (za_size r) \<le> unat off + unat left \<and> 0 < unat (za_size r) \<and> unat (za_size r) \<le> 255"
  using assms
proof (induction k left off rule: tiny_records.induct)
  case (2 k left off)
  let ?s = "ucast (ucast (min left 255) :: u8) :: u32"
  note s = tiny_step[OF 2(3)]
  show ?case
  proof (cases "left > 0")
    case True
    have "unat (left - ?s) + unat (off + ucast ?s) \<le> 4096" unfolding s using 2(3) by simp
    from 2(1)[OF True refl this] 2(4) True show ?thesis
      unfolding s by (auto simp: Let_def s word_less_nat_alt)
  next
    case False
    with 2 show ?thesis by auto
  qed
qed simp

lemma tiny_records_apart: "unat left + unat off \<le> 4096 \<Longrightarrow> apart (tiny_records k left off)"
proof (induction k left off rule: tiny_records.induct)
  case (2 k left off)
  let ?s = "ucast (ucast (min left 255) :: u8) :: u32"
  note s = tiny_step[OF 2(3)]
  show ?case
  proof (cases "left > 0")
    case True
    have l: "unat (left - ?s) + unat (off + ucast ?s) \<le> 4096" unfolding s using 2(3) by simp
    have "span \<lparr>za_type = kZoneAllocationTypeFree, za_size = ?s, za_place = ucast off\<rparr> \<inter> span x = {}"
      if "x \<in> set (tiny_records k (left - ?s) (off + ucast ?s))" "is_block x" for x
      using tiny_records_in[OF l that(1)] that(2) by (auto simp: span_def s is_block_def)
    from apart_Cons[OF 2(1)[OF True refl l] this] show ?thesis using True by (simp add: Let_def)
  next
    case False
    have "\<not> is_block x" if "x \<in> set (tiny_records k left off)" for x
      using tiny_records_in[OF 2(3) that] False by (auto simp: is_block_def word_less_nat_alt)
    from apart_Cons[OF 2(2)[OF False 2(3)]] this show ?thesis using False by auto
  qed
qed (simp add: apart_def)

lemma length_tiny_records [simp]: "length (tiny_records k left off) = k"
  by (induction k left off rule: tiny_records.induct) (simp_all add: Let_def)

lemma page_count_drop_bit: "VM_PAGE_COUNT x = drop_bit 12 (x + 0xFFF)"
proof -
  have "(w AND NOT 0xFFF) div 0x1000 = drop_bit 12 w" for w :: u32
  proof -
    have "w AND NOT 0xFFF = w AND NOT (mask 12)" by (simp add: mask_eq_exp_minus_1)
    moreover have "v div 0x1000 = drop_bit 12 v" for v :: u32 by (simp add: drop_bit_eq_div)
    moreover have "drop_bit 12 (w AND NOT (mask 12)) = drop_bit 12 w"
    proof (rule bit_eqI)
      fix k
      show "bit (drop_bit 12 (w AND NOT (mask 12))) k = bit (drop_bit 12 w) k"
        using bit_imp_le_length[of w "12 + k"] by (auto simp: bit_simps)
    qed
    ultimately show ?thesis by simp
  qed
  then show ?thesis by (simp add: VM_PAGE_COUNT_def)
qed

lemma unat_page_count:
  assumes "unat x \<le> 0xFFFFF000"
  shows "unat (VM_PAGE_COUNT x) = (unat x + 4095) div 4096"
  using assms by (simp add: page_count_drop_bit unsigned_drop_bit_eq drop_bit_eq_div unat_word_ariths)

lemma zone_pages_bounds:
  assumes "unat n \<le> 0xFFFFF000"
  shows "1 \<le> unat (zone_pages n)" "unat (zone_pages n) \<le> 1048575" "unat n \<le> 4096 * unat (zone_pages n)"
    "heap_zoneTypeForSize n = heap_zone_typeTiny \<Longrightarrow> zone_pages n = 1 \<and> unat n \<le> 64"
  using assms unat_page_count[OF assms]
  by (auto simp: zone_pages_def heap_zoneTypeForSize_def word_less_nat_alt split: if_splits)

definition fresh_zone :: "ptr \<Rightarrow> heap_t \<Rightarrow> u32 \<Rightarrow> bool" where
  "fresh_zone address heap n \<longleftrightarrow> address \<noteq> 0 \<and> unat address + 4096 * (unat (zone_pages n) + 1) < 2 ^ 32 \<and>
     (\<forall>zone \<in> set (h_zones heap). zone_extent zone \<inter> {unat address..<unat address + 4096 * (unat (zone_pages n) + 1)} = {})"

lemma record_count_values [simp]:
  "record_count heap_zone_typeTiny = 998" "t \<noteq> heap_zone_typeTiny \<Longrightarrow> record_count t = 333"
  by (simp_all add: record_count_def max_allocations_def sizeof_allocation_def sizeof_heap_zone_def)

lemma new_frame:
  assumes "unat n \<le> 0xFFFFF000" "unat address + 4096 * (unat (zone_pages n) + 1) < 2 ^ 32"
  shows "unat (zone_pages n * 4096) = 4096 * unat (zone_pages n)" "unat (address + 4096) = unat address + 4096"
    "unat (address + zone_pages n * 4096 + 4096) = unat address + 4096 * (unat (zone_pages n) + 1)"
    "unat (zone_pages n + 1) = unat (zone_pages n) + 1"
proof -
  show m: "unat (zone_pages n * 4096) = 4096 * unat (zone_pages n)"
    using assms(2) by (simp add: unat_word_ariths)
  show "unat (address + 4096) = unat address + 4096"
    "unat (zone_pages n + 1) = unat (zone_pages n) + 1"
    using assms(2) zone_pages_bounds(2)[OF assms(1)] by (simp_all add: unat_word_ariths)
  have "unat (address + zone_pages n * 4096) = unat address + 4096 * unat (zone_pages n)"
    using assms(2) m by (subst unat_add_no_wrap) simp_all
  then show "unat (address + zone_pages n * 4096 + 4096) = unat address + 4096 * (unat (zone_pages n) + 1)"
    using assms(2) by (subst unat_add_no_wrap) simp_all
qed

lemma new_record_types: "r \<in> set (new_records address n) \<Longrightarrow> za_type r \<noteq> kZoneAllocationTypeUsed"
  using tiny_records_in[of 4096 0 r]
  by (auto simp: new_records_def Let_def zone_pages_def split: if_splits)

lemma length_new_records: "length (new_records address n) \<le> 1011"
  by (simp add: new_records_def Let_def)

lemma new_counted: "counted (new_zone address n)"
proof -
  let ?rs = "new_records address n"
  have "filter (\<lambda>r. za_type r \<noteq> kZoneAllocationTypeUnused) ?rs = filter (\<lambda>r. za_type r = kZoneAllocationTypeFree) ?rs"
    by (rule filter_cong[OF refl]) (use new_record_types[of _ address n] allocation_type.exhaust in \<open>metis allocation_type.distinct(3)\<close>)
  then have "count_type (\<lambda>t. t \<noteq> kZoneAllocationTypeUnused) ?rs = count_type (\<lambda>t. t = kZoneAllocationTypeFree) ?rs"
    by (simp add: count_type_def)
  moreover have "unat (of_nat (count_type (\<lambda>t. t = kZoneAllocationTypeFree) ?rs) :: u32) = count_type (\<lambda>t. t = kZoneAllocationTypeFree) ?rs"
    using count_type_le[of "\<lambda>t. t = kZoneAllocationTypeFree" ?rs] length_new_records[of address n]
    by (simp add: unat_of_nat take_bit_nat_eq_self)
  ultimately show ?thesis
    using length_new_records[of address n] by (simp add: counted_def new_zone_def Let_def)
qed

lemma new_zone_inv:
  assumes "unat n \<le> 0xFFFFF000" "unat address + 4096 * (unat (zone_pages n) + 1) < 2 ^ 32"
  shows "zone_inv (new_zone address n)"
proof -
  let ?z = "new_zone address n"
  note f = new_frame[OF assms] and b = zone_pages_bounds[OF assms(1)]
  have type: "z_type ?z = heap_zoneTypeForSize n" and rs: "z_records ?z = new_records address n"
    and be: "z_begin ?z = address + 4096" "z_end ?z = address + zone_pages n * 4096 + 4096" "z_pages ?z = zone_pages n + 1"
    by (simp_all add: new_zone_def Let_def)
  have "zone_frame ?z"
    using f b by (auto simp: zone_frame_def type be)
  moreover have "record_fits ?z r" if "r \<in> set (new_records address n)" for r
    using that tiny_records_in[of 4096 0 r 998] f b
    by (auto simp: new_records_def Let_def record_fits_def is_block_def zone_low_def zone_high_def type be split: if_splits)
  moreover have "apart (new_records address n)"
    using b(4) tiny_records_apart[of 4096 0 998]
    by (auto simp: new_records_def Let_def apart_def is_block_def nth_Cons')
  moreover have "counted ?z" by (rule new_counted)
  ultimately show ?thesis by (simp add: zone_inv_def rs)
qed

lemma new_zone_first:
  assumes "unat n \<le> 0xFFFFF000" "unat address + 4096 * (unat (zone_pages n) + 1) < 2 ^ 32"
  shows "0 < length (z_records (new_zone address n))" "za_type (z_records (new_zone address n) ! 0) = kZoneAllocationTypeFree"
    "unat n \<le> unat (za_size (z_records (new_zone address n) ! 0))"
proof -
  note f = new_frame[OF assms] and b = zone_pages_bounds[OF assms(1)]
  have t: "tiny_records 998 4096 0 = \<lparr>za_type = kZoneAllocationTypeFree, za_size = 255, za_place = 0\<rparr> # tiny_records 997 3841 255"
    using tiny_records.simps(2)[of 997 4096 0] by (simp add: Let_def)
  show "0 < length (z_records (new_zone address n))" using b by (simp add: new_zone_def new_records_def Let_def t)
  show "za_type (z_records (new_zone address n) ! 0) = kZoneAllocationTypeFree"
    using b by (simp add: new_zone_def new_records_def Let_def t)
  show "unat n \<le> unat (za_size (z_records (new_zone address n) ! 0))"
    using b f by (cases "heap_zoneTypeForSize n = heap_zone_typeTiny") (simp_all add: new_zone_def new_records_def Let_def t)
qed

lemma new_zone_live [simp]: "live_zone (new_zone address n) = {}"
  using new_record_types[of _ address n] by (auto simp: live_zone_def new_zone_def Let_def)

section \<open>Allocating and releasing\<close>

lemma find_zone_SomeD:
  assumes "find_zone type n req k zones = Some (i, j)"
  shows "k \<le> i \<and> i - k < length zones \<and> j < length (z_records (zones ! (i - k))) \<and>
    za_type (z_records (zones ! (i - k)) ! j) = kZoneAllocationTypeFree \<and> req \<le> za_size (z_records (zones ! (i - k)) ! j)"
  using assms
proof (induction zones arbitrary: k)
  case (Cons zone zones)
  show ?case
  proof (cases "find_zone type n req k (zone # zones) = find_zone type n req (Suc k) zones")
    case True
    with Cons.IH[of "Suc k"] Cons.prems show ?thesis by (auto simp: nth_Cons' Suc_diff_le)
  next
    case False
    with Cons.prems show ?thesis by (auto split: if_splits option.splits dest: find_record_SomeD)
  qed
qed simp

lemma heap_inv_update:
  assumes "heap_inv heap" "i < length (h_zones heap)" "zone_inv zone" "same_frame (h_zones heap ! i) zone"
  shows "heap_inv (heap\<lparr>h_zones := (h_zones heap)[i := zone], h_lock := 0\<rparr>)"
proof -
  have "map zone_extent ((h_zones heap)[i := zone]) = map zone_extent (h_zones heap)"
    using same_frame_simps(4)[OF assms(4)] assms(2) by (simp add: map_update list_update_same_conv)
  then show ?thesis
    using assms(1,3) by (auto simp: heap_inv_def simp del: map_update dest!: set_update_subset_insert[THEN subsetD])
qed

lemma heap_inv_create:
  assumes "heap_inv heap" "fresh_zone address heap n" "unat n \<le> 0xFFFFF000"
  shows "heap_inv (heap\<lparr>h_zones := new_zone address n # h_zones heap\<rparr>)"
proof -
  have l: "unat address + 4096 * (unat (zone_pages n) + 1) < 2 ^ 32" using assms(2) by (simp add: fresh_zone_def)
  have "zone_extent (new_zone address n) = {unat address..<unat address + 4096 * (unat (zone_pages n) + 1)}"
    using new_frame[OF assms(3) l] by (simp add: zone_extent_def new_zone_def Let_def)
  then show ?thesis
    using assms new_zone_inv[OF assms(3) l] by (auto simp: heap_inv_def fresh_zone_def Int_commute)
qed

text \<open>The blocks of two different records of a heap share no byte.\<close>

definition block_at :: "heap_t \<Rightarrow> nat \<Rightarrow> nat \<Rightarrow> ptr \<times> u32" where
  "block_at heap i j = (let zone = h_zones heap ! i; r = z_records zone ! j in (block_address zone r, za_size r))"

definition record_at :: "heap_t \<Rightarrow> nat \<Rightarrow> nat \<Rightarrow> allocation_type \<Rightarrow> bool" where
  "record_at heap i j t \<longleftrightarrow> i < length (h_zones heap) \<and> j < length (z_records (h_zones heap ! i)) \<and>
     za_type (z_records (h_zones heap ! i) ! j) = t"

lemma live_nth: "b \<in> live heap \<longleftrightarrow> (\<exists>k < length (h_zones heap). b \<in> live_zone (h_zones heap ! k))"
  by (auto simp: live_def set_conv_nth)

lemma live_at: "b \<in> live heap \<longleftrightarrow> (\<exists>i j. record_at heap i j kZoneAllocationTypeUsed \<and> b = block_at heap i j)"
  unfolding live_nth record_at_def block_at_def Let_def by (auto simp: live_zone_def set_conv_nth elim!: live_zoneE)

lemma block_at_in_zone:
  assumes "heap_inv heap" "record_at heap i j t" "t \<noteq> kZoneAllocationTypeUnused"
  shows "bytes (block_at heap i j) \<subseteq> {unat (z_begin (h_zones heap ! i))..<unat (z_end (h_zones heap ! i))}"
    "bytes (block_at heap i j) \<subseteq> zone_extent (h_zones heap ! i)"
    "unat (fst (block_at heap i j)) \<in> bytes (block_at heap i j)"
proof -
  let ?z = "h_zones heap ! i" and ?r = "z_records (h_zones heap ! i) ! j"
  have z: "zone_inv ?z" and j: "j < length (z_records ?z)" and b: "is_block ?r"
    using assms by (auto simp: heap_inv_def record_at_def is_block_def)
  note * = bytes_block[OF zone_invD(1)[OF z] zone_invD(4)[OF z j] b]
  from * show "bytes (block_at heap i j) \<subseteq> {unat (z_begin ?z)..<unat (z_end ?z)}" "unat (fst (block_at heap i j)) \<in> bytes (block_at heap i j)"
    by (simp_all add: block_at_def Let_def)
  then show "bytes (block_at heap i j) \<subseteq> zone_extent ?z"
    by (fastforce simp: zone_extent_def)
qed

lemma zones_apart:
  assumes "heap_inv heap" "i < length (h_zones heap)" "k < length (h_zones heap)" "i \<noteq> k"
  shows "zone_extent (h_zones heap ! i) \<inter> zone_extent (h_zones heap ! k) = {}"
proof -
  have *: "zone_extent (h_zones heap ! a) \<inter> zone_extent (h_zones heap ! b) = {}" if "a < b" "b < length (h_zones heap)" for a b
    using assms(1) that by (auto simp: heap_inv_def sorted_wrt_iff_nth_less)
  show ?thesis using *[of i k] *[of k i] assms(2-4) by (cases "i < k") (auto simp: Int_commute)
qed

lemma blocks_apart:
  assumes "heap_inv heap" "record_at heap i j t" "t \<noteq> kZoneAllocationTypeUnused" "record_at heap k l u" "u \<noteq> kZoneAllocationTypeUnused"
    "(i, j) \<noteq> (k, l)"
  shows "bytes (block_at heap i j) \<inter> bytes (block_at heap k l) = {}"
proof (cases "i = k")
  case True
  have "zone_inv (h_zones heap ! i)" using assms(1,2) by (auto simp: heap_inv_def record_at_def)
  from zone_blocks_apart[OF this, of j l] show ?thesis
    using assms True by (auto simp: record_at_def is_block_def block_at_def Let_def)
next
  case False
  have "i < length (h_zones heap)" "k < length (h_zones heap)" using assms(2,4) by (auto simp: record_at_def)
  from zones_apart[OF assms(1) this False] show ?thesis
    using block_at_in_zone(2)[OF assms(1,2,3)] block_at_in_zone(2)[OF assms(1,4,5)] by blast
qed

lemma live_apart:
  assumes "heap_inv heap" "a \<in> live heap" "b \<in> live heap" "a \<noteq> b"
  shows "bytes a \<inter> bytes b = {}"
proof -
  obtain i j k l where "record_at heap i j kZoneAllocationTypeUsed" "a = block_at heap i j"
    "record_at heap k l kZoneAllocationTypeUsed" "b = block_at heap k l"
    using assms(2,3) by (auto simp: live_at)
  with blocks_apart[OF assms(1), of i j _ k l] assms(4) show ?thesis by auto
qed

lemma free_not_live:
  assumes "heap_inv heap" "record_at heap i j kZoneAllocationTypeFree" "b \<in> live heap"
  shows "fst b \<noteq> fst (block_at heap i j)"
proof
  assume e: "fst b = fst (block_at heap i j)"
  obtain k l where kl: "record_at heap k l kZoneAllocationTypeUsed" "b = block_at heap k l"
    using assms(3) by (auto simp: live_at)
  then have "(i, j) \<noteq> (k, l)" using assms(2) by (auto simp: record_at_def)
  from blocks_apart[OF assms(1,2) _ kl(1) _ this] block_at_in_zone(3)[OF assms(1,2)] block_at_in_zone(3)[OF assms(1) kl(1)]
  show False using e kl(2) by auto
qed

lemma live_update:
  assumes "i < length (h_zones heap)"
  shows "live (heap\<lparr>h_zones := (h_zones heap)[i := zone], h_lock := l\<rparr>) =
    (\<Union>k \<in> {..<length (h_zones heap)} - {i}. live_zone (h_zones heap ! k)) \<union> live_zone zone"
    "live heap = (\<Union>k \<in> {..<length (h_zones heap)} - {i}. live_zone (h_zones heap ! k)) \<union> live_zone (h_zones heap ! i)"
  using assms by (auto simp: live_nth nth_list_update split: if_splits)

text \<open>Whether a request needs a new zone.\<close>

definition needs_zone :: "heap_t \<Rightarrow> u32 \<Rightarrow> bool" where
  "needs_zone heap n \<longleftrightarrow> heap_zoneTypeForSize n = heap_zone_typeLarge \<or>
     find_zone (heap_zoneTypeForSize n) n (required_size heap n) 0 (h_zones heap) = None"

lemma required_size_lock [simp]: "required_size (heap\<lparr>h_lock := l\<rparr>) n = required_size heap n"
  by (simp add: required_size_def)

lemma heap_inv_lock: "heap_inv heap \<Longrightarrow> h_lock heap = 0"
  by (simp add: heap_inv_def)

lemma zoneForSize_free:
  assumes "heap_inv heap" "unat n \<le> 0xFFFFF000" "needs_zone heap n \<longrightarrow> fresh_zone address heap n"
  obtains i j heap' where "heap_zoneForSize address (heap\<lparr>h_lock := l\<rparr>) n = Inr (i, j, heap'\<lparr>h_lock := l\<rparr>)" "heap_inv heap'"
    "record_at heap' i j kZoneAllocationTypeFree" "unat n \<le> unat (snd (block_at heap' i j))" "live heap' = live heap" "h_flags heap' = h_flags heap"
proof (cases "needs_zone heap n")
  case True
  let ?h = "heap\<lparr>h_zones := new_zone address n # h_zones heap\<rparr>"
  have f: "fresh_zone address heap n" using assms(3) True by simp
  then have l: "address \<noteq> 0" "unat address + 4096 * (unat (zone_pages n) + 1) < 2 ^ 32" by (auto simp: fresh_zone_def)
  have "heap_zoneForSize address (heap\<lparr>h_lock := l\<rparr>) n = Inr (0, 0, ?h\<lparr>h_lock := l\<rparr>)"
    using True l(1) by (auto simp: heap_zoneForSize_def needs_zone_def heap_createZoneForSize_def Let_def)
  moreover note new_zone_first[OF assms(2) l(2)]
  ultimately show thesis
    using that[of 0 0 ?h] heap_inv_create[OF assms(1) f assms(2)] by (simp add: record_at_def block_at_def live_def Let_def)
next
  case False
  then obtain i j where ij: "find_zone (heap_zoneTypeForSize n) n (required_size heap n) 0 (h_zones heap) = Some (i, j)"
    by (auto simp: needs_zone_def)
  from find_zone_SomeD[OF this] have "record_at heap i j kZoneAllocationTypeFree" "required_size heap n \<le> snd (block_at heap i j)"
    by (auto simp: record_at_def block_at_def Let_def)
  moreover have "heap_zoneForSize address (heap\<lparr>h_lock := l\<rparr>) n = Inr (i, j, heap\<lparr>h_lock := l\<rparr>)"
    using False ij by (simp add: heap_zoneForSize_def needs_zone_def Let_def)
  ultimately show thesis
    using that[of i j heap] assms(1) required_size_unat(1)[OF assms(2), of heap] by (simp add: word_le_nat_alt)
qed

lemma halloc_spec:
  assumes "heap_inv heap" "unat n \<le> 0xFFFFF000" "needs_zone heap n \<longrightarrow> fresh_zone address heap n"
  obtains p sz heap' where "halloc address heap n = Inr (p, heap')" "heap_inv heap'" "unat n \<le> unat sz"
    "live heap' = insert (p, sz) (live heap)" "p \<notin> fst ` live heap" "h_flags heap' = h_flags heap"
proof -
  obtain i j h where h: "heap_zoneForSize address (heap\<lparr>h_lock := 1\<rparr>) n = Inr (i, j, h\<lparr>h_lock := 1\<rparr>)" "heap_inv h"
    "record_at h i j kZoneAllocationTypeFree" "unat n \<le> unat (snd (block_at h i j))" "live h = live heap" "h_flags h = h_flags heap"
    by (rule zoneForSize_free[OF assms])
  let ?z = "h_zones h ! i"
  have i: "i < length (h_zones h)" and j: "j < length (z_records ?z)" "za_type (z_records ?z ! j) = kZoneAllocationTypeFree"
    and z: "zone_inv ?z"
    using h(2,3) by (auto simp: record_at_def heap_inv_def)
  obtain z' sz where u: "heap_useAllocation (h\<lparr>h_lock := 1\<rparr>) ?z j n = (fst (block_at h i j), z')" "taken ?z j sz z'"
    "min (unat (required_size (h\<lparr>h_lock := 1\<rparr>) n)) (unat (za_size (z_records ?z ! j))) \<le> unat sz"
    by (rule useAllocation_taken[OF z j assms(2), of "h\<lparr>h_lock := 1\<rparr>"]) (auto simp: block_at_def Let_def)
  define h' where "h' = h\<lparr>h_zones := (h_zones h)[i := z'], h_lock := 0\<rparr>"
  have "unat n \<le> unat sz"
    using u(3) h(4) required_size_unat(1)[OF assms(2), of h] by (simp add: block_at_def Let_def)
  moreover have "fst (block_at h i j) \<noteq> 0"
    using block_at_in_zone(1,3)[OF h(2,3)] zone_invD(1)[OF z] by (auto simp: zone_frame_def)
  then have "halloc address heap n = Inr (fst (block_at h i j), h')"
    using h(1) u(1) heap_inv_lock[OF assms(1)] by (simp add: halloc_def h'_def)
  moreover have "heap_inv h'"
    unfolding h'_def using heap_inv_update[OF h(2) i] u(2) by (simp add: taken_def)
  moreover have "live h' = insert (fst (block_at h i j), sz) (live heap)"
    unfolding h(5)[symmetric] live_update(2)[OF i] h'_def live_update(1)[OF i]
    using u(2) by (simp add: taken_def block_at_def Let_def)
  moreover have "fst (block_at h i j) \<notin> fst ` live heap"
    using free_not_live[OF h(2,3)] h(5) by force
  ultimately show thesis using that h(6) by (simp add: h'_def)
qed

text \<open>Finding the block of a pointer.\<close>

lemma findZone_SomeD:
  assumes "heap_findZoneWithAllocation a (h_zones heap) pointer = Some (i, j)"
  shows "a \<le> i \<and> record_at heap (i - a) j kZoneAllocationTypeUsed \<and> fst (block_at heap (i - a) j) = pointer"
  using assms
proof (induction "h_zones heap" arbitrary: a heap)
  case (Cons zone zones)
  show ?case
  proof (cases "pointer \<ge> z_begin zone \<and> pointer < z_end zone")
    case True
    with Cons.prems Cons.hyps(2)[symmetric] show ?thesis
      by (auto simp: heap_zoneFindAllocationWithPointer_def record_at_def block_at_def Let_def split: option.splits dest: find_record_SomeD)
  next
    case False
    have "zones = h_zones (heap\<lparr>h_zones := zones\<rparr>)" by simp
    from Cons.hyps(1)[OF this, of "Suc a"] False Cons.prems Cons.hyps(2)[symmetric] show ?thesis
      by (auto simp: record_at_def block_at_def Let_def nth_Cons' Suc_diff_le)
  qed
qed simp

lemma findZone_unique:
  assumes "k < length zones" "\<And>a. a < length zones \<Longrightarrow> pointer \<ge> z_begin (zones ! a) \<Longrightarrow> pointer < z_end (zones ! a) \<Longrightarrow> a = k"
    "pointer \<ge> z_begin (zones ! k)" "pointer < z_end (zones ! k)" "heap_zoneFindAllocationWithPointer (zones ! k) pointer \<noteq> None"
  shows "heap_findZoneWithAllocation i zones pointer \<noteq> None"
  using assms
proof (induction zones arbitrary: i k)
  case (Cons zone zones)
  show ?case
  proof (cases k)
    case 0
    with Cons.prems show ?thesis by auto
  next
    case (Suc k')
    have "\<not> (pointer \<ge> z_begin zone \<and> pointer < z_end zone)"
      using Cons.prems(2)[of 0] Suc by auto
    moreover have "heap_findZoneWithAllocation (Suc i) zones pointer \<noteq> None"
    proof (rule Cons.IH[of k'])
      show "a = k'" if "a < length zones" "pointer \<ge> z_begin (zones ! a)" "pointer < z_end (zones ! a)" for a
        using Cons.prems(2)[of "Suc a"] that Suc by simp
    qed (use Cons.prems Suc in simp_all)
    ultimately show ?thesis by auto
  qed
qed simp

lemma findZone_live:
  assumes "heap_inv heap" "b \<in> live heap"
  obtains i j where "heap_findZoneWithAllocation 0 (h_zones heap) (fst b) = Some (i, j)" "record_at heap i j kZoneAllocationTypeUsed" "block_at heap i j = b"
proof -
  obtain k l where kl: "record_at heap k l kZoneAllocationTypeUsed" "b = block_at heap k l"
    using assms(2) by (auto simp: live_at)
  let ?p = "fst b" and ?zs = "h_zones heap"
  have inside: "?p \<ge> z_begin (?zs ! k)" "?p < z_end (?zs ! k)"
    using block_at_in_zone(1,3)[OF assms(1) kl(1)] kl(2) by (auto simp: word_le_nat_alt word_less_nat_alt)
  have k: "k < length ?zs" using kl(1) by (simp add: record_at_def)
  have "a = k" if "a < length ?zs" "?p \<ge> z_begin (?zs ! a)" "?p < z_end (?zs ! a)" for a
  proof (rule ccontr)
    assume "a \<noteq> k"
    from zones_apart[OF assms(1) that(1) k this] show False
      using that(2,3) inside by (auto simp: zone_extent_def word_le_nat_alt word_less_nat_alt dest!: equals0D[of _ "unat ?p"])
  qed
  moreover have "heap_zoneFindAllocationWithPointer (?zs ! k) ?p \<noteq> None"
    using kl find_record_NoneD[of _ 0 "z_records (?zs ! k)" "z_records (?zs ! k) ! l"]
    by (auto simp: heap_zoneFindAllocationWithPointer_def record_at_def block_at_def Let_def)
  ultimately obtain i j where ij: "heap_findZoneWithAllocation 0 ?zs ?p = Some (i, j)"
    using findZone_unique[OF k _ inside, of 0] by auto
  from findZone_SomeD[OF this] have r: "record_at heap i j kZoneAllocationTypeUsed" "fst (block_at heap i j) = ?p" by simp_all
  have "(i, j) = (k, l)"
    using blocks_apart[OF assms(1) r(1) _ kl(1)] block_at_in_zone(3)[OF assms(1) r(1)] block_at_in_zone(3)[OF assms(1) kl(1)] r(2) kl(2)
    by auto
  with that ij r(1) kl(2) show thesis by simp
qed

text \<open>The pages of a zone.\<close>

definition run_bytes :: "ptr \<times> u32 \<Rightarrow> nat set" where
  "run_bytes run = {unat (fst run)..<unat (fst run) + 4096 * unat (snd run)}"

lemma zone_run: "zone_frame zone \<Longrightarrow> run_bytes (zone_address zone, z_pages zone) = zone_extent zone"
proof -
  assume f: "zone_frame zone"
  then have "unat (zone_address zone) = unat (z_begin zone) - 4096"
    by (simp add: zone_address_def zone_frame_def unat_sub word_le_nat_alt)
  with f show ?thesis by (auto simp: run_bytes_def zone_extent_def zone_frame_def)
qed

lemma count_split: "count_type (\<lambda>t. t \<noteq> kZoneAllocationTypeUnused) rs =
    count_type (\<lambda>t. t = kZoneAllocationTypeFree) rs + count_type (\<lambda>t. t = kZoneAllocationTypeUsed) rs"
proof (induction rs)
  case (Cons r rs)
  then show ?case by (cases "za_type r") (simp_all add: count_type_def)
qed (simp add: count_type_def)

lemma last_block:
  assumes "zone_inv zone" "z_allocations zone = z_freeAllocations zone + 1" "j < length (z_records zone)"
    "za_type (z_records zone ! j) = kZoneAllocationTypeUsed"
  shows "live_zone zone = {(block_address zone (z_records zone ! j), za_size (z_records zone ! j))}"
proof -
  let ?us = "filter (\<lambda>r. za_type r = kZoneAllocationTypeUsed) (z_records zone)"
  note c = zone_invD(3)[OF assms(1)]
  have "unat (z_freeAllocations zone) \<le> 1011"
    using c count_type_le[of _ "z_records zone"] by (auto simp: counted_def intro: le_trans)
  then have "unat (z_allocations zone) = unat (z_freeAllocations zone) + 1"
    using assms(2) by (simp add: unat_word_ariths)
  then have "length ?us = 1"
    using c count_split[of "z_records zone"] by (simp add: counted_def count_type_def)
  then obtain u where u: "?us = [u]" by (auto simp: length_Suc_conv)
  have "set ?us = {u}" unfolding u by simp
  moreover have "z_records zone ! j \<in> set ?us" using assms(3,4) by simp
  ultimately have "{r \<in> set (z_records zone). za_type r = kZoneAllocationTypeUsed} = {z_records zone ! j}" by auto
  then show ?thesis by (simp add: live_zone_def)
qed

lemma live_zone_once:
  assumes "heap_inv heap" "k < length (h_zones heap)" "i < length (h_zones heap)" "k \<noteq> i" "b \<in> live_zone (h_zones heap ! i)"
  shows "b \<notin> live_zone (h_zones heap ! k)"
proof
  assume b: "b \<in> live_zone (h_zones heap ! k)"
  obtain j l where j: "record_at heap i j kZoneAllocationTypeUsed" "b = block_at heap i j"
    and l: "record_at heap k l kZoneAllocationTypeUsed" "b = block_at heap k l"
    unfolding record_at_def block_at_def Let_def using assms(2,3) live_zoneE[OF assms(5)] live_zoneE[OF b] by metis
  have "(i, j) \<noteq> (k, l)" using assms(4) by simp
  from blocks_apart[OF assms(1) j(1) _ l(1) _ this] have "bytes b \<inter> bytes b = {}" by (simp add: j(2)[symmetric] l(2)[symmetric])
  with block_at_in_zone(3)[OF assms(1) j(1)] show False by (simp add: j(2)[symmetric])
qed

lemma destroyZone_spec:
  assumes "heap_inv heap" "record_at heap i j kZoneAllocationTypeUsed"
    "z_allocations (h_zones heap ! i) = z_freeAllocations (h_zones heap ! i) + 1"
  defines "h \<equiv> heap\<lparr>h_zones := take i (h_zones heap) @ drop (Suc i) (h_zones heap)\<rparr>"
  shows "heap_inv h" "live h = live heap - {block_at heap i j}"
    "\<forall>b \<in> live h. bytes b \<inter> run_bytes (zone_address (h_zones heap ! i), z_pages (h_zones heap ! i)) = {}"
proof -
  let ?zs = "h_zones heap"
  have i: "i < length ?zs" and z: "zone_inv (?zs ! i)" using assms(1,2) by (auto simp: record_at_def heap_inv_def)
  have zs: "?zs = take i ?zs @ ?zs ! i # drop (Suc i) ?zs" using i by (rule id_take_nth_drop)
  have set: "set (h_zones h) \<subseteq> set ?zs" "h_zones h = take i ?zs @ drop (Suc i) ?zs"
    by (auto simp: h_def dest: in_set_takeD in_set_dropD)
  have "sorted_wrt (\<lambda>a b. a \<inter> b = {}) (map zone_extent (take i ?zs @ ?zs ! i # drop (Suc i) ?zs))"
    using assms(1) zs by (simp add: heap_inv_def)
  then have "sorted_wrt (\<lambda>a b. a \<inter> b = {}) (map zone_extent (h_zones h))"
    and other: "\<And>z. z \<in> set (h_zones h) \<Longrightarrow> zone_extent z \<inter> zone_extent (?zs ! i) = {}"
    by (auto simp: set(2) sorted_wrt_append)
  with assms(1) set show inv: "heap_inv h" by (auto simp: heap_inv_def h_def)
  have run: "run_bytes (zone_address (?zs ! i), z_pages (?zs ! i)) = zone_extent (?zs ! i)"
    by (rule zone_run[OF zone_invD(1)[OF z]])
  show gone: "\<forall>b \<in> live h. bytes b \<inter> run_bytes (zone_address (?zs ! i), z_pages (?zs ! i)) = {}"
  proof
    fix b
    assume "b \<in> live h"
    then obtain k l where kl: "record_at h k l kZoneAllocationTypeUsed" "b = block_at h k l" by (auto simp: live_at)
    then have "h_zones h ! k \<in> set (h_zones h)" by (simp add: record_at_def)
    from other[OF this] block_at_in_zone(2)[OF inv kl(1)] kl(2) show "bytes b \<inter> run_bytes (zone_address (?zs ! i), z_pages (?zs ! i)) = {}"
      unfolding run by blast
  qed
  have "block_at heap i j \<notin> live h"
    using gone block_at_in_zone(2,3)[OF assms(1,2)] unfolding run by auto
  moreover have "live heap = insert (block_at heap i j) (live h)"
  proof -
    have "live heap = live_zone (?zs ! i) \<union> live h"
      unfolding live_def set(2) by (subst zs) auto
    with last_block[OF z assms(3), of j] assms(2) show ?thesis by (simp add: record_at_def block_at_def Let_def)
  qed
  ultimately show "live h = live heap - {block_at heap i j}" by auto
qed

lemma hfree_spec:
  assumes "heap_inv heap" "b \<in> live heap"
  obtains heap' run where "hfree heap (fst b) = Inr (heap', run)" "heap_inv heap'" "live heap' = live heap - {b}" "h_flags heap' = h_flags heap"
    "\<forall>r. run = Some r \<longrightarrow> (\<forall>c \<in> live heap'. bytes c \<inter> run_bytes r = {})"
proof -
  obtain i j where ij: "heap_findZoneWithAllocation 0 (h_zones heap) (fst b) = Some (i, j)" "record_at heap i j kZoneAllocationTypeUsed" "block_at heap i j = b"
    by (rule findZone_live[OF assms])
  let ?z = "h_zones heap ! i"
  have i: "i < length (h_zones heap)" and z: "zone_inv ?z" and j: "j < length (z_records ?z)" "za_type (z_records ?z ! j) = kZoneAllocationTypeUsed"
    using assms(1) ij(2) by (auto simp: record_at_def heap_inv_def)
  note lock = heap_inv_lock[OF assms(1)]
  show thesis
  proof (cases "z_allocations ?z = z_freeAllocations ?z + 1")
    case True
    let ?h = "heap\<lparr>h_zones := take i (h_zones heap) @ drop (Suc i) (h_zones heap)\<rparr>"
    have "hfree heap (fst b) = Inr (?h, Some (zone_address ?z, z_pages ?z))"
      using lock ij(1) True by (simp add: hfree_def Let_def heap_destroyZone_def)
    from that[OF this] destroyZone_spec[OF assms(1) ij(2) True] ij(3) show thesis by simp
  next
    case False
    let ?f = "heap_zoneDefragment (heap_freeAllocation ?z j)"
    let ?h = "heap\<lparr>h_zones := (h_zones heap)[i := ?f], h_lock := 0\<rparr>"
    note r = freeAllocation_released[OF z j]
    have b: "(block_address ?z (z_records ?z ! j), za_size (z_records ?z ! j)) = b" using ij(3) by (simp add: block_at_def Let_def)
    with j have bz: "b \<in> live_zone ?z" by (auto simp: live_zone_def)
    have f: "zone_inv ?f" "same_frame ?z ?f" "live_zone ?f = live_zone ?z - {b}"
      using r[unfolded b] defragment_same[of "heap_freeAllocation ?z j"] by (simp_all add: same_frame_def)
    have "hfree heap (fst b) = Inr (?h, None)"
      using lock ij(1) False by (simp add: hfree_def Let_def)
    moreover have "b \<notin> live_zone (h_zones heap ! k)" if "k < length (h_zones heap)" "k \<noteq> i" for k
      using live_zone_once[OF assms(1) that(1) i that(2) bz] .
    then have "live ?h = live heap - {b}"
      unfolding live_update(2)[OF i] live_update(1)[OF i] f(3) by blast
    ultimately show thesis using that[of ?h None] heap_inv_update[OF assms(1) i f(1,2)] by simp
  qed
qed

end
