(* ===== verification/HeapClient.thy ===== *)
theory HeapClient
  imports Heap
begin

text \<open>
  What the users of the heap may rely on: the contract of an allocator of blocks as a locale, the states that a
  program reaches which allocates and releases blocks, and the properties of the kernel heap that follow.
\<close>

section \<open>The contract\<close>

text \<open>
  A program that starts with an empty heap, requests blocks and releases blocks it holds. \<open>held\<close> are the blocks it
  holds, with the sizes it asked for; the first argument of a request is where new pages come from.
\<close>

inductive block_run ::
  "('h \<Rightarrow> bool) \<Rightarrow> ('a \<Rightarrow> 'h \<Rightarrow> u32 \<Rightarrow> bool) \<Rightarrow> ('a \<Rightarrow> 'h \<Rightarrow> u32 \<Rightarrow> (ptr \<times> 'h) result) \<Rightarrow> ('h \<Rightarrow> ptr \<Rightarrow> 'h result) \<Rightarrow>
   'h \<Rightarrow> (ptr \<times> u32) set \<Rightarrow> bool" for start ready alloc release where
  start: "start h \<Longrightarrow> block_run start ready alloc release h {}"
| alloc: "block_run start ready alloc release h held \<Longrightarrow> ready address h n \<Longrightarrow> alloc address h n = Inr (p, h') \<Longrightarrow>
    block_run start ready alloc release h' (insert (p, n) held)"
| release: "block_run start ready alloc release h held \<Longrightarrow> (p, n) \<in> held \<Longrightarrow> release h p = Inr h' \<Longrightarrow>
    block_run start ready alloc release h' (held - {(p, n)})"

text \<open>The blocks a program holds are what the allocator has handed out, with at least the size that was asked for.\<close>

definition covers :: "(ptr \<times> u32) set \<Rightarrow> (ptr \<times> u32) set \<Rightarrow> bool" where
  "covers out held \<longleftrightarrow> inj_on fst out \<and> inj_on fst held \<and> fst ` held = fst ` out \<and>
     (\<forall>(p, n) \<in> held. \<forall>(q, sz) \<in> out. p = q \<longrightarrow> unat n \<le> unat sz)"

lemma covers_insert:
  assumes "covers out held" "p \<notin> fst ` out" "unat n \<le> unat sz"
  shows "covers (insert (p, sz) out) (insert (p, n) held)"
  using assms unfolding covers_def by (auto simp: rev_image_eqI)

lemma covers_remove:
  assumes "covers out held" "(p, n) \<in> held"
  obtains sz where "(p, sz) \<in> out" "covers (out - {(p, sz)}) (held - {(p, n)})"
proof -
  have "p \<in> fst ` out" using assms unfolding covers_def by (metis fst_conv imageI)
  then obtain sz where sz: "(p, sz) \<in> out" by auto
  have i: "inj_on fst out" "inj_on fst held" and e: "fst ` held = fst ` out" using assms(1) by (auto simp: covers_def)
  have "fst ` (held - {(p, n)}) = fst ` held - {p}" "fst ` (out - {(p, sz)}) = fst ` out - {p}"
    using inj_on_image_set_diff[OF i(2), of held "{(p, n)}"] inj_on_image_set_diff[OF i(1), of out "{(p, sz)}"] assms(2) sz by auto
  then have "covers (out - {(p, sz)}) (held - {(p, n)})"
    using assms(1) e i by (auto simp: covers_def intro: inj_on_diff)
  with that sz show thesis by blast
qed

lemma covers_bytes:
  assumes "covers out held" "(p, n) \<in> held"
  obtains sz where "(p, sz) \<in> out" "bytes (p, n) \<subseteq> bytes (p, sz)"
proof -
  have "p \<in> fst ` out" using assms unfolding covers_def by (metis fst_conv imageI)
  then obtain sz where "(p, sz) \<in> out" by auto
  moreover from this have "unat n \<le> unat sz" using assms by (fastforce simp: covers_def)
  ultimately show thesis using that by (auto simp: bytes_def)
qed

locale block_allocator =
  fixes start :: "'h \<Rightarrow> bool"
    and inv :: "'h \<Rightarrow> bool"
    and out :: "'h \<Rightarrow> (ptr \<times> u32) set"
    and ready :: "'a \<Rightarrow> 'h \<Rightarrow> u32 \<Rightarrow> bool"
    and alloc :: "'a \<Rightarrow> 'h \<Rightarrow> u32 \<Rightarrow> (ptr \<times> 'h) result"
    and release :: "'h \<Rightarrow> ptr \<Rightarrow> 'h result"
  assumes start_law: "start h \<Longrightarrow> inv h \<and> out h = {}"
    and alloc_law: "inv h \<Longrightarrow> ready address h n \<Longrightarrow>
      \<exists>p sz h'. alloc address h n = Inr (p, h') \<and> inv h' \<and> unat n \<le> unat sz \<and> p \<notin> fst ` out h \<and> out h' = insert (p, sz) (out h)"
    and release_law: "inv h \<Longrightarrow> b \<in> out h \<Longrightarrow> \<exists>h'. release h (fst b) = Inr h' \<and> inv h' \<and> out h' = out h - {b}"
    and apart_law: "inv h \<Longrightarrow> a \<in> out h \<Longrightarrow> b \<in> out h \<Longrightarrow> a \<noteq> b \<Longrightarrow> bytes a \<inter> bytes b = {}"
begin

lemma run_inv: "block_run start ready alloc release h held \<Longrightarrow> inv h \<and> covers (out h) held"
proof (induction rule: block_run.induct)
  case (start h)
  then show ?case using start_law[of h] by (simp add: covers_def)
next
  case (alloc h held address n p h')
  then show ?case using alloc_law[of h address n] covers_insert[of "out h" held p n] by auto
next
  case (release h held p n h')
  then obtain sz where "(p, sz) \<in> out h" "covers (out h - {(p, sz)}) (held - {(p, n)})"
    using covers_remove[of "out h" held p n] by blast
  with release show ?case using release_law[of h "(p, sz)"] by auto
qed

text \<open>No two blocks the program holds share a byte.\<close>

lemma held_apart:
  assumes "block_run start ready alloc release h held" "(p, n) \<in> held" "(q, m) \<in> held" "(p, n) \<noteq> (q, m)"
  shows "bytes (p, n) \<inter> bytes (q, m) = {}"
proof -
  have i: "inv h" and c: "covers (out h) held" using run_inv[OF assms(1)] by simp_all
  obtain sz sz' where s: "(p, sz) \<in> out h" "bytes (p, n) \<subseteq> bytes (p, sz)" "(q, sz') \<in> out h" "bytes (q, m) \<subseteq> bytes (q, sz')"
    using covers_bytes[OF c assms(2)] covers_bytes[OF c assms(3)] by metis
  have "inj_on fst held" using c by (simp add: covers_def)
  from inj_onD[OF this, of "(p, n)" "(q, m)"] assms(2-4) have "p \<noteq> q" by auto
  then have "bytes (p, sz) \<inter> bytes (q, sz') = {}" using apart_law[OF i s(1,3)] by simp
  with s show ?thesis by blast
qed

text \<open>A block the program holds can be released, and a request that is ready is served.\<close>

lemma held_releasable:
  assumes "block_run start ready alloc release h held" "(p, n) \<in> held"
  shows "\<exists>h'. release h p = Inr h'"
proof -
  have i: "inv h" and c: "covers (out h) held" using run_inv[OF assms(1)] by simp_all
  obtain sz where "(p, sz) \<in> out h" by (rule covers_bytes[OF c assms(2)])
  from release_law[OF i this] show ?thesis by auto
qed

lemma request_served:
  assumes "block_run start ready alloc release h held" "ready address h n"
  shows "\<exists>p h'. alloc address h n = Inr (p, h')"
  using alloc_law[OF _ assms(2)] run_inv[OF assms(1)] by blast

end

section \<open>The kernel heap\<close>

definition heap_started :: "heap_t \<Rightarrow> bool" where
  "heap_started heap \<longleftrightarrow> (\<exists>page flgs. heap_create page flgs = Some heap)"

text \<open>The request is not larger than what a whole number of pages can hold, and a new zone, if one is needed, does not overlap the others.\<close>

definition heap_ready :: "ptr \<Rightarrow> heap_t \<Rightarrow> u32 \<Rightarrow> bool" where
  "heap_ready address heap n \<longleftrightarrow> unat n \<le> 0xFFFFF000 \<and> (needs_zone heap n \<longrightarrow> fresh_zone address heap n)"

definition heap_release :: "heap_t \<Rightarrow> ptr \<Rightarrow> heap_t result" where
  "heap_release heap pointer = bind_res (hfree heap pointer) (\<lambda>(heap, _). Inr heap)"

interpretation kheap: block_allocator heap_started heap_inv live heap_ready halloc heap_release
proof
  show "heap_inv h \<and> live h = {}" if "heap_started h" for h
    using that by (auto simp: heap_started_def heap_create_def heap_inv_def live_def split: if_splits)
  show "\<exists>p sz h'. halloc address h n = Inr (p, h') \<and> heap_inv h' \<and> unat n \<le> unat sz \<and> p \<notin> fst ` live h \<and> live h' = insert (p, sz) (live h)"
    if "heap_inv h" "heap_ready address h n" for h address n
    using halloc_spec[of h n address] that unfolding heap_ready_def by metis
  show "\<exists>h'. heap_release h (fst b) = Inr h' \<and> heap_inv h' \<and> live h' = live h - {b}" if "heap_inv h" "b \<in> live h" for h b
  proof -
    note spec = hfree_spec[OF that]
    obtain heap' run where "hfree h (fst b) = Inr (heap', run)" "heap_inv heap'" "live heap' = live h - {b}"
      by (rule spec)
    then show ?thesis by (simp add: heap_release_def)
  qed
qed (rule live_apart)

lemma hfree_unknown:
  assumes "heap_inv heap" "p \<notin> fst ` live heap"
  shows "hfree heap p = Inl KernelPanic"
proof (cases "heap_findZoneWithAllocation 0 (h_zones heap) p")
  case None
  then show ?thesis using heap_inv_lock[OF assms(1)] by (simp add: hfree_def)
next
  case (Some a)
  then obtain i j where "heap_findZoneWithAllocation 0 (h_zones heap) p = Some (i, j)" by (cases a) auto
  from findZone_SomeD[OF this] have "block_at heap i j \<in> live heap" "fst (block_at heap i j) = p" by (auto simp: live_at)
  with assms(2) show ?thesis by force
qed

text \<open>
  C2. A request of at most \<open>0xFFFFF000\<close> bytes to a sound heap is served, by a block of at least that size which shares no
  byte with a block in use, and leaves a sound heap in which exactly that block is in use in addition.
\<close>

theorem halloc_hands_out:
  assumes "heap_inv heap" "unat n \<le> 0xFFFFF000" "needs_zone heap n \<longrightarrow> fresh_zone address heap n"
  shows "\<exists>p sz heap'. halloc address heap n = Inr (p, heap') \<and> heap_inv heap' \<and> unat n \<le> unat sz \<and>
    live heap' = insert (p, sz) (live heap) \<and> (\<forall>b \<in> live heap. bytes b \<inter> bytes (p, sz) = {})"
proof -
  obtain p sz heap' where h: "halloc address heap n = Inr (p, heap')" "heap_inv heap'" "unat n \<le> unat sz"
    "live heap' = insert (p, sz) (live heap)" "p \<notin> fst ` live heap"
    by (rule halloc_spec[OF assms])
  have "bytes b \<inter> bytes (p, sz) = {}" if "b \<in> live heap" for b
  proof -
    have "b \<noteq> (p, sz)" using h(5) that by force
    with live_apart[OF h(2), of b "(p, sz)"] h(4) that show ?thesis by simp
  qed
  with h show ?thesis by blast
qed

abbreviation empty_heap :: heap_t where
  "empty_heap \<equiv> \<lparr>h_flags = kHeapFlagAligned, h_lock = 0, h_zones = []\<rparr>"

lemma empty_heap_facts: "heap_inv empty_heap" "live empty_heap = {}" "heap_started empty_heap"
  by (auto simp: heap_inv_def live_def heap_started_def heap_create_def intro!: exI[of _ 1])

theorem halloc_hands_out_witness:
  "\<exists>p sz heap'. halloc 0x100000 empty_heap 100 = Inr (p, heap') \<and> heap_inv heap' \<and> 100 \<le> unat sz \<and> live heap' = {(p, sz)}"
  using halloc_hands_out[of empty_heap 100 "0x100000"] empty_heap_facts(1,2)
  by (simp add: fresh_zone_def zone_pages_def heap_zoneTypeForSize_def)

text \<open>
  C3. Releasing a block in use makes a sound heap in which all other blocks are still in use, and pages go back to the
  kernel only when no block in use lies on them. Releasing anything else, a block twice for instance, is a panic.
\<close>

theorem hfree_takes_back:
  assumes "heap_inv heap"
  shows "(b \<in> live heap \<longrightarrow> (\<exists>heap' run. hfree heap (fst b) = Inr (heap', run) \<and> heap_inv heap' \<and> live heap' = live heap - {b} \<and>
      (\<forall>r. run = Some r \<longrightarrow> (\<forall>c \<in> live heap'. bytes c \<inter> run_bytes r = {})))) \<and>
    (p \<notin> fst ` live heap \<longrightarrow> hfree heap p = Inl KernelPanic)"
  using hfree_spec[OF assms, of b] hfree_unknown[OF assms, of p] by metis

theorem hfree_takes_back_witness:
  "\<exists>p sz heap1. halloc 0x100000 empty_heap 100 = Inr (p, heap1) \<and>
    (\<exists>heap2 run. hfree heap1 p = Inr (heap2, run) \<and> heap_inv heap2 \<and> live heap2 = {} \<and> hfree heap2 p = Inl KernelPanic)"
proof -
  have "heap_ready 0x100000 empty_heap 100"
    by (simp add: heap_ready_def fresh_zone_def zone_pages_def heap_zoneTypeForSize_def)
  from kheap.alloc_law[OF empty_heap_facts(1) this] obtain p sz h where
    h: "halloc 0x100000 empty_heap 100 = Inr (p, h)" "heap_inv h" "live h = {(p, sz)}"
    using empty_heap_facts(2) by auto
  obtain h' run where h': "hfree h p = Inr (h', run)" "heap_inv h'" "live h' = {}"
    using hfree_takes_back[OF h(2), of "(p, sz)" p] h(3) by auto
  with hfree_takes_back[OF h'(2), of "(p, sz)" p] h(1) show ?thesis by auto
qed

text \<open>
  C1. Whatever blocks a program requests and releases, starting with a new heap: no two blocks that it holds share a byte
  of the sizes it asked for, each can be released, and each request the pages suffice for is served.
\<close>

theorem heap_program_safe:
  assumes "block_run heap_started heap_ready halloc heap_release heap held"
  shows "(\<forall>(p, n) \<in> held. \<forall>(q, m) \<in> held. (p, n) \<noteq> (q, m) \<longrightarrow> bytes (p, n) \<inter> bytes (q, m) = {}) \<and>
    (\<forall>(p, n) \<in> held. \<exists>heap'. heap_release heap p = Inr heap') \<and>
    (heap_ready address heap n \<longrightarrow> (\<exists>p heap'. halloc address heap n = Inr (p, heap')))"
  using kheap.held_apart[OF assms] kheap.held_releasable[OF assms] kheap.request_served[OF assms] by blast

theorem heap_program_safe_witness:
  "\<exists>p heap. halloc 0x100000 empty_heap 100 = Inr (p, heap) \<and> (\<exists>heap'. heap_release heap p = Inr heap')"
proof -
  have r: "heap_ready 0x100000 empty_heap 100"
    by (simp add: heap_ready_def fresh_zone_def zone_pages_def heap_zoneTypeForSize_def)
  have s: "block_run heap_started heap_ready halloc heap_release empty_heap {}"
    by (rule block_run.start) (rule empty_heap_facts(3))
  obtain p h where h: "halloc 0x100000 empty_heap 100 = Inr (p, h)"
    using heap_program_safe[OF s, of "0x100000" 100] r by blast
  from heap_program_safe[OF block_run.alloc[OF s r h]] have "\<exists>heap'. heap_release h p = Inr heap'" by blast
  with h show ?thesis by blast
qed

section \<open>Alignment\<close>

lemma useAllocation_fst: "fst (heap_useAllocation heap zone i n) = block_address zone (z_records zone ! i)"
  by (auto simp: heap_useAllocation_def Let_def block_address_def split: option.splits)

lemma useAllocation_other:
  assumes "i < length (z_records zone)" "k \<noteq> i" "is_block (z_records zone ! k)"
  shows "z_records (snd (heap_useAllocation heap zone i n)) ! k = z_records zone ! k"
    "za_type (z_records (snd (heap_useAllocation heap zone i n)) ! i) = kZoneAllocationTypeUsed"
    "length (z_records (snd (heap_useAllocation heap zone i n))) = length (z_records zone)"
    "z_freeSize (snd (heap_useAllocation heap zone i n)) = z_freeSize zone"
    "z_maxAllocations (snd (heap_useAllocation heap zone i n)) = z_maxAllocations zone"
  using assms
  by (auto simp: heap_useAllocation_def Let_def heap_zoneGetUnusedAllocation_def nth_list_update is_block_def make_record_def
      split: option.splits dest!: find_record_SomeD)

lemma find_record_second:
  "2 \<le> length rs \<Longrightarrow> \<not> P (rs ! 0) \<Longrightarrow> P (rs ! 1) \<Longrightarrow> find_record P 0 rs = Some 1"
  by (cases rs; cases "tl rs") auto

lemma tiny_zone_start:
  assumes "unat n \<le> 64"
  shows "z_records (new_zone address n) ! 0 = \<lparr>za_type = kZoneAllocationTypeFree, za_size = 255, za_place = 0\<rparr>"
    "z_records (new_zone address n) ! 1 = \<lparr>za_type = kZoneAllocationTypeFree, za_size = 255, za_place = 255\<rparr>"
    "length (z_records (new_zone address n)) = 998" "z_type (new_zone address n) = heap_zone_typeTiny"
    "z_begin (new_zone address n) = address + 4096" "z_freeSize (new_zone address n) = 4096"
    "z_maxAllocations (new_zone address n) = 1011"
proof -
  have t: "heap_zoneTypeForSize n = heap_zone_typeTiny" "zone_pages n = 1"
    using assms by (simp_all add: heap_zoneTypeForSize_def zone_pages_def word_less_nat_alt)
  have r: "tiny_records 998 4096 0 = \<lparr>za_type = kZoneAllocationTypeFree, za_size = 255, za_place = 0\<rparr> #
    \<lparr>za_type = kZoneAllocationTypeFree, za_size = 255, za_place = 255\<rparr> # tiny_records 996 3586 510"
    using tiny_records.simps(2)[of 997 4096 0] tiny_records.simps(2)[of 996 3841 255] by (simp add: Let_def)
  from r show "z_records (new_zone address n) ! 0 = \<lparr>za_type = kZoneAllocationTypeFree, za_size = 255, za_place = 0\<rparr>"
    "z_records (new_zone address n) ! 1 = \<lparr>za_type = kZoneAllocationTypeFree, za_size = 255, za_place = 255\<rparr>"
    "length (z_records (new_zone address n)) = 998" "z_type (new_zone address n) = heap_zone_typeTiny"
    "z_begin (new_zone address n) = address + 4096" "z_freeSize (new_zone address n) = 4096"
    "z_maxAllocations (new_zone address n) = 1011"
    by (simp_all add: new_zone_def new_records_def Let_def t max_allocations_def sizeof_heap_zone_def sizeof_allocation_def)
qed

lemma not_zero_word: "0 < unat x \<Longrightarrow> x \<noteq> (0 :: u32)"
  by auto

lemma halloc_first:
  assumes "unat n \<le> 64" "address \<noteq> 0" "unat address + 8192 < 2 ^ 32"
  shows "halloc address empty_heap n = Inr (address + 4096, empty_heap\<lparr>h_zones :=
    [snd (heap_useAllocation \<lparr>h_flags = kHeapFlagAligned, h_lock = 1, h_zones = [new_zone address n]\<rparr> (new_zone address n) 0 n)]\<rparr>)"
proof -
  let ?h = "\<lparr>h_flags = kHeapFlagAligned, h_lock = 1, h_zones = [new_zone address n]\<rparr>"
  have t: "heap_zoneTypeForSize n = heap_zone_typeTiny" using assms(1) by (simp add: heap_zoneTypeForSize_def word_less_nat_alt)
  obtain p z where u: "heap_useAllocation ?h (new_zone address n) 0 n = (p, z)" by fastforce
  then have "p = address + 4096"
    using useAllocation_fst[of ?h "new_zone address n" 0 n] tiny_zone_start[OF assms(1), of address] by (simp add: block_address_def)
  moreover have "address + 4096 \<noteq> 0"
    using assms(3) by (intro not_zero_word) (simp add: unat_word_ariths)
  ultimately show ?thesis
    using assms(2) by (simp add: halloc_def heap_zoneForSize_def Let_def t heap_createZoneForSize_def u)
qed

lemma halloc_from_second:
  assumes "zone_inv z" "unat m \<le> 64" "z_type z = heap_zone_typeTiny" "z_freeSize z = 4096" "z_maxAllocations z = 1011"
    "length (z_records z) = 998" "za_type (z_records z ! 0) = kZoneAllocationTypeUsed"
    "z_records z ! 1 = \<lparr>za_type = kZoneAllocationTypeFree, za_size = 255, za_place = 255\<rparr>"
    "unat (z_begin z) + 4096 < 2 ^ 32"
  shows "\<exists>heap2. halloc address \<lparr>h_flags = f, h_lock = 0, h_zones = [z]\<rparr> m = Inr (z_begin z + 255, heap2)"
proof -
  let ?h = "\<lparr>h_flags = f, h_lock = 1, h_zones = [z]\<rparr>"
  have t: "heap_zoneTypeForSize m = heap_zone_typeTiny" using assms(2) by (simp add: heap_zoneTypeForSize_def word_less_nat_alt)
  have "unat (z_allocations z) \<le> 998"
    using zone_invD(3)[OF assms(1)] count_type_le[of _ "z_records z"] assms(6) by (auto simp: counted_def)
  then have c: "z_allocations z < 1011" "m \<le> 4096" using assms(2) by (simp_all add: word_less_nat_alt word_le_nat_alt)
  have "required_size ?h m \<le> 255"
    using required_size_unat(2)[of m ?h] assms(2) by (simp add: word_le_nat_alt)
  then have "find_record (\<lambda>r. za_type r = kZoneAllocationTypeFree \<and> za_size r \<ge> required_size ?h m) 0 (z_records z) = Some 1"
    using assms(6,7,8) by (intro find_record_second) simp_all
  then have f: "heap_zoneForSize address ?h m = Inr (0, 1, ?h)"
    using c assms(3,4,5) by (simp add: heap_zoneForSize_def Let_def t)
  obtain p z' where u: "heap_useAllocation ?h z 1 m = (p, z')" by fastforce
  then have p: "p = z_begin z + 255"
    using useAllocation_fst[of ?h z 1 m] assms(3,8) by (simp add: block_address_def)
  moreover have "z_begin z + 255 \<noteq> 0"
    using assms(9) by (intro not_zero_word) (simp add: unat_word_ariths)
  ultimately show ?thesis using f u by (simp add: halloc_def)
qed

text \<open>
  C40. The flag that asks for aligned blocks is not honoured: the records of a zone for small blocks start with blocks of 255
  bytes, so that the second small block of a new heap is 255 bytes behind the first one.
\<close>

theorem halloc_misaligned:
  assumes "unat n \<le> 64" "unat m \<le> 64" "address \<noteq> 0" "unat address + 8192 < 2 ^ 32"
  shows "\<exists>heap1 heap2. halloc address empty_heap n = Inr (address + 4096, heap1) \<and>
    halloc address' heap1 m = Inr (address + 4096 + 255, heap2)"
proof -
  let ?h = "\<lparr>h_flags = kHeapFlagAligned, h_lock = 1, h_zones = [new_zone address n]\<rparr>" and ?n = "new_zone address n"
  let ?z = "snd (heap_useAllocation ?h ?n 0 n)"
  have p: "zone_pages n = 1" using assms(1) by (simp add: zone_pages_def heap_zoneTypeForSize_def word_less_nat_alt)
  note s = tiny_zone_start[OF assms(1), of address]
  have inv: "zone_inv ?n" using new_zone_inv[of n address] assms(1,4) p by simp
  have o1: "0 < length (z_records ?n)" "is_block (z_records ?n ! 1)" "za_type (z_records ?n ! 0) = kZoneAllocationTypeFree"
    unfolding s is_block_def by simp_all
  have "unat n \<le> 0xFFFFF000" using assms(1) by simp
  then obtain z' sz where "heap_useAllocation ?h ?n 0 n = (block_address ?n (z_records ?n ! 0), z')" "taken ?n 0 sz z'"
    "min (unat (required_size ?h n)) (unat (za_size (z_records ?n ! 0))) \<le> unat sz"
    by (rule useAllocation_taken[OF inv o1(1,3)])
  then have t: "taken ?n 0 sz ?z" by simp
  note o = useAllocation_other[OF o1(1) _ o1(2), of ?h n]
  have "\<exists>heap2. halloc address' \<lparr>h_flags = kHeapFlagAligned, h_lock = 0, h_zones = [?z]\<rparr> m = Inr (z_begin ?z + 255, heap2)"
  proof (rule halloc_from_second[OF _ assms(2)])
    show "zone_inv ?z" "z_type ?z = heap_zone_typeTiny" "unat (z_begin ?z) + 4096 < 2 ^ 32"
      using t s(4,5) assms(4) by (simp_all add: taken_def same_frame_def unat_word_ariths)
    show "z_freeSize ?z = 4096" using o(4) s(6) by simp
    show "z_maxAllocations ?z = 1011" using o(5) s(7) by simp
    show "length (z_records ?z) = 998" using o(3) s(3) by simp
    show "za_type (z_records ?z ! 0) = kZoneAllocationTypeUsed" using o(2) by simp
    show "z_records ?z ! 1 = \<lparr>za_type = kZoneAllocationTypeFree, za_size = 255, za_place = 255\<rparr>" using o(1) s(2) by simp
  qed
  moreover have "z_begin ?z = address + 4096" using t s(5) by (simp add: taken_def same_frame_def)
  ultimately show ?thesis using halloc_first[OF assms(1,3,4)] by simp
qed

theorem halloc_misaligned_witness:
  "\<exists>heap1 heap2. halloc 0x100000 empty_heap 4 = Inr (0x101000, heap1) \<and> halloc 0 heap1 8 = Inr (0x1010FF, heap2)"
  using halloc_misaligned[of 4 8 "0x100000" 0] by simp

end
