(* ===== verification/Spec2Isabelle.thy ===== *)
theory Spec2Isabelle
  imports Syslogd PMBoot KList ArraySort Hashset ATreeIterator Stdio Processes VMAlloc HeapClient
begin

text \<open>Firedrake.\<close>

end
